(* ===== verification/Prelude.thy ===== *)
theory Prelude
  imports Main "HOL-Library.Word" "HOL-Library.Sublist"
begin

text \<open>
  Shared vocabulary of the development: machine integers, byte strings, the result type of a
  Rust call, checked arithmetic, and the little-endian encodings of \<open>to_le_bytes\<close> and
  \<open>from_le_bytes\<close>. The locale \<open>fixed_codec\<close> is the interface of a fixed-width encoding; it is
  interpreted here on the three integer widths the program stores.
\<close>

subsection \<open>Types\<close>

type_synonym u8 = "8 word"
type_synonym u16 = "16 word"
type_synonym u32 = "32 word"
type_synonym u64 = "64 word"
type_synonym bytes = "u8 list"

text \<open>
  A path is the list of its components, and \<open>crc_fun\<close> is the type of the checksum function of
  the external crate \<^verbatim>\<open>crc32c\<close>, which every definition that needs it takes as an argument.
\<close>

type_synonym path = "string list"
type_synonym crc_fun = "bytes \<Rightarrow> u32"

text \<open>
  How a call can end. \<open>Ok\<close> and \<open>Err\<close> are the two constructors of Rust's \<open>Result\<close>. \<open>Stop\<close> is a
  call that never gives a value back to its caller: it panics, or the future is dropped at an
  await point (or the awaited code unwinds), or an \<open>unsafe\<close> operation is used outside its
  documented precondition.
\<close>

datatype stop = Panic | Cancelled | Undefined

datatype ('a, 'e) outcome = Ok 'a | Err 'e | Stop stop

fun map_err :: "('e \<Rightarrow> 'f) \<Rightarrow> ('a, 'e) outcome \<Rightarrow> ('a, 'f) outcome" where
  "map_err f (Ok x) = Ok x"
| "map_err f (Err e) = Err (f e)"
| "map_err f (Stop s) = Stop s"

fun is_ok :: "('a, 'e) outcome \<Rightarrow> bool" where
  "is_ok (Ok _) = True"
| "is_ok _ = False"

lemma is_ok_iff: "is_ok r \<longleftrightarrow> (\<exists>x. r = Ok x)"
  by (cases r) auto

lemma map_err_eq_Ok [simp]: "map_err f r = Ok x \<longleftrightarrow> r = Ok x"
  by (cases r) auto

lemma is_ok_map_err [simp]: "is_ok (map_err f r) = is_ok r"
  by (cases r) auto

text \<open>\<open>layout\<close> collects the numeric values of the protocol and storage constants.\<close>

named_theorems layout "values of the layout constants"

subsection \<open>Checked arithmetic\<close>

text \<open>
  Rust's \<open>checked_add\<close>, \<open>checked_sub\<close> and \<open>saturating_add\<close> on an unsigned integer of any width.
\<close>

definition checked_add :: "'a::len word \<Rightarrow> 'a word \<Rightarrow> 'a word option" where
  "checked_add a b = (if unat a + unat b < 2 ^ LENGTH('a) then Some (a + b) else None)"

definition checked_sub :: "'a::len word \<Rightarrow> 'a word \<Rightarrow> 'a word option" where
  "checked_sub a b = (if b \<le> a then Some (a - b) else None)"

definition saturating_add :: "'a::len word \<Rightarrow> 'a word \<Rightarrow> 'a word" where
  "saturating_add a b = (if unat a + unat b < 2 ^ LENGTH('a) then a + b else - 1)"

lemma unat_lt2p: "unat (w :: 'a::len word) < 2 ^ LENGTH('a)"
  by (rule unsigned_less)

lemma unat_minus_one_word: "unat (- 1 :: 'a::len word) = 2 ^ LENGTH('a) - 1"
  by (simp add: unsigned_minus_1_eq_mask mask_eq_exp_minus_1)

lemma unat_add_no_overflow:
  "unat a + unat b < 2 ^ LENGTH('a) \<Longrightarrow> unat (a + b :: 'a::len word) = unat a + unat b"
  by (simp add: unat_word_ariths)

lemma checked_add_SomeD:
  "checked_add a b = Some (c :: 'a::len word) \<Longrightarrow> unat c = unat a + unat b"
  by (auto simp: checked_add_def unat_add_no_overflow split: if_splits)

lemma checked_add_eq_None:
  "checked_add a b = None \<longleftrightarrow> 2 ^ LENGTH('a) \<le> unat a + unat (b :: 'a::len word)"
  by (auto simp: checked_add_def)

lemma checked_sub_SomeD:
  "checked_sub a b = Some (c :: 'a::len word) \<Longrightarrow> unat a = unat c + unat b"
  by (auto simp: checked_sub_def unat_sub word_le_nat_alt split: if_splits)

lemma checked_sub_eq_None:
  "checked_sub a b = None \<longleftrightarrow> unat a < unat (b :: 'a::len word)"
  by (auto simp: checked_sub_def word_le_nat_alt)

lemma checked_sub_of_add:
  "checked_add a b = Some c \<Longrightarrow> checked_sub c b = Some (a :: 'a::len word)"
  by (auto simp: checked_add_def checked_sub_def word_le_nat_alt unat_add_no_overflow
           split: if_splits)

lemma checked_add_of_sub:
  "checked_sub a b = Some c \<Longrightarrow> checked_add c b = Some (a :: 'a::len word)"
proof -
  assume a: "checked_sub a b = Some c"
  then have "unat c + unat b = unat a" by (simp add: checked_sub_SomeD)
  then have "unat c + unat b < 2 ^ LENGTH('a)" by (simp add: unat_lt2p)
  with a show ?thesis by (auto simp: checked_add_def checked_sub_def split: if_splits)
qed

lemma unat_saturating_add:
  "unat (saturating_add a b :: 'a::len word) = min (unat a + unat b) (2 ^ LENGTH('a) - 1)"
  by (auto simp: saturating_add_def unat_add_no_overflow unat_minus_one_word not_less)

subsection \<open>Lists\<close>

lemma take_append_drop_take: "take m (drop n xs) @ drop (n + m) xs = drop n xs"
  by (metis append_take_drop_id drop_drop add.commute)

lemma take_add_split: "take (m + n) xs = take m xs @ take n (drop m xs)"
  by (rule take_add)

lemma length_concat_const:
  "(\<forall>x\<in>set xs. length (f x) = w) \<Longrightarrow> length (concat (map f xs)) = length xs * w"
  by (induction xs) auto

lemma those_map_Some [simp]: "those (map (\<lambda>x. Some (f x)) xs) = Some (map f xs)"
  by (induction xs) auto

lemma those_eq_SomeI: "(\<forall>x\<in>set xs. f x = Some (g x)) \<Longrightarrow> those (map f xs) = Some (map g xs)"
  by (induction xs) auto

subsection \<open>Little-endian integers\<close>

text \<open>
  \<open>to_le n x\<close> is the \<open>n\<close>-byte little-endian encoding of a natural number and \<open>of_le\<close> reads a
  byte string back.
\<close>

fun to_le :: "nat \<Rightarrow> nat \<Rightarrow> bytes" where
  "to_le 0 x = []"
| "to_le (Suc n) x = of_nat (x mod 256) # to_le n (x div 256)"

fun of_le :: "bytes \<Rightarrow> nat" where
  "of_le [] = 0"
| "of_le (b # bs) = unat b + 256 * of_le bs"

lemma length_to_le [simp]: "length (to_le n x) = n"
  by (induction n arbitrary: x) auto

lemma unat_of_nat_u8: "unat (of_nat x :: u8) = x mod 256"
  by (simp add: unat_of_nat)

lemma of_le_to_le: "of_le (to_le n x) = x mod 256 ^ n"
proof (induction n arbitrary: x)
  case 0
  then show ?case by simp
next
  case (Suc n)
  then show ?case by (simp add: unat_of_nat_u8 mod_mult2_eq add.commute)
qed

lemma of_le_bound: "of_le bs < 256 ^ length bs"
proof (induction bs)
  case Nil
  then show ?case by simp
next
  case (Cons b bs)
  have "unat b < 256" using unat_lt2p [of b] by simp
  with Cons show ?case by simp
qed

lemma to_le_of_le: "to_le (length bs) (of_le bs) = bs"
proof (induction bs)
  case Nil
  then show ?case by simp
next
  case (Cons b bs)
  have "unat b < 256" using unat_lt2p [of b] by simp
  then have "(unat b + 256 * of_le bs) div 256 = of_le bs"
    and "(unat b + 256 * of_le bs) mod 256 = unat b" by simp_all
  with Cons show ?case by simp
qed

definition to_le_bytes16 :: "u16 \<Rightarrow> bytes" where
  "to_le_bytes16 w = to_le 2 (unat w)"

definition to_le_bytes32 :: "u32 \<Rightarrow> bytes" where
  "to_le_bytes32 w = to_le 4 (unat w)"

definition to_le_bytes64 :: "u64 \<Rightarrow> bytes" where
  "to_le_bytes64 w = to_le 8 (unat w)"

definition from_le_bytes16 :: "bytes \<Rightarrow> u16" where
  "from_le_bytes16 bs = of_nat (of_le bs)"

definition from_le_bytes32 :: "bytes \<Rightarrow> u32" where
  "from_le_bytes32 bs = of_nat (of_le bs)"

definition from_le_bytes64 :: "bytes \<Rightarrow> u64" where
  "from_le_bytes64 bs = of_nat (of_le bs)"

subsection \<open>The interface of a fixed-width encoding\<close>

text \<open>
  What the record layout and the dense index rely on: an encoding of one width that decodes to
  the value it came from, and whose every byte string of that width is an encoding. The lemmas
  are about a table of entries, one after the other without separators.
\<close>

locale fixed_codec =
  fixes enc :: "'a \<Rightarrow> bytes" and dec :: "bytes \<Rightarrow> 'a" and width :: nat
  assumes width_pos: "0 < width"
    and length_enc: "length (enc x) = width"
    and dec_enc: "dec (enc x) = x"
    and enc_dec: "length bs = width \<Longrightarrow> enc (dec bs) = bs"
begin

lemma enc_inject: "enc x = enc y \<longleftrightarrow> x = y"
  by (metis dec_enc)

lemma length_table: "length (concat (map enc xs)) = length xs * width"
  by (simp add: length_concat_const length_enc)

lemma drop_table: "drop (n * width) (concat (map enc xs)) = concat (map enc (drop n xs))"
proof (induction xs arbitrary: n)
  case Nil
  then show ?case by simp
next
  case (Cons x xs)
  show ?case
  proof (cases n)
    case 0
    then show ?thesis by simp
  next
    case (Suc m)
    then show ?thesis using Cons.IH [of m] by (simp add: length_enc)
  qed
qed

lemma take_table: "take (n * width) (concat (map enc xs)) = concat (map enc (take n xs))"
proof (induction xs arbitrary: n)
  case Nil
  then show ?case by simp
next
  case (Cons x xs)
  show ?case
  proof (cases n)
    case 0
    then show ?thesis by simp
  next
    case (Suc m)
    then show ?thesis using Cons.IH [of m] by (simp add: length_enc)
  qed
qed

lemma table_entry:
  assumes "i < length xs"
  shows "dec (take width (drop (i * width) (concat (map enc xs)))) = xs ! i"
proof -
  have "drop (i * width) (concat (map enc xs)) = enc (xs ! i) @ concat (map enc (drop (Suc i) xs))"
    using assms by (simp add: drop_table Cons_nth_drop_Suc [symmetric])
  then show ?thesis by (simp add: length_enc dec_enc)
qed

lemma table_inject: "concat (map enc xs) = concat (map enc ys) \<longleftrightarrow> xs = ys"
proof
  assume eq: "concat (map enc xs) = concat (map enc ys)"
  then have "length (concat (map enc xs)) = length (concat (map enc ys))" by simp
  then have len: "length xs = length ys" using width_pos by (simp add: length_table)
  show "xs = ys"
  proof (rule nth_equalityI)
    show "length xs = length ys" by (rule len)
  next
    fix i
    assume "i < length xs"
    then show "xs ! i = ys ! i" using eq len table_entry [of i xs] table_entry [of i ys] by simp
  qed
qed simp

end

lemma le_word_roundtrip:
  "256 ^ n = (2 :: nat) ^ LENGTH('a) \<Longrightarrow> of_nat (of_le (to_le n (unat w))) = (w :: 'a::len word)"
  by (simp add: of_le_to_le unat_lt2p)

lemma le_bytes_roundtrip:
  assumes "256 ^ length bs = (2 :: nat) ^ LENGTH('a)"
  shows "to_le (length bs) (unat (of_nat (of_le bs) :: 'a::len word)) = bs"
proof -
  have "of_le bs < 2 ^ LENGTH('a)" using of_le_bound [of bs] assms by simp
  then have "unat (of_nat (of_le bs) :: 'a word) = of_le bs" by (simp add: unat_of_nat)
  then show ?thesis by (simp add: to_le_of_le)
qed

interpretation le16: fixed_codec to_le_bytes16 from_le_bytes16 2
proof unfold_locales
  show "from_le_bytes16 (to_le_bytes16 x) = x" for x
    using le_word_roundtrip [of 2 x] by (simp add: from_le_bytes16_def to_le_bytes16_def)
  show "length bs = 2 \<Longrightarrow> to_le_bytes16 (from_le_bytes16 bs) = bs" for bs
    using le_bytes_roundtrip [of bs, where 'a = 16]
    by (simp add: from_le_bytes16_def to_le_bytes16_def)
qed (simp_all add: to_le_bytes16_def)

interpretation le32: fixed_codec to_le_bytes32 from_le_bytes32 4
proof unfold_locales
  show "from_le_bytes32 (to_le_bytes32 x) = x" for x
    using le_word_roundtrip [of 4 x] by (simp add: from_le_bytes32_def to_le_bytes32_def)
  show "length bs = 4 \<Longrightarrow> to_le_bytes32 (from_le_bytes32 bs) = bs" for bs
    using le_bytes_roundtrip [of bs, where 'a = 32]
    by (simp add: from_le_bytes32_def to_le_bytes32_def)
qed (simp_all add: to_le_bytes32_def)

interpretation le64: fixed_codec to_le_bytes64 from_le_bytes64 8
proof unfold_locales
  show "from_le_bytes64 (to_le_bytes64 x) = x" for x
    using le_word_roundtrip [of 8 x] by (simp add: from_le_bytes64_def to_le_bytes64_def)
  show "length bs = 8 \<Longrightarrow> to_le_bytes64 (from_le_bytes64 bs) = bs" for bs
    using le_bytes_roundtrip [of bs, where 'a = 64]
    by (simp add: from_le_bytes64_def to_le_bytes64_def)
qed (simp_all add: to_le_bytes64_def)

lemmas le_codec_simps [simp] =
  le16.length_enc le16.dec_enc le32.length_enc le32.dec_enc le64.length_enc le64.dec_enc

end
