(* ===== verification/Identifiers.thy ===== *)
theory Identifiers
  imports Prelude
begin

text \<open>
  The identifier and length types of \<^verbatim>\<open>transaction-log-exports/src/record\<close>: stream ids, sequence
  numbers, record ids and encoded record lengths, with their checked constructors, their
  successor and their derived orderings. Each wrapper type is a datatype with one constructor;
  Rust's private field is the constructor's argument.
\<close>

subsection \<open>Stream ids\<close>

datatype StreamId = StreamId u16

datatype StreamIdError = StreamIdError u16

definition STREAM_COUNT :: nat where
  "STREAM_COUNT = 4096"

fun StreamId_get :: "StreamId \<Rightarrow> u16" where
  "StreamId_get (StreamId v) = v"

definition StreamId_MIN :: StreamId where
  "StreamId_MIN = StreamId 0"

definition StreamId_MAX :: StreamId where
  "StreamId_MAX = StreamId (of_nat (STREAM_COUNT - 1))"

definition StreamId_new :: "u16 \<Rightarrow> (StreamId, StreamIdError) outcome" where
  "StreamId_new value =
     (if value > StreamId_get StreamId_MAX then Err (StreamIdError value)
      else Ok (StreamId value))"

definition StreamId_all :: "StreamId list" where
  "StreamId_all =
     map (\<lambda>n. StreamId (of_nat n))
       [unat (StreamId_get StreamId_MIN)..<Suc (unat (StreamId_get StreamId_MAX))]"

text \<open>The invariant of the type, established by \<open>StreamId_new\<close>.\<close>

definition valid_stream :: "StreamId \<Rightarrow> bool" where
  "valid_stream s \<longleftrightarrow> StreamId_get s \<le> StreamId_get StreamId_MAX"

lemma STREAM_COUNT_value [layout]: "STREAM_COUNT = 4096"
  by (simp add: STREAM_COUNT_def)

lemma StreamId_MAX_value [layout]: "StreamId_MAX = StreamId 4095"
  by (simp add: StreamId_MAX_def STREAM_COUNT_def)

lemma StreamId_MIN_value [layout]: "StreamId_MIN = StreamId 0"
  by (simp add: StreamId_MIN_def)

lemma StreamId_get_inject [simp]: "StreamId_get a = StreamId_get b \<longleftrightarrow> a = b"
  by (cases a; cases b) auto

lemma StreamId_new_eq_Ok: "StreamId_new v = Ok s \<longleftrightarrow> s = StreamId v \<and> v \<le> 4095"
  by (auto simp: StreamId_new_def layout not_less)

lemma StreamId_new_eq_Err: "StreamId_new v = Err e \<longleftrightarrow> e = StreamIdError v \<and> 4095 < v"
  by (auto simp: StreamId_new_def layout)

lemma StreamId_new_not_Stop [simp]: "StreamId_new v \<noteq> Stop x"
  by (simp add: StreamId_new_def)

lemma valid_stream_iff: "valid_stream s \<longleftrightarrow> unat (StreamId_get s) < 4096"
proof -
  have "valid_stream s \<longleftrightarrow> unat (StreamId_get s) \<le> unat (4095 :: u16)"
    by (simp add: valid_stream_def layout word_le_nat_alt)
  also have "\<dots> \<longleftrightarrow> unat (StreamId_get s) < 4096" by auto
  finally show ?thesis .
qed

lemma StreamId_new_valid: "StreamId_new v = Ok s \<Longrightarrow> valid_stream s"
  by (simp add: StreamId_new_eq_Ok valid_stream_def layout)

lemma StreamId_all_alt: "StreamId_all = map (\<lambda>n. StreamId (of_nat n)) [0..<4096]"
  by (simp add: StreamId_all_def layout)

instantiation StreamId :: linorder
begin

definition less_eq_StreamId :: "StreamId \<Rightarrow> StreamId \<Rightarrow> bool" where
  "less_eq_StreamId a b = (StreamId_get a \<le> StreamId_get b)"

definition less_StreamId :: "StreamId \<Rightarrow> StreamId \<Rightarrow> bool" where
  "less_StreamId a b = (StreamId_get a < StreamId_get b)"

instance
  by standard (auto simp: less_eq_StreamId_def less_StreamId_def less_le)

end

subsection \<open>Sequence numbers\<close>

datatype SequenceNumber = SequenceNumber u64

fun SequenceNumber_get :: "SequenceNumber \<Rightarrow> u64" where
  "SequenceNumber_get (SequenceNumber v) = v"

definition SequenceNumber_new :: "u64 \<Rightarrow> SequenceNumber" where
  "SequenceNumber_new value = SequenceNumber value"

definition SequenceNumber_MIN :: SequenceNumber where
  "SequenceNumber_MIN = SequenceNumber 0"

definition SequenceNumber_MAX :: SequenceNumber where
  "SequenceNumber_MAX = SequenceNumber (- 1)"

lemma SequenceNumber_get_inject [simp]: "SequenceNumber_get a = SequenceNumber_get b \<longleftrightarrow> a = b"
  by (cases a; cases b) auto

lemma SequenceNumber_new_get [simp]: "SequenceNumber_new (SequenceNumber_get s) = s"
  by (cases s) (simp add: SequenceNumber_new_def)

lemma SequenceNumber_get_new [simp]: "SequenceNumber_get (SequenceNumber_new v) = v"
  by (simp add: SequenceNumber_new_def)

instantiation SequenceNumber :: linorder
begin

definition less_eq_SequenceNumber :: "SequenceNumber \<Rightarrow> SequenceNumber \<Rightarrow> bool" where
  "less_eq_SequenceNumber a b = (SequenceNumber_get a \<le> SequenceNumber_get b)"

definition less_SequenceNumber :: "SequenceNumber \<Rightarrow> SequenceNumber \<Rightarrow> bool" where
  "less_SequenceNumber a b = (SequenceNumber_get a < SequenceNumber_get b)"

instance
  by standard (auto simp: less_eq_SequenceNumber_def less_SequenceNumber_def less_le)

end

text \<open>The position of a sequence number in its stream, as a natural number.\<close>

definition seq_nat :: "SequenceNumber \<Rightarrow> nat" where
  "seq_nat s = unat (SequenceNumber_get s)"

lemma seq_nat_bound: "seq_nat s < 2 ^ 64"
  using unat_lt2p [of "SequenceNumber_get s"] by (simp add: seq_nat_def)

lemma seq_nat_inject [simp]: "seq_nat a = seq_nat b \<longleftrightarrow> a = b"
  unfolding seq_nat_def by (metis SequenceNumber_get_inject unsigned_word_eqI)

lemma seq_le_iff: "a \<le> b \<longleftrightarrow> seq_nat a \<le> seq_nat b"
  by (simp add: less_eq_SequenceNumber_def seq_nat_def word_le_nat_alt)

lemma seq_less_iff: "a < b \<longleftrightarrow> seq_nat a < seq_nat b"
  by (simp add: less_SequenceNumber_def seq_nat_def word_less_nat_alt)

lemma seq_nat_new [simp]: "seq_nat (SequenceNumber_new v) = unat v"
  by (simp add: seq_nat_def)

lemma seq_nat_con [simp]: "seq_nat (SequenceNumber v) = unat v"
  by (simp add: seq_nat_def)

subsection \<open>Record ids\<close>

datatype RecordId = RecordId (stream_id: StreamId) (sequence_number: SequenceNumber)

definition RecordId_new :: "StreamId \<Rightarrow> SequenceNumber \<Rightarrow> RecordId" where
  "RecordId_new s n = RecordId s n"

definition RecordId_next :: "RecordId \<Rightarrow> RecordId option" where
  "RecordId_next self =
     (case checked_add (SequenceNumber_get (sequence_number self)) 1 of
        None \<Rightarrow> None
      | Some value \<Rightarrow> Some (RecordId_new (stream_id self) (SequenceNumber_new value)))"

text \<open>\<open>None\<close> of \<open>RecordId_next\<close> is the panic of \<^verbatim>\<open>expect("record sequence number overflow")\<close>.\<close>

instantiation RecordId :: linorder
begin

definition less_RecordId :: "RecordId \<Rightarrow> RecordId \<Rightarrow> bool" where
  "less_RecordId a b \<longleftrightarrow>
     stream_id a < stream_id b \<or> stream_id a = stream_id b \<and> sequence_number a < sequence_number b"

definition less_eq_RecordId :: "RecordId \<Rightarrow> RecordId \<Rightarrow> bool" where
  "less_eq_RecordId a b \<longleftrightarrow>
     stream_id a < stream_id b \<or> stream_id a = stream_id b \<and> sequence_number a \<le> sequence_number b"

instance
  by standard (auto simp: less_RecordId_def less_eq_RecordId_def RecordId.expand)

end

lemma RecordId_new_sel [simp]:
  "stream_id (RecordId_new s n) = s" "sequence_number (RecordId_new s n) = n"
  by (simp_all add: RecordId_new_def)

lemma RecordId_new_inject [simp]: "RecordId_new s n = RecordId_new s' n' \<longleftrightarrow> s = s' \<and> n = n'"
  by (simp add: RecordId_new_def)

lemma RecordId_eqI: "stream_id a = stream_id b \<Longrightarrow> sequence_number a = sequence_number b \<Longrightarrow> a = b"
  by (cases a; cases b) simp

lemma unat_one_u64 [simp]: "unat (1 :: u64) = 1"
  by simp

lemma RecordId_next_eq_Some:
  "RecordId_next i = Some j \<longleftrightarrow>
     stream_id j = stream_id i \<and> seq_nat (sequence_number j) = Suc (seq_nat (sequence_number i))"
proof
  assume "RecordId_next i = Some j"
  then show "stream_id j = stream_id i \<and>
      seq_nat (sequence_number j) = Suc (seq_nat (sequence_number i))"
    by (auto simp: RecordId_next_def seq_nat_def dest!: checked_add_SomeD split: option.splits)
next
  assume j: "stream_id j = stream_id i \<and>
      seq_nat (sequence_number j) = Suc (seq_nat (sequence_number i))"
  let ?v = "SequenceNumber_get (sequence_number i)"
  have bound: "unat ?v + unat (1 :: u64) < 2 ^ LENGTH(64)"
    using j seq_nat_bound [of "sequence_number j"] by (simp add: seq_nat_def)
  have "unat (?v + 1) = Suc (unat ?v)" using unat_add_no_overflow [OF bound] by simp
  then have "SequenceNumber_new (?v + 1) = sequence_number j"
    using j by (metis seq_nat_inject seq_nat_new seq_nat_def)
  then show "RecordId_next i = Some j"
    using j bound by (auto simp: RecordId_next_def checked_add_def intro: RecordId_eqI)
qed

lemma RecordId_next_eq_None:
  "RecordId_next i = None \<longleftrightarrow> seq_nat (sequence_number i) = 2 ^ 64 - 1"
proof -
  have "RecordId_next i = None \<longleftrightarrow> 2 ^ 64 \<le> seq_nat (sequence_number i) + 1"
    using checked_add_eq_None [of "SequenceNumber_get (sequence_number i)" 1]
    by (auto simp: RecordId_next_def seq_nat_def split: option.splits)
  then show ?thesis using seq_nat_bound [of "sequence_number i"] by auto
qed

subsection \<open>Encoded record lengths\<close>

datatype RecordLength = RecordLength u64

datatype RecordLengthError = RecordLengthError u64

fun RecordLength_get :: "RecordLength \<Rightarrow> u64" where
  "RecordLength_get (RecordLength v) = v"

text \<open>\<^verbatim>\<open>new_unchecked\<close> wraps a length whose bounds its caller has established.\<close>

definition RecordLength_new_unchecked :: "u64 \<Rightarrow> RecordLength" where
  "RecordLength_new_unchecked value = RecordLength value"

subsection \<open>Properties\<close>

text \<open>
  \<open>RecordId::next\<close> is the successor in the derived ordering: it keeps the stream, no id lies
  strictly between, and it panics exactly at the last sequence number instead of wrapping.
\<close>

theorem RecordId_next_is_successor:
  "case RecordId_next i of
     Some j \<Rightarrow> stream_id j = stream_id i \<and>
       seq_nat (sequence_number j) = Suc (seq_nat (sequence_number i)) \<and> i < j \<and>
       \<not> (\<exists>k. i < k \<and> k < j)
   | None \<Rightarrow> sequence_number i = SequenceNumber_MAX"
proof (cases "RecordId_next i")
  case None
  have "seq_nat SequenceNumber_MAX = 2 ^ 64 - 1"
    by (simp add: SequenceNumber_MAX_def unat_minus_one_word)
  moreover have "seq_nat (sequence_number i) = 2 ^ 64 - 1"
    by (rule RecordId_next_eq_None [THEN iffD1, OF None])
  ultimately have "sequence_number i = SequenceNumber_MAX" by (simp only: seq_nat_inject [symmetric])
  then show ?thesis using None by simp
next
  case (Some j)
  then have j: "stream_id j = stream_id i" "seq_nat (sequence_number j) = Suc (seq_nat (sequence_number i))"
    by (simp_all add: RecordId_next_eq_Some)
  have lt: "i < j" unfolding less_RecordId_def seq_less_iff j by simp
  have none: "\<not> (i < k \<and> k < j)" for k
    unfolding less_RecordId_def seq_less_iff j
    using order.asym [of "stream_id i" "stream_id k"] by (cases "stream_id k = stream_id i") auto
  show ?thesis unfolding Some using j lt none by simp
qed

text \<open>
  \<open>StreamId::all\<close> enumerates exactly the ids that \<open>StreamId::new\<close> accepts, each once, in
  increasing order.
\<close>

theorem StreamId_all_enumerates:
  "set StreamId_all = {s. StreamId_new (StreamId_get s) = Ok s} \<and> sorted StreamId_all \<and>
   distinct StreamId_all \<and> length StreamId_all = STREAM_COUNT"
proof -
  have small: "unat (of_nat n :: u16) = n" if "n < 4096" for n
    using that by (simp add: unat_of_nat)
  have "s \<in> set StreamId_all \<longleftrightarrow> StreamId_new (StreamId_get s) = Ok s" for s
  proof -
    have "StreamId_new (StreamId_get s) = Ok s \<longleftrightarrow> unat (StreamId_get s) < 4096"
      using valid_stream_iff [of s] by (cases s) (simp add: StreamId_new_eq_Ok valid_stream_def layout)
    also have "\<dots> \<longleftrightarrow> s \<in> set StreamId_all"
    proof
      assume "unat (StreamId_get s) < 4096"
      moreover have "s = StreamId (of_nat (unat (StreamId_get s)))" by (cases s) simp
      ultimately show "s \<in> set StreamId_all" by (auto simp: StreamId_all_alt intro!: image_eqI)
    qed (auto simp: StreamId_all_alt small)
    finally show ?thesis by simp
  qed
  moreover have "sorted StreamId_all"
    by (auto simp: StreamId_all_alt sorted_wrt_map sorted_wrt_iff_nth_less less_eq_StreamId_def
        word_le_nat_alt small)
  moreover have "distinct StreamId_all"
  proof -
    have "inj_on (\<lambda>n. StreamId (of_nat n)) {0..<4096}"
    proof (rule inj_onI)
      fix a b :: nat
      assume "a \<in> {0..<4096}" "b \<in> {0..<4096}" "StreamId (of_nat a) = StreamId (of_nat b)"
      then have "unat (of_nat a :: u16) = unat (of_nat b :: u16)" by (simp only: StreamId.inject)
      moreover have "a < 4096" "b < 4096"
        using \<open>a \<in> {0..<4096}\<close> \<open>b \<in> {0..<4096}\<close> unfolding atLeastLessThan_iff by blast+
      ultimately show "a = b" by (simp only: small)
    qed
    then show ?thesis by (simp only: StreamId_all_alt distinct_map distinct_upt set_upt)
  qed
  moreover have "length StreamId_all = STREAM_COUNT" by (simp add: StreamId_all_alt layout)
  ultimately show ?thesis by blast
qed

end
