(* ===== verification/Protocol.thy ===== *)
theory Protocol
  imports Identifiers "HOL-Library.Monad_Syntax"
begin

text \<open>
  The encoded record of \<^verbatim>\<open>record_protocol.rs\<close> (layout constants, field reads, and the writes
  into uninitialised storage), and the types built on it: \<open>Record\<close>, \<open>RecordHeader\<close> and the checked
  \<open>RecordLength\<close>. \<open>valid_frame\<close> is the invariant that \<^verbatim>\<open>record.rs\<close> states for the bytes of a
  record; \<open>encode_record\<close> is the specification of the layout.
\<close>

subsection \<open>Layout constants\<close>

definition LENGTH_LEN :: nat where "LENGTH_LEN = 2"

definition STREAM_ID_LEN :: nat where "STREAM_ID_LEN = 2"

definition SEQUENCE_NUMBER_LEN :: nat where "SEQUENCE_NUMBER_LEN = 8"

definition LENGTH_OFFSET :: nat where "LENGTH_OFFSET = 0"

definition STREAM_ID_OFFSET :: nat where "STREAM_ID_OFFSET = LENGTH_OFFSET + LENGTH_LEN"

definition SEQUENCE_NUMBER_OFFSET :: nat where
  "SEQUENCE_NUMBER_OFFSET = STREAM_ID_OFFSET + STREAM_ID_LEN"

definition HEADER_LEN :: nat where "HEADER_LEN = SEQUENCE_NUMBER_OFFSET + SEQUENCE_NUMBER_LEN"

definition CRC_LEN :: nat where "CRC_LEN = 4"

definition MIN_RECORD_LEN :: nat where "MIN_RECORD_LEN = HEADER_LEN + CRC_LEN"

definition MAX_RECORD_LEN :: nat where "MAX_RECORD_LEN = unat (- 1 :: u16)"

definition MAX_PAYLOAD_LEN :: nat where "MAX_PAYLOAD_LEN = MAX_RECORD_LEN - MIN_RECORD_LEN"

lemma layout_values [layout]:
  "LENGTH_LEN = 2" "STREAM_ID_LEN = 2" "SEQUENCE_NUMBER_LEN = 8"
  "LENGTH_OFFSET = 0" "STREAM_ID_OFFSET = 2" "SEQUENCE_NUMBER_OFFSET = 4"
  "HEADER_LEN = 12" "CRC_LEN = 4" "MIN_RECORD_LEN = 16" "MAX_RECORD_LEN = 65535"
  "MAX_PAYLOAD_LEN = 65519"
  by (simp_all add: LENGTH_LEN_def STREAM_ID_LEN_def SEQUENCE_NUMBER_LEN_def LENGTH_OFFSET_def
      STREAM_ID_OFFSET_def SEQUENCE_NUMBER_OFFSET_def HEADER_LEN_def CRC_LEN_def
      MIN_RECORD_LEN_def MAX_RECORD_LEN_def MAX_PAYLOAD_LEN_def unat_minus_one_word)

subsection \<open>Reads\<close>

text \<open>
  A header is an array of \<open>HEADER_LEN\<close> bytes, so the constant offsets of \<open>read_field\<close> are in
  range. \<open>header_unchecked\<close> and \<open>read_crc\<close> are \<open>unsafe\<close>: their callers establish that the frame
  holds a header or a trailer.
\<close>

definition read_field :: "nat \<Rightarrow> bytes \<Rightarrow> nat \<Rightarrow> bytes" where
  "read_field n header offset = take n (drop offset header)"

definition read_length :: "bytes \<Rightarrow> u16" where
  "read_length header = from_le_bytes16 (read_field LENGTH_LEN header LENGTH_OFFSET)"

definition read_stream_id :: "bytes \<Rightarrow> u16" where
  "read_stream_id header = from_le_bytes16 (read_field STREAM_ID_LEN header STREAM_ID_OFFSET)"

definition read_sequence_number :: "bytes \<Rightarrow> u64" where
  "read_sequence_number header =
     from_le_bytes64 (read_field SEQUENCE_NUMBER_LEN header SEQUENCE_NUMBER_OFFSET)"

definition read_crc :: "bytes \<Rightarrow> u32" where
  "read_crc frame = from_le_bytes32 (drop (length frame - CRC_LEN) frame)"

definition header_unchecked :: "bytes \<Rightarrow> bytes" where
  "header_unchecked frame = take HEADER_LEN frame"

text \<open>\<open>None\<close> is the panic on a frame shorter than the trailer.\<close>

definition compute_crc :: "crc_fun \<Rightarrow> bytes \<Rightarrow> u32 option" where
  "compute_crc crc32c frame =
     (if length frame < CRC_LEN then None
      else Some (crc32c (take (length frame - CRC_LEN) frame)))"

subsection \<open>Writes into uninitialised storage\<close>

text \<open>
  The spare capacity of a buffer: \<open>cells i\<close> is \<open>None\<close> while the byte at offset \<open>i\<close> is
  uninitialised. A read of an uninitialised byte and an access outside the capacity are
  undefined behaviour, \<open>None\<close> here.
\<close>

record region =
  cells :: "nat \<Rightarrow> u8 option"
  capacity :: nat

definition mem_write :: "nat \<Rightarrow> bytes \<Rightarrow> region \<Rightarrow> region option" where
  "mem_write off bs r =
     (if off + length bs \<le> capacity r
      then Some (r\<lparr>cells := \<lambda>i. if off \<le> i \<and> i < off + length bs then Some (bs ! (i - off))
                                else cells r i\<rparr>)
      else None)"

definition mem_read :: "nat \<Rightarrow> nat \<Rightarrow> region \<Rightarrow> bytes option" where
  "mem_read off n r =
     (if off + n \<le> capacity r then those (map (cells r) [off..<off + n]) else None)"

definition write_header :: "region \<Rightarrow> u16 \<Rightarrow> RecordId \<Rightarrow> region option" where
  "write_header header len rid = do {
     r \<leftarrow> mem_write LENGTH_OFFSET (to_le_bytes16 len) header;
     r \<leftarrow> mem_write STREAM_ID_OFFSET (to_le_bytes16 (StreamId_get (stream_id rid))) r;
     mem_write SEQUENCE_NUMBER_OFFSET
       (to_le_bytes64 (SequenceNumber_get (sequence_number rid))) r
   }"

definition write_crc :: "crc_fun \<Rightarrow> region \<Rightarrow> nat \<Rightarrow> region option" where
  "write_crc crc32c r record_len =
     (if record_len < CRC_LEN then None
      else do {
        let content_len = record_len - CRC_LEN;
        content \<leftarrow> mem_read 0 content_len r;
        mem_write content_len (to_le_bytes32 (crc32c content)) r
      })"

text \<open>
  \<open>initialised r bs\<close>: the region begins with the initialised bytes \<open>bs\<close>.
\<close>

definition initialised :: "region \<Rightarrow> bytes \<Rightarrow> bool" where
  "initialised r bs \<longleftrightarrow>
     length bs \<le> capacity r \<and> (\<forall>i < length bs. cells r i = Some (bs ! i))"

lemma mem_write_eq_Some:
  "mem_write off bs r = Some r' \<longleftrightarrow>
     off + length bs \<le> capacity r \<and>
     r' = r\<lparr>cells := \<lambda>i. if off \<le> i \<and> i < off + length bs then Some (bs ! (i - off))
                          else cells r i\<rparr>"
  by (auto simp: mem_write_def)

lemma mem_write_capacity: "mem_write off bs r = Some r' \<Longrightarrow> capacity r' = capacity r"
  by (auto simp: mem_write_eq_Some)

lemma mem_read_initialised:
  assumes "initialised r bs" and "off + n \<le> length bs"
  shows "mem_read off n r = Some (take n (drop off bs))"
proof -
  have "\<forall>i\<in>set [off..<off + n]. cells r i = Some (bs ! i)"
    using assms by (auto simp: initialised_def)
  then have "those (map (cells r) [off..<off + n]) = Some (map (\<lambda>i. bs ! i) [off..<off + n])"
    by (rule those_eq_SomeI)
  moreover have "map (\<lambda>i. bs ! i) [off..<off + n] = take n (drop off bs)"
    using assms(2) by (simp add: list_eq_iff_nth_eq)
  ultimately show ?thesis using assms by (simp add: mem_read_def initialised_def)
qed

lemma initialised_append:
  assumes "initialised r xs" and "length xs + length ys \<le> capacity r"
  shows "\<exists>r'. mem_write (length xs) ys r = Some r' \<and> initialised r' (xs @ ys) \<and>
           capacity r' = capacity r"
  using assms by (auto simp: initialised_def mem_write_def nth_append)

subsection \<open>Record lengths\<close>

definition RecordLength_MIN :: RecordLength where
  "RecordLength_MIN = RecordLength (of_nat MIN_RECORD_LEN)"

definition RecordLength_MAX :: RecordLength where
  "RecordLength_MAX = RecordLength (of_nat MAX_RECORD_LEN)"

definition RecordLength_new :: "u64 \<Rightarrow> (RecordLength, RecordLengthError) outcome" where
  "RecordLength_new value =
     (if value < RecordLength_get RecordLength_MIN \<or> value > RecordLength_get RecordLength_MAX
      then Err (RecordLengthError value) else Ok (RecordLength value))"

definition valid_length :: "RecordLength \<Rightarrow> bool" where
  "valid_length l \<longleftrightarrow> MIN_RECORD_LEN \<le> unat (RecordLength_get l) \<and>
     unat (RecordLength_get l) \<le> MAX_RECORD_LEN"

lemma RecordLength_bounds [layout]:
  "RecordLength_MIN = RecordLength 16" "RecordLength_MAX = RecordLength 65535"
  by (simp_all add: RecordLength_MIN_def RecordLength_MAX_def layout)

lemma RecordLength_new_eq_Ok:
  "RecordLength_new v = Ok l \<longleftrightarrow> l = RecordLength v \<and> 16 \<le> unat v \<and> unat v \<le> 65535"
  by (auto simp: RecordLength_new_def layout word_less_nat_alt)

subsection \<open>Records\<close>

datatype Record = Record (record_bytes: bytes)

record RecordHeader =
  header_length :: RecordLength
  header_id :: RecordId

definition from_validated_bytes :: "bytes \<Rightarrow> Record" where
  "from_validated_bytes bs = Record bs"

definition Record_length :: "Record \<Rightarrow> RecordLength" where
  "Record_length self = RecordLength_new_unchecked (of_nat (length (record_bytes self)))"

definition Record_stream_id :: "Record \<Rightarrow> StreamId" where
  "Record_stream_id self = StreamId (read_stream_id (header_unchecked (record_bytes self)))"

definition Record_sequence_number :: "Record \<Rightarrow> SequenceNumber" where
  "Record_sequence_number self =
     SequenceNumber_new (read_sequence_number (header_unchecked (record_bytes self)))"

definition Record_id :: "Record \<Rightarrow> RecordId" where
  "Record_id self = RecordId_new (Record_stream_id self) (Record_sequence_number self)"

definition get_header :: "Record \<Rightarrow> RecordHeader" where
  "get_header self = \<lparr>header_length = Record_length self, header_id = Record_id self\<rparr>"

definition Record_crc :: "Record \<Rightarrow> u32" where
  "Record_crc self = read_crc (record_bytes self)"

definition Record_body :: "Record \<Rightarrow> bytes" where
  "Record_body self =
     take (length (record_bytes self) - CRC_LEN - HEADER_LEN) (drop HEADER_LEN (record_bytes self))"

subsection \<open>The invariant of a record's bytes, and the layout as a specification\<close>

definition valid_frame :: "crc_fun \<Rightarrow> bytes \<Rightarrow> bool" where
  "valid_frame crc32c bs \<longleftrightarrow>
     MIN_RECORD_LEN \<le> length bs \<and> length bs \<le> MAX_RECORD_LEN \<and>
     unat (read_length (header_unchecked bs)) = length bs \<and>
     valid_stream (StreamId (read_stream_id (header_unchecked bs))) \<and>
     compute_crc crc32c bs = Some (read_crc bs)"

definition encode_header :: "nat \<Rightarrow> RecordId \<Rightarrow> bytes" where
  "encode_header len rid =
     to_le_bytes16 (of_nat len) @ to_le_bytes16 (StreamId_get (stream_id rid)) @
     to_le_bytes64 (SequenceNumber_get (sequence_number rid))"

definition encode_content :: "RecordId \<Rightarrow> bytes \<Rightarrow> bytes" where
  "encode_content rid payload = encode_header (MIN_RECORD_LEN + length payload) rid @ payload"

definition encode_record :: "crc_fun \<Rightarrow> RecordId \<Rightarrow> bytes \<Rightarrow> bytes" where
  "encode_record crc32c rid payload =
     encode_content rid payload @ to_le_bytes32 (crc32c (encode_content rid payload))"

lemma length_encode_header [simp]: "length (encode_header n rid) = 12"
  by (simp add: encode_header_def)

lemma length_encode_content [simp]: "length (encode_content rid payload) = 12 + length payload"
  by (simp add: encode_content_def)

lemma length_encode_record [simp]: "length (encode_record c rid payload) = 16 + length payload"
  by (simp add: encode_record_def)

lemma read_fields_encode_header:
  "read_length (encode_header n rid) = of_nat n"
  "read_stream_id (encode_header n rid) = StreamId_get (stream_id rid)"
  "read_sequence_number (encode_header n rid) = SequenceNumber_get (sequence_number rid)"
  by (simp_all add: read_length_def read_stream_id_def read_sequence_number_def read_field_def
      encode_header_def layout)

lemma header_unchecked_encode:
  "header_unchecked (encode_record c rid payload) = encode_header (16 + length payload) rid"
  by (simp add: header_unchecked_def encode_record_def encode_content_def layout)

lemma compute_crc_encode:
  "compute_crc c (encode_record c rid payload) = Some (c (encode_content rid payload))"
  by (simp add: compute_crc_def encode_record_def layout)

lemma read_crc_encode: "read_crc (encode_record c rid payload) = c (encode_content rid payload)"
  by (simp add: read_crc_def encode_record_def layout)

lemma body_encode: "Record_body (Record (encode_record c rid payload)) = payload"
  by (simp add: Record_body_def encode_record_def encode_content_def layout)

lemma id_encode: "Record_id (Record (encode_record c rid payload)) = rid"
  by (cases rid; cases "stream_id rid")
     (auto simp: Record_id_def Record_stream_id_def Record_sequence_number_def
       header_unchecked_encode read_fields_encode_header intro: RecordId_eqI)

lemma unat_of_nat_small:
  "n < 2 ^ LENGTH('a) \<Longrightarrow> unat (of_nat n :: 'a::len word) = n"
  by (simp add: unat_of_nat)

lemma valid_frame_encode:
  assumes "length payload \<le> MAX_PAYLOAD_LEN" and "valid_stream (stream_id rid)"
  shows "valid_frame c (encode_record c rid payload)"
proof -
  have "unat (of_nat (16 + length payload) :: u16) = 16 + length payload"
    using assms(1) by (intro unat_of_nat_small) (simp add: layout)
  then show ?thesis using assms
    by (cases "stream_id rid")
       (simp add: valid_frame_def header_unchecked_encode read_fields_encode_header
         compute_crc_encode read_crc_encode layout)
qed

text \<open>Every valid frame is the encoding of its own id and body.\<close>

lemma encode_header_of_fields:
  assumes len: "length h = 12" and n: "read_length h = of_nat n"
    and s: "read_stream_id h = StreamId_get (stream_id rid)"
    and q: "read_sequence_number h = SequenceNumber_get (sequence_number rid)"
  shows "encode_header n rid = h"
proof -
  have a: "to_le_bytes16 (of_nat n) = take 2 h"
    using n len le16.enc_dec [of "take 2 h"]
    by (simp add: read_length_def read_field_def layout)
  have b: "to_le_bytes16 (StreamId_get (stream_id rid)) = take 2 (drop 2 h)"
    using s len le16.enc_dec [of "take 2 (drop 2 h)"]
    by (simp add: read_stream_id_def read_field_def layout)
  have c: "to_le_bytes64 (SequenceNumber_get (sequence_number rid)) = drop 4 h"
    using q len le64.enc_dec [of "drop 4 h"]
    by (simp add: read_sequence_number_def read_field_def layout)
  have "take 2 h @ take 2 (drop 2 h) @ drop 4 h = h"
    by (metis append_assoc append_take_drop_id drop_drop numeral_Bit0)
  then show ?thesis by (simp add: encode_header_def a b c)
qed

lemma valid_frame_is_encode:
  assumes v: "valid_frame c bs"
  shows "bs = encode_record c (Record_id (Record bs)) (Record_body (Record bs))"
proof -
  let ?rid = "Record_id (Record bs)" and ?body = "Record_body (Record bs)"
  have len: "16 \<le> length bs" using v by (simp add: valid_frame_def layout)
  then have body: "length ?body = length bs - 16" by (simp add: Record_body_def layout)
  have "unat (read_length (header_unchecked bs)) = length bs"
    using v by (simp add: valid_frame_def)
  then have "read_length (header_unchecked bs) = of_nat (length bs)"
    by (metis of_nat_unat ucast_id)
  then have hdr: "encode_header (length bs) ?rid = take 12 bs"
    using len by (intro encode_header_of_fields)
      (simp_all add: Record_id_def Record_stream_id_def Record_sequence_number_def
        header_unchecked_def layout)
  have content: "encode_content ?rid ?body = take (length bs - 4) bs"
  proof -
    have "encode_content ?rid ?body = take 12 bs @ take (length bs - 16) (drop 12 bs)"
      using len body hdr by (simp add: encode_content_def layout Record_body_def)
    also have "\<dots> = take (12 + (length bs - 16)) bs" by (rule take_add [symmetric])
    also have "12 + (length bs - 16) = length bs - 4" using len by simp
    finally show ?thesis .
  qed
  have "c (take (length bs - 4) bs) = read_crc bs"
    using v len by (simp add: valid_frame_def compute_crc_def layout)
  then have "to_le_bytes32 (c (take (length bs - 4) bs)) = drop (length bs - 4) bs"
    using len le32.enc_dec [of "drop (length bs - 4) bs"] by (simp add: read_crc_def layout)
  then show ?thesis by (simp add: encode_record_def content)
qed

lemma valid_frame_length_bounds:
  "valid_frame c bs \<Longrightarrow> 16 \<le> length bs \<and> length bs \<le> 65535"
  by (simp add: valid_frame_def layout)

lemma valid_frame_length:
  assumes "valid_frame c bs"
  shows "unat (RecordLength_get (Record_length (Record bs))) = length bs"
proof -
  have "length bs < 2 ^ LENGTH(64)" using valid_frame_length_bounds [OF assms] by simp
  then show ?thesis
    unfolding Record_length_def RecordLength_new_unchecked_def by (simp add: unat_of_nat)
qed

lemma valid_frame_valid_length: "valid_frame c bs \<Longrightarrow> valid_length (Record_length (Record bs))"
  using valid_frame_length_bounds [of c bs] by (simp add: valid_length_def valid_frame_length layout)

lemma valid_frame_valid_stream: "valid_frame c bs \<Longrightarrow> valid_stream (stream_id (Record_id (Record bs)))"
  by (simp add: valid_frame_def Record_id_def Record_stream_id_def)

subsection \<open>Properties\<close>

text \<open>
  C28. The bytes that \<open>Record\<close>'s invariant admits are exactly the encodings: a byte string is valid
  iff it is the layout's encoding of some id of a valid stream and some payload that fits, and
  then the field accessors read back that id, that payload, and the string's own length.
\<close>

theorem valid_frame_iff_encoding:
  "valid_frame c bs \<longleftrightarrow>
     (\<exists>rid payload. length payload \<le> MAX_PAYLOAD_LEN \<and> valid_stream (stream_id rid) \<and>
        bs = encode_record c rid payload \<and>
        Record_id (from_validated_bytes bs) = rid \<and> Record_body (from_validated_bytes bs) = payload \<and>
        unat (RecordLength_get (header_length (get_header (from_validated_bytes bs)))) = length bs)"
proof
  assume v: "valid_frame c bs"
  have "length (Record_body (Record bs)) \<le> MAX_PAYLOAD_LEN"
    using valid_frame_length_bounds [OF v] by (auto simp: Record_body_def layout)
  then show "\<exists>rid payload. length payload \<le> MAX_PAYLOAD_LEN \<and> valid_stream (stream_id rid) \<and>
        bs = encode_record c rid payload \<and>
        Record_id (from_validated_bytes bs) = rid \<and> Record_body (from_validated_bytes bs) = payload \<and>
        unat (RecordLength_get (header_length (get_header (from_validated_bytes bs)))) = length bs"
    using valid_frame_is_encode [OF v] valid_frame_valid_stream [OF v] valid_frame_length [OF v]
    by (intro exI [of _ "Record_id (Record bs)"] exI [of _ "Record_body (Record bs)"])
       (simp add: from_validated_bytes_def get_header_def)
next
  assume "\<exists>rid payload. length payload \<le> MAX_PAYLOAD_LEN \<and> valid_stream (stream_id rid) \<and>
        bs = encode_record c rid payload \<and>
        Record_id (from_validated_bytes bs) = rid \<and> Record_body (from_validated_bytes bs) = payload \<and>
        unat (RecordLength_get (header_length (get_header (from_validated_bytes bs)))) = length bs"
  then obtain rid payload where "length payload \<le> MAX_PAYLOAD_LEN" "valid_stream (stream_id rid)"
      "bs = encode_record c rid payload" by blast
  then show "valid_frame c bs" using valid_frame_encode by simp
qed

end
