(* ===== verification/Builder.thy ===== *)
theory Builder
  imports Protocol
begin

text \<open>
  \<^verbatim>\<open>record_builder.rs\<close>: the temporary destination that one serialization callback writes a
  record's body into. The builder fills uninitialised spare capacity behind the published
  bytes of the buffer and publishes the record only when it is complete. \<open>builds\<close> is its
  representation invariant; \<open>run_body\<close> runs a callback, and \<open>body_spec\<close> is what the callback's
  writes mean, without any memory.
\<close>

subsection \<open>The builder\<close>

datatype RecordBuildError = PayloadTooLarge

record RecordBuilder =
  bld_buffer :: bytes
  bld_start :: nat
  bld_region :: region
  bld_payload_len :: nat
  bld_error :: "RecordBuildError option"
  bld_finished :: bool

text \<open>
  \<^verbatim>\<open>reserve(MAX_RECORD_LEN)\<close> promises that many further bytes, uninitialised; the model gives
  the builder exactly this.
\<close>

definition fresh_region :: region where
  "fresh_region = \<lparr>cells = (\<lambda>_. None), capacity = MAX_RECORD_LEN\<rparr>"

definition RecordBuilder_new :: "bytes \<Rightarrow> RecordBuilder" where
  "RecordBuilder_new buffer =
     \<lparr>bld_buffer = buffer, bld_start = length buffer, bld_region = fresh_region,
      bld_payload_len = 0, bld_error = None, bld_finished = False\<rparr>"

definition check_error :: "RecordBuilder \<Rightarrow> (unit, RecordBuildError) outcome" where
  "check_error self = (case bld_error self of Some error \<Rightarrow> Err error | None \<Rightarrow> Ok ())"

text \<open>The buffer that is left when the builder is dropped.\<close>

definition builder_drop :: "RecordBuilder \<Rightarrow> bytes" where
  "builder_drop self =
     (if \<not> bld_finished self then take (bld_start self) (bld_buffer self) else bld_buffer self)"

definition builder_write ::
    "bytes \<Rightarrow> RecordBuilder \<Rightarrow> (nat, RecordBuildError) outcome \<times> RecordBuilder" where
  "builder_write bs self =
     (case check_error self of
        Err error \<Rightarrow> (Err error, self)
      | Stop s \<Rightarrow> (Stop s, self)
      | Ok _ \<Rightarrow>
          if length bs > MAX_PAYLOAD_LEN - bld_payload_len self
          then (Err PayloadTooLarge, self\<lparr>bld_error := Some PayloadTooLarge\<rparr>)
          else
            (case mem_write (HEADER_LEN + bld_payload_len self) bs (bld_region self) of
               None \<Rightarrow> (Stop Undefined, self)
             | Some r \<Rightarrow>
                 (Ok (length bs),
                  self\<lparr>bld_region := r, bld_payload_len := bld_payload_len self + length bs\<rparr>)))"

definition builder_write_all ::
    "bytes \<Rightarrow> RecordBuilder \<Rightarrow> (unit, RecordBuildError) outcome \<times> RecordBuilder" where
  "builder_write_all bs self =
     (case builder_write bs self of
        (Ok _, b) \<Rightarrow> (Ok (), b) | (Err x, b) \<Rightarrow> (Err x, b) | (Stop s, b) \<Rightarrow> (Stop s, b))"

definition builder_flush :: "RecordBuilder \<Rightarrow> (unit, RecordBuildError) outcome \<times> RecordBuilder" where
  "builder_flush self = (check_error self, self)"

text \<open>
  \<open>finish\<close> consumes the builder, so its result carries the buffer that the drop leaves.
  \<^verbatim>\<open>set_len\<close> is sound only if every byte it exposes is initialised: the read of the whole
  record is \<open>None\<close> otherwise.
\<close>

definition builder_finish ::
    "crc_fun \<Rightarrow> RecordId \<Rightarrow> RecordBuilder \<Rightarrow> (unit, RecordBuildError) outcome \<times> bytes" where
  "builder_finish crc32c rid self =
     (case check_error self of
        Err error \<Rightarrow> (Err error, builder_drop self)
      | Stop s \<Rightarrow> (Stop s, builder_drop self)
      | Ok _ \<Rightarrow>
          (let len = bld_payload_len self + MIN_RECORD_LEN in
           case do {
             r \<leftarrow> write_header (bld_region self) (of_nat len) rid;
             r \<leftarrow> write_crc crc32c r len;
             bs \<leftarrow> mem_read 0 len r;
             Some (r, bs)
           } of
             None \<Rightarrow> (Stop Undefined, builder_drop self)
           | Some (r, bs) \<Rightarrow>
               (Ok (), builder_drop
                  (self\<lparr>bld_region := r, bld_buffer := take (bld_start self) (bld_buffer self) @ bs,
                        bld_finished := True\<rparr>))))"

subsection \<open>The representation invariant\<close>

definition builds :: "RecordBuilder \<Rightarrow> bytes \<Rightarrow> bool" where
  "builds b payload \<longleftrightarrow>
     bld_start b = length (bld_buffer b) \<and> \<not> bld_finished b \<and>
     capacity (bld_region b) = MAX_RECORD_LEN \<and>
     bld_payload_len b = length payload \<and> length payload \<le> MAX_PAYLOAD_LEN \<and>
     (\<forall>i < length payload. cells (bld_region b) (HEADER_LEN + i) = Some (payload ! i))"

lemma builds_new: "builds (RecordBuilder_new buf) []"
  by (simp add: builds_def RecordBuilder_new_def fresh_region_def)

lemma builds_error [simp]: "builds (b\<lparr>bld_error := x\<rparr>) p = builds b p"
  by (simp add: builds_def)

lemma builds_drop: "builds b p \<Longrightarrow> builder_drop b = bld_buffer b"
  by (simp add: builds_def builder_drop_def)

lemma builder_write_error:
  "bld_error b = Some x \<Longrightarrow> builder_write bs b = (Err x, b)"
  by (simp add: builder_write_def check_error_def)

lemma builder_write_too_large:
  "builds b p \<Longrightarrow> bld_error b = None \<Longrightarrow> MAX_PAYLOAD_LEN < length p + length bs \<Longrightarrow>
   builder_write bs b = (Err PayloadTooLarge, b\<lparr>bld_error := Some PayloadTooLarge\<rparr>)"
  by (auto simp: builder_write_def check_error_def builds_def)

lemma builder_write_accepts:
  assumes b: "builds b p" and ok: "bld_error b = None" and fits: "length p + length bs \<le> MAX_PAYLOAD_LEN"
  shows "\<exists>b'. builder_write bs b = (Ok (length bs), b') \<and> builds b' (p @ bs) \<and>
           bld_error b' = None \<and> bld_buffer b' = bld_buffer b"
proof -
  have small: "\<not> length bs > MAX_PAYLOAD_LEN - bld_payload_len b"
    using b fits by (simp add: builds_def)
  have room: "HEADER_LEN + bld_payload_len b + length bs \<le> capacity (bld_region b)"
    using b fits by (simp add: builds_def layout)
  show ?thesis
    using b ok small room fits
    by (auto simp: builder_write_def check_error_def mem_write_def builds_def nth_append layout)
qed

lemma mem_write_header:
  assumes "capacity r = MAX_RECORD_LEN"
  shows "\<exists>r'. write_header r len rid = Some r' \<and> capacity r' = MAX_RECORD_LEN \<and>
    (\<forall>i < 12. cells r' i = Some ((to_le_bytes16 len @ to_le_bytes16 (StreamId_get (stream_id rid)) @
       to_le_bytes64 (SequenceNumber_get (sequence_number rid))) ! i)) \<and>
    (\<forall>i \<ge> 12. cells r' i = cells r i)"
  using assms by (auto simp: write_header_def mem_write_def layout nth_append)

lemma builder_finish_publishes:
  assumes b: "builds b p" and ok: "bld_error b = None"
  shows "builder_finish c rid b = (Ok (), bld_buffer b @ encode_record c rid p)"
proof -
  let ?len = "length p + 16"
  let ?content = "encode_content rid p"
  have cap: "capacity (bld_region b) = MAX_RECORD_LEN" using b by (simp add: builds_def)
  obtain r1 where r1: "write_header (bld_region b) (of_nat ?len) rid = Some r1"
    and cap1: "capacity r1 = MAX_RECORD_LEN"
    and hdr: "\<forall>i < 12. cells r1 i = Some (encode_header ?len rid ! i)"
    and rest: "\<forall>i \<ge> 12. cells r1 i = cells (bld_region b) i"
    using mem_write_header [OF cap, of "of_nat ?len" rid] by (auto simp: encode_header_def)
  have "length ?content + 4 \<le> MAX_RECORD_LEN" using b by (simp add: builds_def layout)
  moreover have "cells r1 i = Some (?content ! i)" if "i < length ?content" for i
  proof (cases "i < 12")
    case True
    then show ?thesis using hdr by (simp add: encode_content_def nth_append layout add.commute)
  next
    case False
    then have "cells r1 i = cells (bld_region b) (HEADER_LEN + (i - 12))"
      using rest by (simp add: layout)
    also have "\<dots> = Some (p ! (i - 12))"
    proof -
      have "i - 12 < length p" using that False by simp
      with b show ?thesis unfolding builds_def by blast
    qed
    finally show ?thesis using False by (simp add: encode_content_def nth_append)
  qed
  ultimately have content: "initialised r1 ?content" using cap1 by (simp add: initialised_def)
  have room: "length ?content + length (to_le_bytes32 (c ?content)) \<le> capacity r1"
    using b cap1 by (simp add: builds_def layout)
  obtain r2 where r2: "mem_write (length ?content) (to_le_bytes32 (c ?content)) r1 = Some r2"
    and all: "initialised r2 (encode_record c rid p)"
    using initialised_append [OF content room] by (auto simp: encode_record_def)
  have "write_crc c r1 ?len = Some r2"
    using r2 mem_read_initialised [OF content, of 0 "length ?content"]
    by (simp add: write_crc_def layout)
  moreover have "mem_read 0 ?len r2 = Some (encode_record c rid p)"
    using mem_read_initialised [OF all, of 0 ?len] by simp
  ultimately show ?thesis
    using b ok r1 by (simp add: builder_finish_def check_error_def builder_drop_def builds_def layout)
qed

subsection \<open>The serialization callback\<close>

text \<open>
  A callback holds the builder only through \<^verbatim>\<open>io::Write\<close>. It is a tree of its calls: what it
  does next may depend on whether the last call succeeded. It ends by returning \<open>Ok\<close> (\<open>None\<close>) or
  an error of its own, or it unwinds.
\<close>

datatype 'e body =
    BodyReturn "'e option"
  | BodyPanic
  | BodyWrite bytes "bool \<Rightarrow> 'e body"
  | BodyWriteAll bytes "bool \<Rightarrow> 'e body"
  | BodyFlush "bool \<Rightarrow> 'e body"

primrec run_body :: "'e body \<Rightarrow> RecordBuilder \<Rightarrow> (unit, 'e) outcome \<times> RecordBuilder" where
  "run_body (BodyReturn r) b = ((case r of None \<Rightarrow> Ok () | Some e \<Rightarrow> Err e), b)"
| "run_body BodyPanic b = (Stop Panic, b)"
| "run_body (BodyWrite bs k) b =
     (case builder_write bs b of
        (Stop s, b') \<Rightarrow> (Stop s, b') | (r, b') \<Rightarrow> run_body (k (is_ok r)) b')"
| "run_body (BodyWriteAll bs k) b =
     (case builder_write_all bs b of
        (Stop s, b') \<Rightarrow> (Stop s, b') | (r, b') \<Rightarrow> run_body (k (is_ok r)) b')"
| "run_body (BodyFlush k) b =
     (case builder_flush b of
        (Stop s, b') \<Rightarrow> (Stop s, b') | (r, b') \<Rightarrow> run_body (k (is_ok r)) b')"

text \<open>
  The meaning of a callback: the payload it has produced and whether one of its writes was
  rejected. After a rejected write nothing more is accepted.
\<close>

definition spec_write :: "bytes \<Rightarrow> bytes \<times> bool \<Rightarrow> bytes \<times> bool" where
  "spec_write bs st =
     (if snd st \<or> MAX_PAYLOAD_LEN < length (fst st) + length bs then (fst st, True)
      else (fst st @ bs, False))"

primrec body_spec :: "'e body \<Rightarrow> bytes \<times> bool \<Rightarrow> (unit, 'e) outcome \<times> (bytes \<times> bool)" where
  "body_spec (BodyReturn r) st = ((case r of None \<Rightarrow> Ok () | Some e \<Rightarrow> Err e), st)"
| "body_spec BodyPanic st = (Stop Panic, st)"
| "body_spec (BodyWrite bs k) st = body_spec (k (\<not> snd (spec_write bs st))) (spec_write bs st)"
| "body_spec (BodyWriteAll bs k) st = body_spec (k (\<not> snd (spec_write bs st))) (spec_write bs st)"
| "body_spec (BodyFlush k) st = body_spec (k (\<not> snd st)) st"

definition abs_builder :: "RecordBuilder \<Rightarrow> bytes \<times> bool \<Rightarrow> bool" where
  "abs_builder b st \<longleftrightarrow>
     builds b (fst st) \<and> bld_error b = (if snd st then Some PayloadTooLarge else None)"

lemma builder_write_refines:
  assumes "abs_builder b st"
  shows "\<exists>r b'. builder_write bs b = (r, b') \<and> (\<forall>s. r \<noteq> Stop s) \<and>
           is_ok r = (\<not> snd (spec_write bs st)) \<and> abs_builder b' (spec_write bs st) \<and>
           bld_buffer b' = bld_buffer b"
proof (cases "snd st")
  case True
  then show ?thesis using assms
    by (auto simp: abs_builder_def spec_write_def builder_write_error)
next
  case False
  show ?thesis
  proof (cases "MAX_PAYLOAD_LEN < length (fst st) + length bs")
    case True
    with False assms show ?thesis
      by (auto simp: abs_builder_def spec_write_def builder_write_too_large)
  next
    case fits: False
    have "builds b (fst st)" and "bld_error b = None"
      using assms False by (simp_all add: abs_builder_def)
    then obtain b' where "builder_write bs b = (Ok (length bs), b')" "builds b' (fst st @ bs)"
        "bld_error b' = None" "bld_buffer b' = bld_buffer b"
      using builder_write_accepts [of b "fst st" bs] fits by auto
    with False fits show ?thesis by (auto simp: abs_builder_def spec_write_def)
  qed
qed

lemma run_body_refines:
  assumes "abs_builder b st"
  shows "\<exists>b'. run_body k b = (fst (body_spec k st), b') \<and> abs_builder b' (snd (body_spec k st)) \<and>
           bld_buffer b' = bld_buffer b"
  using assms
proof (induction k arbitrary: b st)
  case (BodyReturn r)
  then show ?case by auto
next
  case BodyPanic
  then show ?case by auto
next
  case (BodyWrite bs k)
  obtain r b' where r: "builder_write bs b = (r, b')" "\<forall>s. r \<noteq> Stop s"
      "is_ok r = (\<not> snd (spec_write bs st))" "abs_builder b' (spec_write bs st)"
      "bld_buffer b' = bld_buffer b"
    using builder_write_refines [OF BodyWrite.prems] by blast
  then have "run_body (BodyWrite bs k) b = run_body (k (is_ok r)) b'" by (cases r) auto
  with r BodyWrite.IH [OF rangeI r(4), of "is_ok r"] show ?case by auto
next
  case (BodyWriteAll bs k)
  obtain r b' where r: "builder_write bs b = (r, b')" "\<forall>s. r \<noteq> Stop s"
      "is_ok r = (\<not> snd (spec_write bs st))" "abs_builder b' (spec_write bs st)"
      "bld_buffer b' = bld_buffer b"
    using builder_write_refines [OF BodyWriteAll.prems] by blast
  then have "run_body (BodyWriteAll bs k) b = run_body (k (is_ok r)) b'"
    by (cases r) (auto simp: builder_write_all_def)
  with r BodyWriteAll.IH [OF rangeI r(4), of "is_ok r"] show ?case by auto
next
  case (BodyFlush k)
  then have "run_body (BodyFlush k) b = run_body (k (\<not> snd st)) b"
    by (auto simp: builder_flush_def check_error_def abs_builder_def)
  with BodyFlush.IH [OF rangeI BodyFlush.prems, of "\<not> snd st"] show ?case by simp
qed

lemma abs_builder_new: "abs_builder (RecordBuilder_new buf) ([], False)"
  by (simp add: abs_builder_def builds_new) (simp add: RecordBuilder_new_def)

end
