(* ===== verification/Runs.thy ===== *)
theory Runs
  imports Main
begin

text \<open>
  Sequences of operations on a component, as its owner performs them one after the other. The three
  locales are what the proofs about such sequences rely on; the writers, the reader and the pool
  interpret them on their own steps.
\<close>

text \<open>Every admissible step keeps the invariant, so every admissible run does.\<close>

locale run_invariant =
  fixes step :: "'op \<Rightarrow> 's \<Rightarrow> 's" and admissible :: "'op \<Rightarrow> bool" and inv :: "'s \<Rightarrow> bool"
  assumes step_inv: "admissible op \<Longrightarrow> inv s \<Longrightarrow> inv (step op s)"
begin

lemma run_inv: "list_all admissible ops \<Longrightarrow> inv s \<Longrightarrow> inv (fold step ops s)"
  by (induction ops arbitrary: s) (simp_all add: step_inv)

end

text \<open>A component that no operation changes any more, such as a writer after a failure.\<close>

locale run_terminal =
  fixes step :: "'op \<Rightarrow> 's \<Rightarrow> 's" and terminal :: "'s \<Rightarrow> bool"
  assumes step_terminal: "terminal s \<Longrightarrow> step op s = s"
begin

lemma run_terminal: "terminal s \<Longrightarrow> fold step ops s = s"
  by (induction ops) (simp_all add: step_terminal)

lemma terminal_persists: "terminal s \<Longrightarrow> terminal (fold step ops s)"
  by (simp add: run_terminal)

end

text \<open>Operations that reply: the replies of a run, in order, and its final state.\<close>

primrec reply_run :: "('op \<Rightarrow> 's \<Rightarrow> 'r \<times> 's) \<Rightarrow> 'op list \<Rightarrow> 's \<Rightarrow> 'r list \<times> 's" where
  "reply_run step [] s = ([], s)"
| "reply_run step (op # ops) s =
     (case step op s of (reply, s) \<Rightarrow> (case reply_run step ops s of (replies, s) \<Rightarrow> (reply # replies, s)))"

text \<open>A specification and an implementation of it, whose state is a function of the specification's.\<close>

locale run_refinement =
  fixes spec_step :: "'op \<Rightarrow> 'a \<Rightarrow> 'r \<times> 'a" and step :: "'op \<Rightarrow> 's \<Rightarrow> 'r \<times> 's"
    and concrete :: "'a \<Rightarrow> 's" and ok :: "'a \<Rightarrow> bool" and expected :: "'r \<Rightarrow> bool"
  assumes step_refines: "ok s \<Longrightarrow> spec_step op s = (reply, s') \<Longrightarrow>
    step op (concrete s) = (reply, concrete s') \<and> ok s' \<and> expected reply"
begin

lemma run_refines:
  "ok s \<Longrightarrow> reply_run spec_step ops s = (replies, s') \<Longrightarrow>
     reply_run step ops (concrete s) = (replies, concrete s') \<and> ok s' \<and> list_all expected replies"
proof (induction ops arbitrary: s replies)
  case (Cons op ops)
  obtain reply s1 where first: "spec_step op s = (reply, s1)" by (rule prod.exhaust)
  obtain replies1 where rest: "reply_run spec_step ops s1 = (replies1, s')" "replies = reply # replies1"
    using Cons.prems(2) first by (auto split: prod.splits)
  show ?case using step_refines [OF Cons.prems(1) first] Cons.IH [OF _ rest(1)] rest(2) by auto
qed simp

end

end
