(* ===== verification/Environment.thy ===== *)
theory Environment
  imports Prelude Runs
begin

text \<open>
  The boundary to code outside the repository: sockets, Tokio files and the file system. Their
  code is not modelled. An environment holds the answers that this code gives, one per call the
  program makes and in that order, and the trace of the calls made so far with their answers.
  The answers are a parameter of every definition that performs I/O, so a theorem about them
  holds for every way the outside can behave; where a property needs documented behaviour of a
  file, it is a hypothesis on the trace. When no answer is left the awaited call never returns:
  the future is dropped while it is pending. Every run of the program that makes finitely many
  calls is a run of this model.
\<close>

subsection \<open>Calls and answers\<close>

text \<open>
  An I/O error is represented by its kind; the kinds the program never inspects are
  \<open>OtherError\<close> with the operating system's code.
\<close>

datatype io_error =
    Interrupted | NotFound | AlreadyExists | WriteZero | UnexpectedEof | InvalidInput
  | OtherError nat

text \<open>
  The calls, on a handle \<open>'h\<close> (a socket, a file) or on a path. \<open>ReadBuf h n\<close> is
  \<^verbatim>\<open>read_buf\<close> into spare capacity of at least \<open>n\<close> bytes; \<open>Read h n\<close> is \<^verbatim>\<open>read\<close> into a slice of
  \<open>n\<close> bytes. \<open>ReadExact\<close>, \<open>ReadToEnd\<close> and \<open>WriteAll\<close> are Tokio's own loops.
\<close>

datatype 'h call =
    Write 'h bytes
  | WriteAll 'h bytes
  | Flush 'h
  | SyncData 'h
  | SyncAll 'h
  | Read 'h nat
  | ReadBuf 'h nat
  | ReadExact 'h nat
  | ReadToEnd 'h u64
  | FileLength 'h
  | SetLen 'h u64
  | Seek 'h u64
  | OpenRead path
  | OpenExisting path
  | OpenOrCreate path
  | OpenNew path
  | OpenTruncate path
  | CreateDirAll path
  | RemoveFile path
  | Rename path path
  | ReadDir path
  | NextEntry path
  | FileType path

datatype file_kind = IsDir | IsFile | IsOther

text \<open>
  A directory entry's name is \<open>None\<close> when it is not valid UTF-8.
\<close>

datatype 'h reply =
    Unit
  | Count nat
  | Bytes bytes
  | Size u64
  | Opened 'h
  | Entry "string option option"
  | Kind file_kind

datatype 'h answer = Ready "'h reply" | Failed io_error | Dropped

record 'h env =
  script :: "'h answer list"
  trace :: "('h call \<times> 'h answer) list"

definition start_env :: "'h answer list \<Rightarrow> 'h env" where
  "start_env answers = \<lparr>script = answers, trace = []\<rparr>"

definition perform :: "'h call \<Rightarrow> 'h env \<Rightarrow> 'h answer \<times> 'h env" where
  "perform c e =
     (case script e of
        [] \<Rightarrow> (Dropped, e\<lparr>trace := trace e @ [(c, Dropped)]\<rparr>)
      | a # as \<Rightarrow> (a, e\<lparr>script := as, trace := trace e @ [(c, a)]\<rparr>))"

text \<open>
  A typed call: the caller goes on with a value of the right type or with an error. An answer
  of another type is no answer.
\<close>

definition typed_call ::
    "('h reply \<Rightarrow> 'a option) \<Rightarrow> 'h call \<Rightarrow> 'h env \<Rightarrow> ('a, io_error) outcome \<times> 'h env" where
  "typed_call f c e =
     (case perform c e of
        (Ready r, e') \<Rightarrow> (case f r of Some x \<Rightarrow> Ok x | None \<Rightarrow> Stop Cancelled, e')
      | (Failed x, e') \<Rightarrow> (Err x, e')
      | (Dropped, e') \<Rightarrow> (Stop Cancelled, e'))"

fun as_unit :: "'h reply \<Rightarrow> unit option" where
  "as_unit Unit = Some ()"
| "as_unit _ = None"

fun as_count :: "'h reply \<Rightarrow> nat option" where
  "as_count (Count n) = Some n"
| "as_count _ = None"

fun as_bytes :: "'h reply \<Rightarrow> bytes option" where
  "as_bytes (Bytes bs) = Some bs"
| "as_bytes _ = None"

fun as_size :: "'h reply \<Rightarrow> u64 option" where
  "as_size (Size n) = Some n"
| "as_size _ = None"

fun as_handle :: "'h reply \<Rightarrow> 'h option" where
  "as_handle (Opened h) = Some h"
| "as_handle _ = None"

fun as_entry :: "'h reply \<Rightarrow> string option option option" where
  "as_entry (Entry x) = Some x"
| "as_entry _ = None"

fun as_kind :: "'h reply \<Rightarrow> file_kind option" where
  "as_kind (Kind k) = Some k"
| "as_kind _ = None"

abbreviation unit_call :: "'h call \<Rightarrow> 'h env \<Rightarrow> (unit, io_error) outcome \<times> 'h env" where
  "unit_call \<equiv> typed_call as_unit"

abbreviation count_call :: "'h call \<Rightarrow> 'h env \<Rightarrow> (nat, io_error) outcome \<times> 'h env" where
  "count_call \<equiv> typed_call as_count"

abbreviation bytes_call :: "'h call \<Rightarrow> 'h env \<Rightarrow> (bytes, io_error) outcome \<times> 'h env" where
  "bytes_call \<equiv> typed_call as_bytes"

abbreviation size_call :: "'h call \<Rightarrow> 'h env \<Rightarrow> (u64, io_error) outcome \<times> 'h env" where
  "size_call \<equiv> typed_call as_size"

abbreviation open_call :: "'h call \<Rightarrow> 'h env \<Rightarrow> ('h, io_error) outcome \<times> 'h env" where
  "open_call \<equiv> typed_call as_handle"

subsection \<open>What a call does to the environment\<close>

lemma perform_script:
  "perform c e = (a, e') \<Longrightarrow> script e = a # script e' \<or> script e = [] \<and> a = Dropped \<and> script e' = []"
  by (auto simp: perform_def split: list.splits)

lemma perform_trace: "perform c e = (a, e') \<Longrightarrow> trace e' = trace e @ [(c, a)]"
  by (auto simp: perform_def split: list.splits)

lemma perform_Cons [simp]:
  "script e = a # as \<Longrightarrow> perform c e = (a, e\<lparr>script := as, trace := trace e @ [(c, a)]\<rparr>)"
  by (simp add: perform_def)

lemma perform_Nil [simp]:
  "script e = [] \<Longrightarrow> perform c e = (Dropped, e\<lparr>trace := trace e @ [(c, Dropped)]\<rparr>)"
  by (simp add: perform_def)

text \<open>
  Every loop of the program that performs I/O consumes an answer per iteration; this is its
  termination measure.
\<close>

lemma typed_call_shrinks:
  "typed_call f c e = (r, e') \<Longrightarrow> r = Ok x \<or> r = Err y \<Longrightarrow> length (script e') < length (script e)"
  by (auto simp: typed_call_def split: prod.splits answer.splits option.splits
           dest!: perform_script)

lemma typed_call_Ok:
  "typed_call f c e = (Ok x, e') \<Longrightarrow> \<exists>r. f r = Some x \<and> trace e' = trace e @ [(c, Ready r)]"
  by (auto simp: typed_call_def split: prod.splits answer.splits option.splits
           dest: perform_trace)

lemma typed_call_Err:
  "typed_call f c e = (Err x, e') \<Longrightarrow> trace e' = trace e @ [(c, Failed x)]"
  by (auto simp: typed_call_def split: prod.splits answer.splits option.splits
           dest: perform_trace)

lemma typed_call_Stop:
  "typed_call f c e = (Stop s, e') \<Longrightarrow>
     s = Cancelled \<and> (\<exists>a. trace e' = trace e @ [(c, a)] \<and> (\<forall>r. a = Ready r \<longrightarrow> f r = None) \<and>
       (\<forall>x. a \<noteq> Failed x))"
  by (auto simp: typed_call_def split: prod.splits answer.splits option.splits
           dest: perform_trace)

lemma typed_call_trace: "typed_call f c e = (r, e') \<Longrightarrow> \<exists>a. trace e' = trace e @ [(c, a)]"
  by (cases r) (auto dest: typed_call_Ok typed_call_Err typed_call_Stop)

lemma as_unit_eq_Some [simp]: "as_unit r = Some x \<longleftrightarrow> r = Unit"
  by (cases r) auto

lemma unit_call_trace:
  assumes "unit_call c e = (r, e')"
  shows "\<exists>a. trace e' = trace e @ [(c, a)] \<and> (is_ok r \<longrightarrow> a = Ready Unit)"
proof (cases r)
  case (Ok u)
  then show ?thesis using typed_call_Ok [of as_unit c e u e'] assms by auto
next
  case (Err x)
  then show ?thesis using typed_call_trace [OF assms] by auto
next
  case (Stop s)
  then show ?thesis using typed_call_trace [OF assms] by auto
qed

lemma as_count_eq_Some [simp]: "as_count r = Some n \<longleftrightarrow> r = Count n"
  by (cases r) auto

lemma as_bytes_eq_Some [simp]: "as_bytes r = Some bs \<longleftrightarrow> r = Bytes bs"
  by (cases r) auto

lemma as_size_eq_Some [simp]: "as_size r = Some n \<longleftrightarrow> r = Size n"
  by (cases r) auto

lemma as_handle_eq_Some [simp]: "as_handle r = Some h \<longleftrightarrow> r = Opened h"
  by (cases r) auto

lemma as_entry_eq_Some [simp]: "as_entry r = Some x \<longleftrightarrow> r = Entry x"
  by (cases r) auto

lemma as_kind_eq_Some [simp]: "as_kind r = Some k \<longleftrightarrow> r = Kind k"
  by (cases r) auto

lemma as_reply_simps [simp]:
  "as_unit Unit = Some ()" "as_count (Count n) = Some n" "as_bytes (Bytes bs) = Some bs"
  "as_size (Size s) = Some s" "as_handle (Opened h) = Some h" "as_entry (Entry x) = Some x"
  "as_kind (Kind k) = Some k"
  by simp_all

subsection \<open>The trace of one destination\<close>

text \<open>
  \<open>accepted h tr\<close> is what destination \<open>h\<close> has accepted in order: the prefix of each offered
  write that its answer counts.
\<close>

fun accepted_by :: "'h \<Rightarrow> 'h call \<times> 'h answer \<Rightarrow> bytes" where
  "accepted_by h (Write h' bs, Ready (Count n)) = (if h' = h then take n bs else [])"
| "accepted_by h (WriteAll h' bs, Ready Unit) = (if h' = h then bs else [])"
| "accepted_by h _ = []"

definition accepted :: "'h \<Rightarrow> ('h call \<times> 'h answer) list \<Rightarrow> bytes" where
  "accepted h tr = concat (map (accepted_by h) tr)"

lemma accepted_Nil [simp]: "accepted h [] = []"
  by (simp add: accepted_def)

lemma accepted_append [simp]: "accepted h (tr @ tr') = accepted h tr @ accepted h tr'"
  by (simp add: accepted_def)

lemma accepted_single [simp]: "accepted h [ev] = accepted_by h ev"
  by (simp add: accepted_def)

text \<open>\<open>on_handle h c\<close>: the call \<open>c\<close> is made on handle \<open>h\<close>.\<close>

fun on_handle :: "'h \<Rightarrow> 'h call \<Rightarrow> bool" where
  "on_handle h (Write h' _) = (h' = h)"
| "on_handle h (WriteAll h' _) = (h' = h)"
| "on_handle h (Flush h') = (h' = h)"
| "on_handle h (SyncData h') = (h' = h)"
| "on_handle h (SyncAll h') = (h' = h)"
| "on_handle h (Read h' _) = (h' = h)"
| "on_handle h (ReadBuf h' _) = (h' = h)"
| "on_handle h (ReadExact h' _) = (h' = h)"
| "on_handle h (ReadToEnd h' _) = (h' = h)"
| "on_handle h (FileLength h') = (h' = h)"
| "on_handle h (SetLen h' _) = (h' = h)"
| "on_handle h (Seek h' _) = (h' = h)"
| "on_handle h _ = False"

lemma accepted_by_other: "\<not> on_handle h (fst ev) \<Longrightarrow> accepted_by h ev = []"
  by (induction h ev rule: accepted_by.induct) auto

lemma on_handle_unique: "on_handle h c \<Longrightarrow> on_handle h' c \<Longrightarrow> h = h'"
  by (induction h c rule: on_handle.induct) auto

lemma accepted_other:
  "(\<forall>ev\<in>set tr. on_handle h' (fst ev)) \<Longrightarrow> h \<noteq> h' \<Longrightarrow> accepted h tr = []"
  by (induction tr) (auto simp: accepted_def dest: on_handle_unique intro!: accepted_by_other)

subsection \<open>What a completed flush or synchronization covers\<close>

text \<open>
  \<open>settled c h tr\<close>: what \<open>h\<close> had accepted when the call \<open>c\<close> (a flush or a synchronization of
  \<open>h\<close>) last succeeded.
\<close>

fun settle_step :: "'h call \<Rightarrow> 'h \<Rightarrow> 'h call \<times> 'h answer \<Rightarrow> bytes \<times> bytes \<Rightarrow> bytes \<times> bytes" where
  "settle_step c h ev (acc, done) =
     (acc @ accepted_by h ev, if ev = (c, Ready Unit) then acc else done)"

definition settled :: "'h call \<Rightarrow> 'h \<Rightarrow> ('h call \<times> 'h answer) list \<Rightarrow> bytes" where
  "settled c h tr = snd (fold (settle_step c h) tr ([], []))"

lemma settle_fold_fst: "fst (fold (settle_step c h) tr s) = fst s @ accepted h tr"
proof (induction tr arbitrary: s)
  case (Cons ev tr)
  have "accepted h (ev # tr) = accepted_by h ev @ accepted h tr" by (simp add: accepted_def)
  then show ?case using Cons by (cases s) simp
qed simp

lemma settled_Nil [simp]: "settled c h [] = []"
  by (simp add: settled_def)

lemma settled_snoc:
  "settled c h (tr @ [ev]) = (if ev = (c, Ready Unit) then accepted h tr else settled c h tr)"
proof -
  obtain a d where "fold (settle_step c h) tr ([], []) = (a, d)" by fastforce
  then show ?thesis using settle_fold_fst [of c h tr "([], [])"] by (simp add: settled_def)
qed

lemma settled_accepted: "prefix (settled c h tr) (accepted h tr)"
  by (induction tr rule: rev_induct) (auto simp: settled_snoc intro: prefix_order.trans)

lemma settled_mono: "prefix (settled c h tr) (settled c h (tr @ evs))"
proof (induction evs rule: rev_induct)
  case (snoc ev evs)
  have "prefix (settled c h (tr @ evs)) (accepted h (tr @ evs))" by (rule settled_accepted)
  then have "prefix (settled c h tr) (accepted h (tr @ evs))" by (rule prefix_order.trans [OF snoc])
  with snoc show ?case by (simp only: append_assoc [symmetric] settled_snoc) simp
qed simp

lemma settled_snoc_call [simp]: "settled c h (tr @ [(c, Ready Unit)]) = accepted h tr"
  by (simp add: settled_snoc)

end
