(* ===== verification/Output.thy ===== *)
theory Output
  imports Environment
begin

text \<open>
  Batched output to one destination, shared by \<^verbatim>\<open>RecordWriter\<close> and \<^verbatim>\<open>IndexWriter\<close>: the loop
  that sends a batch, and the locale \<open>output_writer\<close>, the interface both writers promise to
  their owner \<^verbatim>\<open>IndexedLogWriter\<close>.
\<close>

subsection \<open>The sending loop\<close>

text \<open>
  \<^verbatim>\<open>while !bytes.is_empty()\<close> of \<^verbatim>\<open>flush_buffer\<close>: an interrupted write is repeated, a short
  write goes on behind the accepted prefix, no progress is the error \<open>WriteZero\<close>, and a count
  beyond the offered slice panics in \<^verbatim>\<open>&bytes[written..]\<close>.
\<close>

function send_loop :: "'h \<Rightarrow> bytes \<Rightarrow> 'h env \<Rightarrow> (unit, io_error) outcome \<times> 'h env" where
  "send_loop h bs e =
     (if bs = [] then (Ok (), e)
      else
        (case count_call (Write h bs) e of
           (Ok n, e') \<Rightarrow>
             if n = 0 then (Err WriteZero, e')
             else if n > length bs then (Stop Panic, e')
             else send_loop h (drop n bs) e'
         | (Err x, e') \<Rightarrow> if x = Interrupted then send_loop h bs e' else (Err x, e')
         | (Stop s, e') \<Rightarrow> (Stop s, e')))"
  by pat_completeness auto
termination
  by (relation "measure (\<lambda>(h, bs, e). length (script e))")
     (auto dest!: typed_call_shrinks [OF sym])

declare send_loop.simps [simp del]

definition writes_on :: "'h \<Rightarrow> ('h call \<times> 'h answer) list \<Rightarrow> bool" where
  "writes_on h evs \<longleftrightarrow> (\<forall>ev\<in>set evs. \<exists>bs. fst ev = Write h bs)"

lemma writes_on_Nil [simp]: "writes_on h []"
  by (simp add: writes_on_def)

lemma writes_on_Cons [simp]:
  "writes_on h (ev # evs) \<longleftrightarrow> (\<exists>bs. fst ev = Write h bs) \<and> writes_on h evs"
  by (simp add: writes_on_def)

lemma writes_on_append [simp]: "writes_on h (xs @ ys) \<longleftrightarrow> writes_on h xs \<and> writes_on h ys"
  by (auto simp: writes_on_def)

lemma writes_on_handle: "writes_on h evs \<Longrightarrow> ev \<in> set evs \<Longrightarrow> on_handle h (fst ev)"
  by (auto simp: writes_on_def)

text \<open>
  The loop only writes to its destination; what the destination accepts is a prefix of the
  batch, and the whole batch when the loop succeeds.
\<close>

definition sent :: "'h \<Rightarrow> bytes \<Rightarrow> 'h env \<Rightarrow> (unit, io_error) outcome \<times> 'h env \<Rightarrow> bool" where
  "sent h bs e z \<longleftrightarrow>
     (case z of (r, e') \<Rightarrow>
        \<exists>evs n. trace e' = trace e @ evs \<and> writes_on h evs \<and> n \<le> length bs \<and>
          accepted h evs = take n bs \<and> (is_ok r \<longrightarrow> n = length bs))"

lemma sent_failed:
  assumes "trace e' = trace e @ [(Write h bs, a)]" "\<not> is_ok r" "accepted_by h (Write h bs, a) = take n bs" "n \<le> length bs"
  shows "sent h bs e (r, e')"
  unfolding sent_def prod.case using assms
  by (intro exI [of _ "[(Write h bs, a)]"] exI [of _ n]) (simp add: accepted_def)

lemma sent_call:
  assumes "sent h (drop n bs) e1 z" and "trace e1 = trace e @ [(Write h bs, a)]"
    and "accepted_by h (Write h bs, a) = take n bs" "n \<le> length bs"
  shows "sent h bs e z"
proof -
  obtain r e' where z: "z = (r, e')" by fastforce
  obtain evs m where "trace e' = trace e1 @ evs" "writes_on h evs" "m \<le> length (drop n bs)"
      "accepted h evs = take m (drop n bs)" "is_ok r \<longrightarrow> m = length (drop n bs)"
    using assms(1) unfolding sent_def z by auto
  then show ?thesis unfolding sent_def z prod.case using assms(2-4)
    by (intro exI [of _ "(Write h bs, a) # evs"] exI [of _ "n + m"]) (auto simp: take_add accepted_def)
qed

lemma accepted_by_no_count:
  "\<forall>y. b = Ready y \<longrightarrow> as_count y = None \<Longrightarrow> accepted_by h (Write h bs, b) = []"
  by (induction h "(Write h bs, b)" rule: accepted_by.induct) auto

lemma send_loop_sent: "sent h bs e (send_loop h bs e)"
proof (induction h bs e rule: send_loop.induct)
  case (1 h bs e)
  note turn = send_loop.simps [of h bs e]
  show ?case
  proof (cases "bs = []")
    case True
    then show ?thesis unfolding turn sent_def by (auto intro: exI [of _ "[]"])
  next
    case ne: False
    obtain a e1 where call: "count_call (Write h bs) e = (a, e1)" by fastforce
    show ?thesis
    proof (cases a)
      case (Ok n)
      have tr: "trace e1 = trace e @ [(Write h bs, Ready (Count n))]"
        using typed_call_Ok [OF call [unfolded Ok]] by auto
      show ?thesis
      proof (cases "n = 0 \<or> length bs < n")
        case True
        then show ?thesis unfolding turn using ne call Ok
          by (auto intro!: sent_failed [OF tr, of _ "min n (length bs)"] simp: min_def)
      next
        case False
        then have "sent h (drop n bs) e1 (send_loop h (drop n bs) e1)"
          using "1.IH"(1) [OF ne call [symmetric] Ok] by auto
        then show ?thesis using turn ne call Ok False sent_call [OF _ tr] by simp
      qed
    next
      case (Err x)
      have tr: "trace e1 = trace e @ [(Write h bs, Failed x)]"
        using typed_call_Err [OF call [unfolded Err]] .
      show ?thesis
      proof (cases "x = Interrupted")
        case True
        then show ?thesis using turn ne call Err "1.IH"(2) [OF ne call [symmetric] Err True] sent_call [OF _ tr, of 0] by simp
      next
        case False
        then show ?thesis unfolding turn using ne call Err by (auto intro!: sent_failed [OF tr, of _ 0])
      qed
    next
      case (Stop s)
      obtain b where tr: "trace e1 = trace e @ [(Write h bs, b)]" and b: "\<forall>y. b = Ready y \<longrightarrow> as_count y = None"
        using typed_call_Stop [OF call [unfolded Stop]] by auto
      show ?thesis unfolding turn using ne call Stop accepted_by_no_count [OF b]
        by (auto intro!: sent_failed [OF tr, of _ 0])
    qed
  qed
qed

lemma send_loop_sends:
  assumes "send_loop h bs e = (r, e')"
  shows "\<exists>evs n. trace e' = trace e @ evs \<and> writes_on h evs \<and> n \<le> length bs \<and>
     accepted h evs = take n bs \<and> (is_ok r \<longrightarrow> n = length bs)"
  using send_loop_sent [of h bs e] assms by (simp add: sent_def)

text \<open>
  \<open>delivers as\<close> is the number of bytes that a run of answers takes from the loop, \<open>None\<close> when one
  of them is neither progress nor an interruption. Answers that take the whole batch make the
  loop return.
\<close>

fun delivers :: "'h answer list \<Rightarrow> nat option" where
  "delivers [] = Some 0"
| "delivers (Ready (Count n) # as) = (if n = 0 then None else map_option ((+) n) (delivers as))"
| "delivers (Failed Interrupted # as) = delivers as"
| "delivers (_ # as) = None"

lemma send_loop_completes:
  "delivers as = Some (length bs) \<Longrightarrow> script e = as @ rest \<Longrightarrow>
   \<exists>e'. send_loop h bs e = (Ok (), e')"
proof (induction as arbitrary: bs e rule: delivers.induct)
  case 1
  then show ?case by (simp add: send_loop.simps)
next
  case (2 n as)
  then obtain m where m: "delivers as = Some m" "n + m = length bs" "n \<noteq> 0"
    by (auto split: if_splits)
  define e1 where "e1 = e\<lparr>script := as @ rest, trace := trace e @ [(Write h bs, Ready (Count n))]\<rparr>"
  have "send_loop h bs e = send_loop h (drop n bs) e1"
    using m 2(3) by (subst send_loop.simps) (auto simp: typed_call_def e1_def)
  moreover have "\<exists>e'. send_loop h (drop n bs) e1 = (Ok (), e')"
    using m by (intro "2.IH") (auto simp: e1_def)
  ultimately show ?case by simp
next
  case (3 as)
  define e1 where "e1 = e\<lparr>script := as @ rest, trace := trace e @ [(Write h bs, Failed Interrupted)]\<rparr>"
  have "bs \<noteq> [] \<Longrightarrow> send_loop h bs e = send_loop h bs e1"
    using 3 by (subst send_loop.simps) (auto simp: typed_call_def e1_def)
  moreover have "\<exists>e'. send_loop h bs e1 = (Ok (), e')"
    using 3 by (intro "3.IH") (auto simp: e1_def)
  ultimately show ?case by (cases "bs = []") (auto simp: send_loop.simps [of h "[]"])
qed simp_all

subsection \<open>The interface of a buffering writer\<close>

text \<open>
  What a batch writer promises: sending the buffer hands the destination a prefix of it, and all
  of it on success; flushing and synchronizing are one call each; success is what makes the
  writer usable again; an unusable writer performs no I/O and keeps its state.
\<close>

locale output_writer =
  fixes handle :: "'w \<Rightarrow> 'h" and pending :: "'w \<Rightarrow> bytes" and is_usable :: "'w \<Rightarrow> bool"
    and unusable_error :: 'x
    and send :: "'w \<Rightarrow> 'h env \<Rightarrow> (unit, 'x) outcome \<times> 'w \<times> 'h env"
    and flush_dest :: "'w \<Rightarrow> 'h env \<Rightarrow> (unit, 'x) outcome \<times> 'w \<times> 'h env"
    and sync_dest :: "'w \<Rightarrow> 'h env \<Rightarrow> (unit, 'x) outcome \<times> 'w \<times> 'h env"
  assumes send_sends: "is_usable w \<Longrightarrow> send w e = (r, w', e') \<Longrightarrow>
      \<exists>evs n. trace e' = trace e @ evs \<and> writes_on (handle w) evs \<and>
        accepted (handle w) evs = take n (pending w) \<and>
        handle w' = handle w \<and> is_usable w' = is_ok r \<and>
        (is_ok r \<longrightarrow> pending w' = [] \<and> n = length (pending w)) \<and>
        (\<not> is_ok r \<longrightarrow> pending w' = pending w)"
    and flush_calls: "is_usable w \<Longrightarrow> flush_dest w e = (r, w', e') \<Longrightarrow>
      \<exists>a. trace e' = trace e @ [(Flush (handle w), a)] \<and> (is_ok r \<longrightarrow> a = Ready Unit) \<and>
        handle w' = handle w \<and> pending w' = pending w \<and> is_usable w' = is_ok r"
    and sync_calls: "is_usable w \<Longrightarrow> sync_dest w e = (r, w', e') \<Longrightarrow>
      \<exists>a. trace e' = trace e @ [(SyncData (handle w), a)] \<and> (is_ok r \<longrightarrow> a = Ready Unit) \<and>
        handle w' = handle w \<and> pending w' = pending w \<and> is_usable w' = is_ok r"
    and unusable_rejects: "\<not> is_usable w \<Longrightarrow>
      send w e = (Err unusable_error, w, e) \<and> flush_dest w e = (Err unusable_error, w, e) \<and>
      sync_dest w e = (Err unusable_error, w, e)"
begin

lemma send_ok:
  assumes "is_usable w" and "send w e = (Ok u, w', e')"
  shows "\<exists>evs. trace e' = trace e @ evs \<and> writes_on (handle w) evs \<and>
      accepted (handle w) evs = pending w \<and> handle w' = handle w \<and> pending w' = [] \<and> is_usable w'"
  using send_sends [OF assms] by auto

lemma send_keeps_handle: "send w e = (r, w', e') \<Longrightarrow> handle w' = handle w"
  using send_sends [of w e r w' e'] unusable_rejects [of w e] by (cases "is_usable w") auto

lemma send_trace:
  "send w e = (r, w', e') \<Longrightarrow>
   \<exists>evs n. trace e' = trace e @ evs \<and> writes_on (handle w) evs \<and>
     accepted (handle w) evs = take n (pending w)"
proof (cases "is_usable w")
  case False
  moreover assume "send w e = (r, w', e')"
  ultimately have "e' = e" using unusable_rejects [of w e] by simp
  then show ?thesis by (intro exI [of _ "[]"] exI [of _ 0]) simp
next
  case True
  moreover assume "send w e = (r, w', e')"
  ultimately show ?thesis using send_sends [of w e r w' e'] by blast
qed

lemma flush_trace:
  "flush_dest w e = (r, w', e') \<Longrightarrow>
   \<exists>evs. trace e' = trace e @ evs \<and> (\<forall>ev\<in>set evs. fst ev = Flush (handle w))"
proof (cases "is_usable w")
  case False
  moreover assume "flush_dest w e = (r, w', e')"
  ultimately have "e' = e" using unusable_rejects [of w e] by simp
  then show ?thesis by (intro exI [of _ "[]"]) simp
next
  case True
  moreover assume "flush_dest w e = (r, w', e')"
  ultimately show ?thesis using flush_calls [of w e r w' e'] by force
qed

lemma sync_trace:
  "sync_dest w e = (r, w', e') \<Longrightarrow>
   \<exists>evs. trace e' = trace e @ evs \<and> (\<forall>ev\<in>set evs. fst ev = SyncData (handle w))"
proof (cases "is_usable w")
  case False
  moreover assume "sync_dest w e = (r, w', e')"
  ultimately have "e' = e" using unusable_rejects [of w e] by simp
  then show ?thesis by (intro exI [of _ "[]"]) simp
next
  case True
  moreover assume "sync_dest w e = (r, w', e')"
  ultimately show ?thesis using sync_calls [of w e r w' e'] by force
qed

text \<open>Sending and then flushing: the whole batch is accepted before the flush completes.\<close>

lemma send_then_flush:
  assumes u: "is_usable w" and s: "send w e = (Ok u1, w1, e1)"
    and f: "flush_dest w1 e1 = (Ok u2, w2, e2)"
  shows "\<exists>evs. trace e2 = trace e @ evs @ [(Flush (handle w), Ready Unit)] \<and>
      writes_on (handle w) evs \<and> accepted (handle w) evs = pending w \<and>
      handle w2 = handle w \<and> pending w2 = [] \<and> is_usable w2"
proof -
  obtain evs where a: "trace e1 = trace e @ evs" "writes_on (handle w) evs"
      "accepted (handle w) evs = pending w" "handle w1 = handle w" "pending w1 = []" "is_usable w1"
    using send_ok [OF u s] by blast
  then have "trace e2 = trace e1 @ [(Flush (handle w), Ready Unit)]" "handle w2 = handle w"
      "pending w2 = []" "is_usable w2"
    using flush_calls [OF a(6) f] by auto
  with a show ?thesis by auto
qed

end

end
