(* ===== verification/Writer.thy ===== *)
theory Writer
  imports Builder Output
begin

text \<open>
  \<^verbatim>\<open>record_writer.rs\<close>: \<^verbatim>\<open>RecordWriter\<close> with both append modes and its output operations. The
  mode is a compile-time marker and has no run-time state; the model has one record type and
  the operations of both modes. The destination is the handle its calls go to.
\<close>

subsection \<open>The writer and its errors\<close>

datatype RecordOutputError = OutputIo io_error | OutputUnusable

datatype 'e RecordWriteError =
    WriteBuild RecordBuildError
  | WriteSerialize 'e
  | WriteOutput RecordOutputError

record 'h RecordWriter =
  rw_destination :: 'h
  rw_buffer :: bytes
  rw_usable :: bool

definition with_mode :: "'h \<Rightarrow> 'h RecordWriter" where
  "with_mode destination = \<lparr>rw_destination = destination, rw_buffer = [], rw_usable = True\<rparr>"

definition for_serialization :: "'h \<Rightarrow> 'h RecordWriter" where
  "for_serialization destination = with_mode destination"

definition for_records :: "'h \<Rightarrow> 'h RecordWriter" where
  "for_records destination = with_mode destination"

definition rw_into_inner :: "'h RecordWriter \<Rightarrow> 'h" where
  "rw_into_inner self = rw_destination self"

definition rw_check_usable :: "'h RecordWriter \<Rightarrow> (unit, RecordOutputError) outcome" where
  "rw_check_usable self = (if rw_usable self then Ok () else Err OutputUnusable)"

subsection \<open>Appending\<close>

text \<open>
  The builder borrows the buffer and is dropped on every way out, so the buffer afterwards is
  what \<open>builder_drop\<close> leaves.
\<close>

definition rw_write ::
    "crc_fun \<Rightarrow> RecordId \<Rightarrow> 'e body \<Rightarrow> 'h RecordWriter \<Rightarrow>
     (unit, 'e RecordWriteError) outcome \<times> 'h RecordWriter" where
  "rw_write crc32c rid write_body self =
     (case rw_check_usable self of
        Err x \<Rightarrow> (Err (WriteOutput x), self)
      | Stop s \<Rightarrow> (Stop s, self)
      | Ok _ \<Rightarrow>
          (case run_body write_body (RecordBuilder_new (rw_buffer self)) of
             (Stop s, builder) \<Rightarrow> (Stop s, self\<lparr>rw_buffer := builder_drop builder\<rparr>)
           | (Err error, builder) \<Rightarrow>
               ((case check_error builder of
                   Err x \<Rightarrow> Err (WriteBuild x)
                 | Stop s \<Rightarrow> Stop s
                 | Ok _ \<Rightarrow> Err (WriteSerialize error)),
                self\<lparr>rw_buffer := builder_drop builder\<rparr>)
           | (Ok _, builder) \<Rightarrow>
               (case builder_finish crc32c rid builder of
                  (r, buf) \<Rightarrow> (map_err WriteBuild r, self\<lparr>rw_buffer := buf\<rparr>))))"

definition rw_write_record ::
    "Record \<Rightarrow> 'h RecordWriter \<Rightarrow> (unit, RecordOutputError) outcome \<times> 'h RecordWriter" where
  "rw_write_record rec self =
     (case rw_check_usable self of
        Err x \<Rightarrow> (Err x, self)
      | Stop s \<Rightarrow> (Stop s, self)
      | Ok _ \<Rightarrow> (Ok (), self\<lparr>rw_buffer := rw_buffer self @ record_bytes rec\<rparr>))"

subsection \<open>Output\<close>

definition rw_flush_buffer ::
    "'h RecordWriter \<Rightarrow> 'h env \<Rightarrow> (unit, RecordOutputError) outcome \<times> 'h RecordWriter \<times> 'h env" where
  "rw_flush_buffer self e =
     (case rw_check_usable self of
        Err x \<Rightarrow> (Err x, self, e)
      | Stop s \<Rightarrow> (Stop s, self, e)
      | Ok _ \<Rightarrow>
          if rw_buffer self = [] then (Ok (), self, e)
          else
            (let armed = self\<lparr>rw_usable := False\<rparr> in
             case send_loop (rw_destination self) (rw_buffer self) e of
               (Ok _, e') \<Rightarrow> (Ok (), armed\<lparr>rw_buffer := [], rw_usable := True\<rparr>, e')
             | (Err x, e') \<Rightarrow> (Err (OutputIo x), armed, e')
             | (Stop s, e') \<Rightarrow> (Stop s, armed, e')))"

definition rw_flush ::
    "'h RecordWriter \<Rightarrow> 'h env \<Rightarrow> (unit, RecordOutputError) outcome \<times> 'h RecordWriter \<times> 'h env" where
  "rw_flush self e =
     (case rw_check_usable self of
        Err x \<Rightarrow> (Err x, self, e)
      | Stop s \<Rightarrow> (Stop s, self, e)
      | Ok _ \<Rightarrow>
          (let armed = self\<lparr>rw_usable := False\<rparr> in
           case unit_call (Flush (rw_destination self)) e of
             (Ok _, e') \<Rightarrow> (Ok (), armed\<lparr>rw_usable := True\<rparr>, e')
           | (Err x, e') \<Rightarrow> (Err (OutputIo x), armed, e')
           | (Stop s, e') \<Rightarrow> (Stop s, armed, e')))"

definition rw_sync_data ::
    "'h RecordWriter \<Rightarrow> 'h env \<Rightarrow> (unit, RecordOutputError) outcome \<times> 'h RecordWriter \<times> 'h env" where
  "rw_sync_data self e =
     (case rw_check_usable self of
        Err x \<Rightarrow> (Err x, self, e)
      | Stop s \<Rightarrow> (Stop s, self, e)
      | Ok _ \<Rightarrow>
          (let armed = self\<lparr>rw_usable := False\<rparr> in
           case unit_call (SyncData (rw_destination self)) e of
             (Ok _, e') \<Rightarrow> (Ok (), armed\<lparr>rw_usable := True\<rparr>, e')
           | (Err x, e') \<Rightarrow> (Err (OutputIo x), armed, e')
           | (Stop s, e') \<Rightarrow> (Stop s, armed, e')))"

lemma rw_flush_eq:
  "rw_usable w \<Longrightarrow> rw_flush w e =
     (case unit_call (Flush (rw_destination w)) e of
        (r, e') \<Rightarrow> (map_err OutputIo r, w\<lparr>rw_usable := is_ok r\<rparr>, e'))"
  by (auto simp: rw_flush_def rw_check_usable_def Let_def split: prod.splits outcome.splits)

lemma rw_sync_data_eq:
  "rw_usable w \<Longrightarrow> rw_sync_data w e =
     (case unit_call (SyncData (rw_destination w)) e of
        (r, e') \<Rightarrow> (map_err OutputIo r, w\<lparr>rw_usable := is_ok r\<rparr>, e'))"
  by (auto simp: rw_sync_data_def rw_check_usable_def Let_def split: prod.splits outcome.splits)

lemma rw_flush_buffer_sends:
  assumes u: "rw_usable w" and f: "rw_flush_buffer w e = (r, w', e')"
  shows "\<exists>evs n. trace e' = trace e @ evs \<and> writes_on (rw_destination w) evs \<and>
        accepted (rw_destination w) evs = take n (rw_buffer w) \<and>
        rw_destination w' = rw_destination w \<and> rw_usable w' = is_ok r \<and>
        (is_ok r \<longrightarrow> rw_buffer w' = [] \<and> n = length (rw_buffer w)) \<and>
        (\<not> is_ok r \<longrightarrow> rw_buffer w' = rw_buffer w)"
proof (cases "rw_buffer w = []")
  case True
  then show ?thesis using u f
    by (intro exI [of _ "[]"] exI [of _ 0]) (auto simp: rw_flush_buffer_def rw_check_usable_def)
next
  case False
  obtain q e1 where s: "send_loop (rw_destination w) (rw_buffer w) e = (q, e1)" by fastforce
  then obtain evs n where evs: "trace e1 = trace e @ evs" "writes_on (rw_destination w) evs"
      "accepted (rw_destination w) evs = take n (rw_buffer w)"
      "is_ok q \<longrightarrow> n = length (rw_buffer w)"
    using send_loop_sends [OF s] by auto
  have "rw_flush_buffer w e = (map_err OutputIo q,
      w\<lparr>rw_buffer := if is_ok q then [] else rw_buffer w, rw_usable := is_ok q\<rparr>, e1)"
    using u s False by (cases q) (simp_all add: rw_flush_buffer_def rw_check_usable_def Let_def)
  with evs f show ?thesis by (intro exI [of _ evs] exI [of _ n]) auto
qed

interpretation record_output: output_writer rw_destination rw_buffer rw_usable OutputUnusable
    rw_flush_buffer rw_flush rw_sync_data
proof unfold_locales
  fix w w' :: "'h RecordWriter" and e e' :: "'h env" and r
  assume "rw_usable w" and "rw_flush_buffer w e = (r, w', e')"
  then show "\<exists>evs n. trace e' = trace e @ evs \<and> writes_on (rw_destination w) evs \<and>
        accepted (rw_destination w) evs = take n (rw_buffer w) \<and>
        rw_destination w' = rw_destination w \<and> rw_usable w' = is_ok r \<and>
        (is_ok r \<longrightarrow> rw_buffer w' = [] \<and> n = length (rw_buffer w)) \<and>
        (\<not> is_ok r \<longrightarrow> rw_buffer w' = rw_buffer w)"
    by (rule rw_flush_buffer_sends)
next
  fix w w' :: "'h RecordWriter" and e e' :: "'h env" and r
  assume "rw_usable w" and "rw_flush w e = (r, w', e')"
  then show "\<exists>a. trace e' = trace e @ [(Flush (rw_destination w), a)] \<and>
        (is_ok r \<longrightarrow> a = Ready Unit) \<and> rw_destination w' = rw_destination w \<and>
        rw_buffer w' = rw_buffer w \<and> rw_usable w' = is_ok r"
    using unit_call_trace [of "Flush (rw_destination w)" e]
    by (auto simp: rw_flush_eq split: prod.splits)
next
  fix w w' :: "'h RecordWriter" and e e' :: "'h env" and r
  assume "rw_usable w" and "rw_sync_data w e = (r, w', e')"
  then show "\<exists>a. trace e' = trace e @ [(SyncData (rw_destination w), a)] \<and>
        (is_ok r \<longrightarrow> a = Ready Unit) \<and> rw_destination w' = rw_destination w \<and>
        rw_buffer w' = rw_buffer w \<and> rw_usable w' = is_ok r"
    using unit_call_trace [of "SyncData (rw_destination w)" e]
    by (auto simp: rw_sync_data_eq split: prod.splits)
next
  fix w :: "'h RecordWriter" and e :: "'h env"
  assume "\<not> rw_usable w"
  then show "rw_flush_buffer w e = (Err OutputUnusable, w, e) \<and>
      rw_flush w e = (Err OutputUnusable, w, e) \<and> rw_sync_data w e = (Err OutputUnusable, w, e)"
    by (simp add: rw_flush_buffer_def rw_flush_def rw_sync_data_def rw_check_usable_def)
qed

subsection \<open>What appending a record does\<close>

text \<open>
  The specification of \<open>write\<close>: the callback's meaning decides the result, and only a callback
  that succeeds with every write accepted adds bytes, the complete encoding of its payload.
\<close>

definition write_spec ::
    "crc_fun \<Rightarrow> RecordId \<Rightarrow> 'e body \<Rightarrow> (unit, 'e RecordWriteError) outcome \<times> bytes" where
  "write_spec crc32c rid body =
     (case body_spec body ([], False) of
        (Stop s, _) \<Rightarrow> (Stop s, [])
      | (_, (_, True)) \<Rightarrow> (Err (WriteBuild PayloadTooLarge), [])
      | (Err x, (_, False)) \<Rightarrow> (Err (WriteSerialize x), [])
      | (Ok _, (payload, False)) \<Rightarrow> (Ok (), encode_record crc32c rid payload))"

lemma rw_write_refines:
  assumes "rw_usable w"
  shows "rw_write c rid body w =
    (fst (write_spec c rid body), w\<lparr>rw_buffer := rw_buffer w @ snd (write_spec c rid body)\<rparr>)"
proof -
  obtain r payload failed where spec: "body_spec body ([], False) = (r, (payload, failed))"
    by (metis surj_pair)
  then obtain b where run: "run_body body (RecordBuilder_new (rw_buffer w)) = (r, b)"
    and abs: "abs_builder b (payload, failed)"
    and buf: "bld_buffer b = rw_buffer w"
    using run_body_refines [OF abs_builder_new, of body "rw_buffer w"]
    by (auto simp: RecordBuilder_new_def)
  have drop: "builder_drop b = rw_buffer w"
    using abs buf builds_drop [of b payload] by (simp add: abs_builder_def)
  have err: "check_error b = (if failed then Err PayloadTooLarge else Ok ())"
    using abs by (simp add: abs_builder_def check_error_def)
  have fin: "builder_finish c rid b =
      (if failed then (Err PayloadTooLarge, rw_buffer w)
       else (Ok (), rw_buffer w @ encode_record c rid payload))"
    using abs builder_finish_publishes [of b payload c rid] drop buf err
    by (auto simp: abs_builder_def builder_finish_def)
  show ?thesis
    using assms spec run drop err fin
    by (cases r) (auto simp: rw_write_def rw_check_usable_def write_spec_def)
qed

lemma rw_write_unusable:
  "\<not> rw_usable w \<Longrightarrow> rw_write c rid body w = (Err (WriteOutput OutputUnusable), w)"
  by (simp add: rw_write_def rw_check_usable_def)

lemma write_spec_rejected: "\<not> is_ok (fst (write_spec c rid body)) \<Longrightarrow> snd (write_spec c rid body) = []"
  by (auto simp: write_spec_def split: outcome.splits prod.splits bool.splits)

lemma body_spec_bounded:
  "length (fst st) \<le> MAX_PAYLOAD_LEN \<Longrightarrow> length (fst (snd (body_spec body st))) \<le> MAX_PAYLOAD_LEN"
  by (induction body arbitrary: st) (auto simp: spec_write_def split: if_splits)

lemma write_spec_Ok_payload:
  assumes "write_spec c rid body = (Ok (), bs)"
  shows "\<exists>payload. length payload \<le> MAX_PAYLOAD_LEN \<and> bs = encode_record c rid payload"
proof -
  obtain r payload failed where spec: "body_spec body ([], False) = (r, (payload, failed))"
    by (metis surj_pair)
  have "length payload \<le> MAX_PAYLOAD_LEN"
    using body_spec_bounded [of "([], False)" body] spec by simp
  then show ?thesis using assms spec
    by (auto simp: write_spec_def split: outcome.splits bool.splits)
qed

subsection \<open>Runs of the writer's owner\<close>

text \<open>
  One owner drives the writer; a run is a list of its operations. \<open>writer_step\<close> performs one
  operation and adds the encoding of a record that was accepted to the history, the bytes
  appended so far in order.
\<close>

datatype 'e writer_op =
    AppendNew RecordId "'e body"
  | AppendExisting Record
  | SendBatch
  | FlushDestination
  | SyncDestination

type_synonym 'h writer_state = "'h RecordWriter \<times> 'h env \<times> bytes"

fun writer_step :: "crc_fun \<Rightarrow> 'e writer_op \<Rightarrow> 'h writer_state \<Rightarrow> 'h writer_state" where
  "writer_step c (AppendNew rid body) (w, e, hist) =
     (case rw_write c rid body w of
        (r, w') \<Rightarrow> (w', e, if is_ok r then hist @ snd (write_spec c rid body) else hist))"
| "writer_step c (AppendExisting rec) (w, e, hist) =
     (case rw_write_record rec w of
        (r, w') \<Rightarrow> (w', e, if is_ok r then hist @ record_bytes rec else hist))"
| "writer_step c SendBatch (w, e, hist) =
     (case rw_flush_buffer w e of (r, w', e') \<Rightarrow> (w', e', hist))"
| "writer_step c FlushDestination (w, e, hist) =
     (case rw_flush w e of (r, w', e') \<Rightarrow> (w', e', hist))"
| "writer_step c SyncDestination (w, e, hist) =
     (case rw_sync_data w e of (r, w', e') \<Rightarrow> (w', e', hist))"

definition writer_run :: "crc_fun \<Rightarrow> 'e writer_op list \<Rightarrow> 'h writer_state \<Rightarrow> 'h writer_state" where
  "writer_run c ops st = fold (writer_step c) ops st"

text \<open>
  The invariant: while the writer is usable the destination has accepted exactly the history
  without the pending buffer; afterwards it has accepted some prefix of the history.
\<close>

definition writer_inv :: "'h \<Rightarrow> 'h writer_state \<Rightarrow> bool" where
  "writer_inv h st \<longleftrightarrow>
     (case st of (w, e, hist) \<Rightarrow>
        rw_destination w = h \<and>
        (if rw_usable w then accepted h (trace e) @ rw_buffer w = hist
         else prefix (accepted h (trace e)) hist))"

lemma writer_step_inv:
  assumes inv: "writer_inv h st"
  shows "writer_inv h (writer_step c op st)"
proof -
  obtain w e hist where st: "st = (w, e, hist)" by (metis surj_pair)
  have h: "rw_destination w = h" using inv st by (simp add: writer_inv_def)
  show ?thesis
  proof (cases "rw_usable w")
    case False
    then show ?thesis using inv st record_output.unusable_rejects [OF False, of e]
      by (cases op) (auto simp: writer_inv_def rw_write_unusable rw_write_record_def
        rw_check_usable_def split: prod.splits)
  next
    case True
    then have acc: "accepted h (trace e) @ rw_buffer w = hist"
      using inv st by (simp add: writer_inv_def)
    show ?thesis
    proof (cases op)
      case (AppendNew rid body)
      then show ?thesis using True acc h st write_spec_rejected [of c rid body]
        by (auto simp: writer_inv_def rw_write_refines split: prod.splits)
    next
      case (AppendExisting rec)
      then show ?thesis using True acc h st
        by (auto simp: writer_inv_def rw_write_record_def rw_check_usable_def)
    next
      case SendBatch
      obtain r w' e' where f: "rw_flush_buffer w e = (r, w', e')" by (metis surj_pair)
      show ?thesis
        using SendBatch f st acc h record_output.send_sends [OF True f]
        by (auto simp: writer_inv_def take_is_prefix)
    next
      case FlushDestination
      obtain r w' e' where f: "rw_flush w e = (r, w', e')" by (metis surj_pair)
      show ?thesis
        using FlushDestination f st acc h record_output.flush_calls [OF True f]
        by (auto simp: writer_inv_def)
    next
      case SyncDestination
      obtain r w' e' where f: "rw_sync_data w e = (r, w', e')" by (metis surj_pair)
      show ?thesis
        using SyncDestination f st acc h record_output.sync_calls [OF True f]
        by (auto simp: writer_inv_def)
    qed
  qed
qed

interpretation writer_runs: run_invariant "writer_step c" "\<lambda>_. True" "writer_inv h" for c h
  by unfold_locales (rule writer_step_inv)

lemma writer_run_inv: "writer_inv h st \<Longrightarrow> writer_inv h (writer_run c ops st)"
  unfolding writer_run_def by (rule writer_runs.run_inv) (simp add: list_all_iff)

lemma writer_inv_prefix: "writer_inv h (w, e, hist) \<Longrightarrow> prefix (accepted h (trace e)) hist"
  by (auto simp: writer_inv_def split: if_splits)

lemma writer_inv_start: "writer_inv h (with_mode h, start_env answers, [])"
  by (simp add: writer_inv_def with_mode_def start_env_def)

interpretation failed_writer: run_terminal "writer_step c" "\<lambda>(w, _). \<not> rw_usable w" for c
proof unfold_locales
  fix op and st :: "'h writer_state"
  assume "case st of (w, _) \<Rightarrow> \<not> rw_usable w"
  then obtain w e hist where st: "st = (w, e, hist)" and w: "\<not> rw_usable w" by (cases st) auto
  show "writer_step c op st = st"
    using record_output.unusable_rejects [OF w, of e]
    by (cases op) (auto simp: st w rw_write_unusable rw_write_record_def rw_check_usable_def)
qed

lemma writer_run_unusable:
  "\<not> rw_usable w \<Longrightarrow> writer_run c ops (w, e, hist) = (w, e, hist)"
  unfolding writer_run_def by (rule failed_writer.run_terminal) simp

subsection \<open>Properties\<close>

text \<open>
  C17. \<open>RecordWriter::write\<close> refines its specification, which has no memory: what the callback
  produces through \<open>io::Write\<close> decides the result, success appends the complete encoding of the
  payload behind the pending records, and every other way out (a rejected write even when the
  callback hides it, the callback's own error, a panic) leaves the pending records as they were.
  No run of the builder leaves the reserved capacity or publishes an uninitialised byte.
\<close>

theorem write_refines_spec:
  assumes "rw_usable w"
  shows "rw_write c rid body w =
    (fst (write_spec c rid body), w\<lparr>rw_buffer := rw_buffer w @ snd (write_spec c rid body)\<rparr>)"
  using assms by (rule rw_write_refines)

theorem write_refines_spec_witness:
  "rw_write (\<lambda>_. 7) (RecordId (StreamId 1) (SequenceNumber 2))
     (BodyWriteAll [65] (\<lambda>ok. BodyReturn (if ok then None else Some ()))) (for_serialization ()) =
   (Ok (), for_serialization ()\<lparr>rw_buffer :=
      encode_record (\<lambda>_. 7) (RecordId (StreamId 1) (SequenceNumber 2)) [65]\<rparr>)"
  using write_refines_spec [of "for_serialization ()" "\<lambda>_. 7"
      "RecordId (StreamId 1) (SequenceNumber 2)"
      "BodyWriteAll [65] (\<lambda>ok. BodyReturn (if ok then None else Some ()))"]
  by (simp add: for_serialization_def with_mode_def write_spec_def spec_write_def layout)

text \<open>
  Every record that \<open>write\<close> accepts for an id of a valid stream is a valid frame carrying that
  id, of bounded length: a reader accepts it.
\<close>

theorem accepted_record_is_valid:
  assumes "valid_stream (stream_id rid)" and "rw_write c rid body w = (Ok (), w')"
  shows "\<exists>f. rw_buffer w' = rw_buffer w @ f \<and> valid_frame c f \<and>
    Record_id (from_validated_bytes f) = rid \<and> length f \<le> MAX_RECORD_LEN"
proof -
  have u: "rw_usable w" using assms(2) rw_write_unusable [of w c rid body] by auto
  obtain bs where "write_spec c rid body = (Ok (), bs)" "rw_buffer w' = rw_buffer w @ bs"
    using assms(2) rw_write_refines [OF u, of c rid body] by (cases "write_spec c rid body") auto
  moreover from this obtain payload where "length payload \<le> MAX_PAYLOAD_LEN" "bs = encode_record c rid payload"
    using write_spec_Ok_payload by blast
  ultimately show ?thesis using valid_frame_encode [OF _ assms(1)]
    by (intro exI [of _ bs]) (simp add: id_encode from_validated_bytes_def layout)
qed

theorem accepted_record_is_valid_witness:
  "\<exists>f. rw_buffer (snd (rw_write (\<lambda>_. 7) (RecordId (StreamId 1) (SequenceNumber 2))
       (BodyReturn None :: unit body) (for_serialization ()))) = [] @ f \<and> valid_frame (\<lambda>_. 7) f"
proof -
  let ?rid = "RecordId (StreamId 1) (SequenceNumber 2)" and ?w = "for_serialization ()"
  have "rw_write (\<lambda>_. 7) ?rid (BodyReturn None :: unit body) ?w =
      (Ok (), ?w\<lparr>rw_buffer := encode_record (\<lambda>_. 7) ?rid []\<rparr>)"
    by (subst rw_write_refines) (simp_all add: for_serialization_def with_mode_def write_spec_def)
  moreover have "valid_stream (stream_id ?rid)" by (simp add: valid_stream_def layout)
  ultimately show ?thesis
    using accepted_record_is_valid [of ?rid "\<lambda>_. 7" "BodyReturn None :: unit body" ?w]
    by (fastforce simp: for_serialization_def with_mode_def)
qed

text \<open>
  C19. Whatever the destination answers and whatever the owner calls, the destination has accepted
  a prefix of the appended records, in order and without gaps or repetition; while the writer is
  usable, the rest is exactly its buffer. A short write, an interruption, an error or a dropped
  future never duplicates or reorders a byte.
\<close>

theorem writer_output_is_history_prefix:
  "case writer_run c ops (with_mode h, start_env answers, []) of (w, e, hist) \<Rightarrow>
     prefix (accepted h (trace e)) hist \<and>
     (if rw_usable w then accepted h (trace e) @ rw_buffer w = hist
      else (\<forall>ops'. writer_run c ops' (w, e, hist) = (w, e, hist)))"
proof -
  obtain w e hist where run: "writer_run c ops (with_mode h, start_env answers, []) = (w, e, hist)"
    by (metis surj_pair)
  then have inv: "writer_inv h (w, e, hist)" using writer_run_inv [OF writer_inv_start] by metis
  then show ?thesis using run writer_inv_prefix [OF inv] writer_run_unusable
    by (auto simp: writer_inv_def)
qed

text \<open>
  C29. A batch is sent completely by any destination that makes progress: answers that accept the
  batch in pieces, with interruptions between them, make \<open>flush_buffer\<close> return \<open>Ok\<close> with an empty
  buffer, a usable writer, and the whole batch accepted.
\<close>

theorem flush_buffer_completes:
  assumes "rw_usable w" and "delivers as = Some (length (rw_buffer w))"
  shows "\<exists>e'. rw_flush_buffer w (start_env (as @ rest)) = (Ok (), w\<lparr>rw_buffer := []\<rparr>, e') \<and>
    accepted (rw_destination w) (trace e') = rw_buffer w"
proof -
  let ?e = "start_env (as @ rest)"
  obtain e' where e': "send_loop (rw_destination w) (rw_buffer w) ?e = (Ok (), e')"
    using send_loop_completes [OF assms(2), of ?e rest] by (auto simp: start_env_def)
  from send_loop_sends [OF e'] have acc: "accepted (rw_destination w) (trace e') = rw_buffer w"
    by (auto simp: start_env_def)
  have "rw_flush_buffer w ?e = (Ok (), w\<lparr>rw_buffer := []\<rparr>, e')"
    using assms(1) e' by (cases "rw_buffer w = []")
      (simp_all add: rw_flush_buffer_def rw_check_usable_def Let_def send_loop.simps [of _ "[]"])
  with acc show ?thesis by blast
qed

theorem flush_buffer_completes_witness:
  "\<exists>e'. rw_flush_buffer ((for_records ())\<lparr>rw_buffer := [1, 2, 3]\<rparr>)
      (start_env ([Failed Interrupted, Ready (Count 2), Ready (Count 1)] @ [])) =
      (Ok (), for_records (), e') \<and> accepted () (trace e') = [1, 2, 3]"
  using flush_buffer_completes [of "(for_records ())\<lparr>rw_buffer := [1, 2, 3]\<rparr>"
      "[Failed Interrupted, Ready (Count 2), Ready (Count 1)]" "[]"]
  by (simp add: for_records_def with_mode_def)

end
