(* ===== verification/Reader.thy ===== *)
theory Reader
  imports Protocol Environment
begin

text \<open>
  \<^verbatim>\<open>record_reader.rs\<close>: batch validation, the synchronous draining of a validated batch, and the
  asynchronous wait. \<open>parse_frames\<close> is the specification of a byte stream's valid prefix, and
  \<open>reader_inv\<close> is what the reader keeps true between its calls.
\<close>

subsection \<open>The reader and its errors\<close>

datatype RecordReadError =
    TruncatedHeader nat
  | InvalidLength u16
  | InvalidStreamId StreamIdError
  | TruncatedRecord nat nat
  | CrcMismatch u32 u32
  | ReadIo io_error
  | ReaderFailed

datatype ReaderState = StateActive | StateFinished | StateFailed

record 'h RecordReader =
  rd_source :: 'h
  rd_buffer :: bytes
  rd_pending_length :: "nat option"
  rd_batch :: bytes
  rd_batch_offset :: nat
  rd_state :: ReaderState

definition RecordReader_new :: "'h \<Rightarrow> 'h RecordReader" where
  "RecordReader_new source =
     \<lparr>rd_source = source, rd_buffer = [], rd_pending_length = None, rd_batch = [],
      rd_batch_offset = 0, rd_state = StateActive\<rparr>"

subsection \<open>Draining a validated batch\<close>

text \<open>
  \<open>Undefined\<close> is \<open>header_unchecked\<close> on fewer than \<open>HEADER_LEN\<close> bytes; the panics are those of
  the slices of the batch.
\<close>

definition try_read_next ::
    "'h RecordReader \<Rightarrow> (Record option, RecordReadError) outcome \<times> 'h RecordReader" where
  "try_read_next self =
     (if rd_state self = StateFailed then (Err ReaderFailed, self)
      else if rd_batch self = [] then (Ok None, self)
      else
        (let start = rd_batch_offset self in
         if start > length (rd_batch self) then (Stop Panic, self)
         else if length (drop start (rd_batch self)) < HEADER_LEN then (Stop Undefined, self)
         else
           (let header = header_unchecked (drop start (rd_batch self));
                end = start + unat (read_length header) in
            if end = length (rd_batch self)
            then (Ok (Some (from_validated_bytes (drop start (rd_batch self)))),
                  self\<lparr>rd_batch := [], rd_batch_offset := 0\<rparr>)
            else if end > length (rd_batch self) then (Stop Panic, self)
            else (Ok (Some (from_validated_bytes (take (end - start) (drop start (rd_batch self))))),
                  self\<lparr>rd_batch_offset := end\<rparr>))))"

subsection \<open>Validating a batch\<close>

text \<open>
  The length of the next frame: the one already validated, or the header's after its length
  and stream id have been checked. \<open>Inl\<close> leaves the loop.
\<close>

definition next_length ::
    "bytes \<Rightarrow> nat option \<Rightarrow> (unit, RecordReadError) outcome + nat" where
  "next_length remaining pending =
     (case pending of
        Some len \<Rightarrow> Inr len
      | None \<Rightarrow>
          if length remaining < HEADER_LEN then Inl (Ok ())
          else
            (let header = take HEADER_LEN remaining;
                 declared = read_length header;
                 len = unat declared in
             if len < MIN_RECORD_LEN then Inl (Err (InvalidLength declared))
             else
               (case StreamId_new (read_stream_id header) of
                  Err error \<Rightarrow> Inl (Err (InvalidStreamId error))
                | _ \<Rightarrow> Inr len)))"

function prepare_loop ::
    "crc_fun \<Rightarrow> bytes \<Rightarrow> nat \<Rightarrow> nat option \<Rightarrow>
     (unit, RecordReadError) outcome \<times> nat \<times> nat option" where
  "prepare_loop crc32c buffer validated_len pending =
     (let remaining = drop validated_len buffer in
      case next_length remaining pending of
        Inl validation \<Rightarrow> (validation, validated_len, pending)
      | Inr len \<Rightarrow>
          if length remaining < len then (Ok (), validated_len, Some len)
          else
            (let frame = take len remaining in
             if length frame < CRC_LEN then (Stop Undefined, validated_len, Some len)
             else
               (let stored = read_crc frame in
                case compute_crc crc32c frame of
                  None \<Rightarrow> (Stop Panic, validated_len, Some len)
                | Some computed \<Rightarrow>
                    if stored \<noteq> computed
                    then (Err (CrcMismatch stored computed), validated_len, Some len)
                    else prepare_loop crc32c buffer (validated_len + len) None)))"
  by pat_completeness auto
termination
  by (relation "measure (\<lambda>(c, buffer, v, p). length buffer - v)") (auto simp: layout)

declare prepare_loop.simps [simp del]

definition prepare_batch ::
    "crc_fun \<Rightarrow> 'h RecordReader \<Rightarrow> (bool, RecordReadError) outcome \<times> 'h RecordReader" where
  "prepare_batch crc32c self =
     (case prepare_loop crc32c (rd_buffer self) 0 (rd_pending_length self) of
        (validation, validated_len, pending) \<Rightarrow>
          (let self = self\<lparr>rd_pending_length := pending\<rparr> in
           case validation of
             Stop s \<Rightarrow> (Stop s, self)
           | _ \<Rightarrow>
               if validated_len = 0
               then ((case validation of Ok _ \<Rightarrow> Ok False | Err x \<Rightarrow> Err x | Stop s \<Rightarrow> Stop s), self)
               else (Ok True,
                     self\<lparr>rd_batch := take validated_len (rd_buffer self),
                          rd_buffer := drop validated_len (rd_buffer self),
                          rd_batch_offset := 0\<rparr>)))"

subsection \<open>Waiting for a batch\<close>

text \<open>
  The panic is the underflow of \<^verbatim>\<open>required - self.buffer.len()\<close>. Dropping the future keeps the
  reader as it is: a cancelled wait returns the received bytes and the validated header length.
\<close>

function wait_loop ::
    "crc_fun \<Rightarrow> 'h RecordReader \<Rightarrow> 'h env \<Rightarrow>
     (bool, RecordReadError) outcome \<times> 'h RecordReader \<times> 'h env" where
  "wait_loop crc32c self e =
     (case prepare_batch crc32c self of
        (Stop s, self) \<Rightarrow> (Stop s, self, e)
      | (Err error, self) \<Rightarrow> (Err error, self\<lparr>rd_state := StateFailed\<rparr>, e)
      | (Ok ready, self) \<Rightarrow>
          if ready then (Ok True, self, e)
          else
            (let required = (case rd_pending_length self of Some len \<Rightarrow> len | None \<Rightarrow> HEADER_LEN) in
             if required < length (rd_buffer self) then (Stop Panic, self, e)
             else
               (case bytes_call
                       (ReadBuf (rd_source self) (required - length (rd_buffer self))) e of
                  (Ok received, e') \<Rightarrow>
                    if received = [] then
                      (if rd_buffer self = []
                       then (Ok False, self\<lparr>rd_state := StateFinished\<rparr>, e')
                       else
                         (Err (case rd_pending_length self of
                                 Some expected \<Rightarrow> TruncatedRecord expected (length (rd_buffer self))
                               | None \<Rightarrow> TruncatedHeader (length (rd_buffer self))),
                          self\<lparr>rd_state := StateFailed\<rparr>, e'))
                    else wait_loop crc32c (self\<lparr>rd_buffer := rd_buffer self @ received\<rparr>) e'
                | (Err error, e') \<Rightarrow>
                    if error = Interrupted then wait_loop crc32c self e'
                    else (Err (ReadIo error), self\<lparr>rd_state := StateFailed\<rparr>, e')
                | (Stop s, e') \<Rightarrow> (Stop s, self, e'))))"
  by pat_completeness auto
termination
  by (relation "measure (\<lambda>(c, r, e). length (script e))")
     (auto dest!: typed_call_shrinks [OF sym])

declare wait_loop.simps [simp del]

definition wait_to_read ::
    "crc_fun \<Rightarrow> 'h RecordReader \<Rightarrow> 'h env \<Rightarrow>
     (bool, RecordReadError) outcome \<times> 'h RecordReader \<times> 'h env" where
  "wait_to_read crc32c self e =
     (case rd_state self of
        StateFinished \<Rightarrow> (Ok False, self, e)
      | StateFailed \<Rightarrow> (Err ReaderFailed, self, e)
      | StateActive \<Rightarrow>
          if rd_batch self \<noteq> [] then (Ok True, self, e) else wait_loop crc32c self e)"

subsection \<open>Specification: the valid prefix of a byte stream\<close>

datatype frame_check = NeedMore | BadFrame RecordReadError | GoodFrame nat

definition check_frame :: "crc_fun \<Rightarrow> bytes \<Rightarrow> frame_check" where
  "check_frame c bs =
     (if length bs < 12 then NeedMore
      else
        (let header = take 12 bs; len = unat (read_length header) in
         if len < 16 then BadFrame (InvalidLength (read_length header))
         else if 4095 < read_stream_id header
         then BadFrame (InvalidStreamId (StreamIdError (read_stream_id header)))
         else if length bs < len then NeedMore
         else if valid_frame c (take len bs) then GoodFrame len
         else BadFrame (CrcMismatch (read_crc (take len bs)) (c (take (len - 4) bs)))))"

lemma check_frame_Good:
  assumes "check_frame c bs = GoodFrame n"
  shows "16 \<le> n \<and> n \<le> length bs \<and> valid_frame c (take n bs) \<and>
    n = unat (read_length (take 12 bs))"
  using assms by (auto simp: check_frame_def Let_def split: if_splits)

function parse_frames :: "crc_fun \<Rightarrow> bytes \<Rightarrow> bytes list \<times> frame_check" where
  "parse_frames c bs =
     (case check_frame c bs of
        GoodFrame n \<Rightarrow> (case parse_frames c (drop n bs) of (fs, t) \<Rightarrow> (take n bs # fs, t))
      | t \<Rightarrow> ([], t))"
  by pat_completeness auto
termination
  by (relation "measure (\<lambda>(c, bs). length bs)") (auto dest: check_frame_Good)

declare parse_frames.simps [simp del]

definition all_valid :: "crc_fun \<Rightarrow> bytes list \<Rightarrow> bool" where
  "all_valid c fs \<longleftrightarrow> (\<forall>f\<in>set fs. valid_frame c f)"

lemma all_valid_simps [simp]:
  "all_valid c []" "all_valid c (f # fs) \<longleftrightarrow> valid_frame c f \<and> all_valid c fs"
  "all_valid c (fs @ gs) \<longleftrightarrow> all_valid c fs \<and> all_valid c gs"
  by (auto simp: all_valid_def)

lemma check_frame_valid:
  assumes v: "valid_frame c f"
  shows "check_frame c (f @ rest) = GoodFrame (length f)"
proof -
  have len: "16 \<le> length f" and n: "unat (read_length (take 12 f)) = length f"
    and s: "read_stream_id (take 12 f) \<le> 4095"
    using v by (auto simp: valid_frame_def header_unchecked_def valid_stream_def layout)
  then show ?thesis using v by (auto simp: check_frame_def Let_def not_less)
qed

lemma parse_frames_valid_Cons:
  "valid_frame c f \<Longrightarrow>
   parse_frames c (f @ rest) = (f # fst (parse_frames c rest), snd (parse_frames c rest))"
  by (subst parse_frames.simps) (simp add: check_frame_valid split: prod.splits)

lemma parse_frames_concat:
  "all_valid c fs \<Longrightarrow>
   parse_frames c (concat fs @ rest) = (fs @ fst (parse_frames c rest), snd (parse_frames c rest))"
  by (induction fs) (simp_all add: parse_frames_valid_Cons)

lemma parse_frames_sound:
  "parse_frames c bs = (fs, t) \<Longrightarrow>
   all_valid c fs \<and> (\<exists>rest. bs = concat fs @ rest \<and> check_frame c rest = t \<and> (\<forall>n. t \<noteq> GoodFrame n))"
proof (induction c bs arbitrary: fs t rule: parse_frames.induct)
  case (1 c bs)
  show ?case
  proof (cases "check_frame c bs")
    case (GoodFrame n)
    obtain gs t' where rec: "parse_frames c (drop n bs) = (gs, t')" by fastforce
    then have "fs = take n bs # gs" "t = t'"
      using "1.prems" GoodFrame by (simp_all add: parse_frames.simps [of c bs])
    with "1.IH" [OF GoodFrame rec] check_frame_Good [OF GoodFrame] show ?thesis
      by (auto, metis append_take_drop_id)
  qed (use "1.prems" in \<open>auto simp: parse_frames.simps [of c bs]\<close>)
qed

lemma check_frame_Nil [simp]: "check_frame c [] = NeedMore"
  by (simp add: check_frame_def)

lemma parse_frames_Nil [simp]: "parse_frames c [] = ([], NeedMore)"
  by (simp add: parse_frames.simps)

subsection \<open>The invariant of the reader\<close>

text \<open>
  A pending length belongs to the frame at the start of the buffer, whose header has been
  checked. The unread part of the batch is a nonempty sequence of valid frames.
\<close>

definition pending_ok :: "bytes \<Rightarrow> nat option \<Rightarrow> bool" where
  "pending_ok rem pending \<longleftrightarrow>
     (case pending of
        None \<Rightarrow> True
      | Some l \<Rightarrow> 12 \<le> length rem \<and> l = unat (read_length (take 12 rem)) \<and> 16 \<le> l \<and>
          read_stream_id (take 12 rem) \<le> 4095)"

definition reader_inv :: "crc_fun \<Rightarrow> 'h RecordReader \<Rightarrow> bool" where
  "reader_inv c r \<longleftrightarrow>
     pending_ok (rd_buffer r) (rd_pending_length r) \<and>
     (if rd_batch r = [] then rd_batch_offset r = 0
      else rd_batch_offset r < length (rd_batch r) \<and>
           (\<exists>fs. all_valid c fs \<and> drop (rd_batch_offset r) (rd_batch r) = concat fs))"

definition unread :: "'h RecordReader \<Rightarrow> bytes" where
  "unread r = drop (rd_batch_offset r) (rd_batch r) @ rd_buffer r"

lemma reader_inv_new [simp]: "reader_inv c (RecordReader_new h)"
  by (simp add: reader_inv_def RecordReader_new_def pending_ok_def)

lemma unread_new [simp]: "unread (RecordReader_new h) = []"
  by (simp add: unread_def RecordReader_new_def)

text \<open>How the validating loop can stop: at an incomplete frame or at an invalid one.\<close>

definition loop_stops ::
    "crc_fun \<Rightarrow> bytes \<Rightarrow> (unit, RecordReadError) outcome \<Rightarrow> nat option \<Rightarrow> bool" where
  "loop_stops c rem r pending \<longleftrightarrow>
     check_frame c rem = NeedMore \<and> r = Ok () \<and>
       length rem < (case pending of None \<Rightarrow> HEADER_LEN | Some l \<Rightarrow> l) \<or>
     (\<exists>x. check_frame c rem = BadFrame x \<and> r = Err x)"

lemma next_length_Inl:
  "pending_ok rem pending \<Longrightarrow> next_length rem pending = Inl r \<Longrightarrow> loop_stops c rem r pending"
  by (auto simp: next_length_def loop_stops_def check_frame_def Let_def layout StreamId_new_eq_Err
      StreamId_new_eq_Ok split: option.splits if_splits outcome.splits)

lemma next_length_Inr:
  "pending_ok rem pending \<Longrightarrow> next_length rem pending = Inr l \<Longrightarrow> pending_ok rem (Some l)"
  by (auto simp: next_length_def pending_ok_def Let_def layout StreamId_new_eq_Err
      StreamId_new_eq_Ok split: option.splits if_splits outcome.splits)

lemma check_frame_pending:
  assumes "pending_ok rem (Some l)"
  shows "check_frame c rem =
     (if length rem < l then NeedMore
      else if read_crc (take l rem) = c (take (l - 4) rem) then GoodFrame l
      else BadFrame (CrcMismatch (read_crc (take l rem)) (c (take (l - 4) rem))))"
proof -
  have l: "12 \<le> length rem" "unat (read_length (take 12 rem)) = l" "16 \<le> l"
      "read_stream_id (take 12 rem) \<le> 4095"
    using assms by (auto simp: pending_ok_def)
  have "l < 65536" using l(2) unat_lt2p [of "read_length (take 12 rem)"] by simp
  then have "valid_frame c (take l rem) \<longleftrightarrow> read_crc (take l rem) = c (take (l - 4) rem)"
    if "\<not> length rem < l"
    using l that by (auto simp: valid_frame_def header_unchecked_def compute_crc_def min_def
        valid_stream_def layout)
  with l show ?thesis by (simp add: check_frame_def Let_def not_less)
qed

text \<open>One turn of the loop at \<open>v\<close>: it stops there, or a valid frame is behind it.\<close>

lemma prepare_loop_turn:
  assumes pend: "pending_ok (drop v bs) pending"
  obtains (stops) r p' where "prepare_loop c bs v pending = (r, v, p')" "pending_ok (drop v bs) p'"
      "loop_stops c (drop v bs) r p'"
    | (frame) l where "next_length (drop v bs) pending = Inr l" "l \<le> length (drop v bs)" "16 \<le> l"
      "compute_crc c (take l (drop v bs)) = Some (read_crc (take l (drop v bs)))"
      "prepare_loop c bs v pending = prepare_loop c bs (v + l) None" "valid_frame c (take l (drop v bs))"
proof -
  let ?rem = "drop v bs"
  note turn = prepare_loop.simps [of c bs v]
  show ?thesis
  proof (cases "next_length ?rem pending")
    case (Inl q)
    then show ?thesis using pend next_length_Inl [OF pend Inl] by (intro stops [of q pending]) (simp_all add: turn)
  next
    case (Inr l)
    have ok: "pending_ok ?rem (Some l)" using next_length_Inr [OF pend Inr] .
    then have l: "16 \<le> l" by (simp add: pending_ok_def)
    note check = check_frame_pending [OF ok, of c]
    have step: "prepare_loop c bs v pending =
        (if read_crc (take l ?rem) \<noteq> c (take (l - 4) ?rem)
         then (Err (CrcMismatch (read_crc (take l ?rem)) (c (take (l - 4) ?rem))), v, Some l)
         else prepare_loop c bs (v + l) None)" if "\<not> length ?rem < l"
      using that l Inr by (simp add: turn compute_crc_def layout min_def Let_def)
    consider (short) "length ?rem < l"
      | (broken) "\<not> length ?rem < l" "read_crc (take l ?rem) \<noteq> c (take (l - 4) ?rem)"
      | (good) "\<not> length ?rem < l" "read_crc (take l ?rem) = c (take (l - 4) ?rem)" by blast
    then show ?thesis
    proof cases
      case short
      then show ?thesis using Inr ok check
        by (intro stops [of "Ok ()" "Some l"]) (simp_all add: turn loop_stops_def)
    next
      case broken
      note s = step [OF broken(1), unfolded if_P [OF broken(2)]]
      show ?thesis using broken check by (intro stops [OF s ok]) (simp add: loop_stops_def)
    next
      case good
      then have "check_frame c ?rem = GoodFrame l" using check by simp
      then have "valid_frame c (take l ?rem)" using check_frame_Good by blast
      moreover have "prepare_loop c bs v pending = prepare_loop c bs (v + l) None"
        using step [OF good(1)] good(2) by simp
      ultimately show ?thesis using good l
        by (intro frame [OF Inr]) (simp_all add: compute_crc_def layout min_def)
    qed
  qed
qed

lemma prepare_loop_spec:
  "prepare_loop c bs v pending = (r, v', p') \<Longrightarrow> pending_ok (drop v bs) pending \<Longrightarrow>
   v \<le> length bs \<Longrightarrow>
   \<exists>fs. all_valid c fs \<and> drop v bs = concat fs @ drop v' bs \<and> v' = v + length (concat fs) \<and>
     v' \<le> length bs \<and> pending_ok (drop v' bs) p' \<and> loop_stops c (drop v' bs) r p'"
proof (induction "length bs - v" arbitrary: v pending rule: less_induct)
  case less
  show ?case
  proof (rule prepare_loop_turn [OF less.prems(2), of c])
    fix r1 p1 assume "prepare_loop c bs v pending = (r1, v, p1)" "pending_ok (drop v bs) p1" "loop_stops c (drop v bs) r1 p1"
    then show ?thesis using less.prems by (intro exI [of _ "[]"]) simp
  next
    fix l assume l: "l \<le> length (drop v bs)" "16 \<le> l" and turn: "prepare_loop c bs v pending = prepare_loop c bs (v + l) None"
      and v: "valid_frame c (take l (drop v bs))"
    have "prepare_loop c bs (v + l) None = (r, v', p')" "pending_ok (drop (v + l) bs) None" "v + l \<le> length bs"
        "length bs - (v + l) < length bs - v"
      using less.prems l turn by (simp_all add: pending_ok_def)
    from less.hyps [OF this(4,1-3)] obtain fs where fs: "all_valid c fs" "drop (v + l) bs = concat fs @ drop v' bs"
        "v' = v + l + length (concat fs)" "v' \<le> length bs" "pending_ok (drop v' bs) p'" "loop_stops c (drop v' bs) r p'"
      by blast
    have "drop v bs = take l (drop v bs) @ drop (v + l) bs" by (metis add.commute append_take_drop_id drop_drop)
    then show ?thesis using fs v l by (intro exI [of _ "take l (drop v bs) # fs"]) auto
  qed
qed

lemma prepare_batch_spec:
  assumes inv: "pending_ok (rd_buffer r) (rd_pending_length r)"
    and p: "prepare_batch c r = (res, r')"
  shows "\<exists>fs rest q. all_valid c fs \<and> rd_buffer r = concat fs @ rest \<and> rd_buffer r' = rest \<and>
     pending_ok rest (rd_pending_length r') \<and> loop_stops c rest q (rd_pending_length r') \<and>
     rd_source r' = rd_source r \<and> rd_state r' = rd_state r \<and>
     (if fs = [] then res = (case q of Ok _ \<Rightarrow> Ok False | Err x \<Rightarrow> Err x | Stop s \<Rightarrow> Stop s) \<and>
          rd_batch r' = rd_batch r \<and> rd_batch_offset r' = rd_batch_offset r
      else res = Ok True \<and> rd_batch r' = concat fs \<and> rd_batch_offset r' = 0)"
proof -
  obtain q v p' where loop: "prepare_loop c (rd_buffer r) 0 (rd_pending_length r) = (q, v, p')"
    by (metis surj_pair)
  obtain fs where fs: "all_valid c fs" "rd_buffer r = concat fs @ drop v (rd_buffer r)"
      "v = length (concat fs)" "v \<le> length (rd_buffer r)" "pending_ok (drop v (rd_buffer r)) p'"
      "loop_stops c (drop v (rd_buffer r)) q p'"
    using prepare_loop_spec [OF loop] inv by auto
  have v0: "v = 0 \<longleftrightarrow> fs = []"
    using fs(1,3) by (cases fs) (auto dest: valid_frame_length_bounds)
  have tk: "take v (rd_buffer r) = concat fs" using fs(2,3) by (metis append_eq_conv_conj)
  have q: "\<And>s. q \<noteq> Stop s" using fs(6) by (auto simp: loop_stops_def)
  show ?thesis
    using fs v0 tk q loop p
    by (intro exI [of _ fs] exI [of _ "drop v (rd_buffer r)"] exI [of _ q])
       (cases q, auto simp: prepare_batch_def Let_def)
qed

subsection \<open>What a wait does\<close>

fun received_by :: "'h \<Rightarrow> 'h call \<times> 'h answer \<Rightarrow> bytes" where
  "received_by h (ReadBuf h' n, Ready (Bytes bs)) = (if h' = h then bs else [])"
| "received_by h _ = []"

definition received :: "'h \<Rightarrow> ('h call \<times> 'h answer) list \<Rightarrow> bytes" where
  "received h tr = concat (map (received_by h) tr)"

lemma received_simps [simp]:
  "received h [] = []" "received h (ev # tr) = received_by h ev @ received h tr"
  "received h (tr @ tr') = received h tr @ received h tr'"
  by (simp_all add: received_def)

lemma received_by_no_bytes: "\<forall>rp. b = Ready rp \<longrightarrow> as_bytes rp = None \<Longrightarrow> received_by h (cl, b) = []"
  by (induction h "(cl, b)" rule: received_by.induct) auto

definition reads_on :: "'h \<Rightarrow> ('h call \<times> 'h answer) list \<Rightarrow> bool" where
  "reads_on h evs \<longleftrightarrow> (\<forall>ev\<in>set evs. \<exists>n > 0. fst ev = ReadBuf h n)"

lemma reads_on_simps [simp]:
  "reads_on h []" "reads_on h (ev # evs) \<longleftrightarrow> (\<exists>n > 0. fst ev = ReadBuf h n) \<and> reads_on h evs"
  "reads_on h (evs @ evs') \<longleftrightarrow> reads_on h evs \<and> reads_on h evs'"
  by (auto simp: reads_on_def)

text \<open>End of input: the last call read zero bytes into nonempty capacity.\<close>

definition at_eof :: "'h \<Rightarrow> ('h call \<times> 'h answer) list \<Rightarrow> bool" where
  "at_eof h evs \<longleftrightarrow> (\<exists>tr n. n > 0 \<and> evs = tr @ [(ReadBuf h n, Ready (Bytes []))])"

text \<open>No call of a run reported the end of input.\<close>

definition no_eof :: "('h call \<times> 'h answer) list \<Rightarrow> bool" where
  "no_eof evs \<longleftrightarrow> (\<forall>ev\<in>set evs. snd ev \<noteq> Ready (Bytes []))"

lemma no_eof_simps [simp]:
  "no_eof []" "no_eof (ev # evs) \<longleftrightarrow> snd ev \<noteq> Ready (Bytes []) \<and> no_eof evs"
  by (auto simp: no_eof_def)

text \<open>The last call got no usable answer: the future was dropped while it was pending.\<close>

definition left_pending :: "'h \<Rightarrow> ('h call \<times> 'h answer) list \<Rightarrow> bool" where
  "left_pending h evs \<longleftrightarrow>
     (\<exists>tr n b. evs = tr @ [(ReadBuf h n, b)] \<and> (\<forall>bs. b \<noteq> Ready (Bytes bs)) \<and> (\<forall>x. b \<noteq> Failed x))"

text \<open>
  The errors a wait reports on the undelivered bytes \<open>rem\<close>: an invalid frame at their start, an
  incomplete frame at the end of input, or the source's own error.
\<close>

definition truncation :: "bytes \<Rightarrow> RecordReadError" where
  "truncation rem =
     (if length rem < 12 then TruncatedHeader (length rem)
      else TruncatedRecord (unat (read_length (take 12 rem))) (length rem))"

definition wait_error :: "crc_fun \<Rightarrow> 'h \<Rightarrow> bytes \<Rightarrow> ('h call \<times> 'h answer) list \<Rightarrow>
     RecordReadError \<Rightarrow> bool" where
  "wait_error c h rem evs x \<longleftrightarrow>
     check_frame c rem = BadFrame x \<or>
     check_frame c rem = NeedMore \<and> rem \<noteq> [] \<and> x = truncation rem \<and> at_eof h evs \<or>
     check_frame c rem = NeedMore \<and>
       (\<exists>y tr n. x = ReadIo y \<and> y \<noteq> Interrupted \<and> evs = tr @ [(ReadBuf h n, Failed y)])"

definition wait_post ::
    "crc_fun \<Rightarrow> 'h RecordReader \<Rightarrow> (bool, RecordReadError) outcome \<Rightarrow>
     ('h call \<times> 'h answer) list \<Rightarrow> bool" where
  "wait_post c r res evs \<longleftrightarrow>
     (case res of
        Ok True \<Rightarrow> rd_batch r \<noteq> [] \<and> rd_state r = StateActive
      | Ok False \<Rightarrow> unread r = [] \<and> rd_batch r = [] \<and> rd_state r = StateFinished \<and> at_eof (rd_source r) evs
      | Err x \<Rightarrow> rd_batch r = [] \<and> rd_state r = StateFailed \<and>
          wait_error c (rd_source r) (unread r) evs x
      | Stop s \<Rightarrow> s = Cancelled \<and> rd_batch r = [] \<and> rd_state r = StateActive \<and>
          left_pending (rd_source r) evs)"

lemma at_eof_Cons: "at_eof h evs \<Longrightarrow> at_eof h (ev # evs)"
  unfolding at_eof_def by (metis append_Cons)

lemma left_pending_Cons: "left_pending h evs \<Longrightarrow> left_pending h (ev # evs)"
  unfolding left_pending_def by (metis append_Cons)

lemma wait_error_Cons: "wait_error c h rem evs x \<Longrightarrow> wait_error c h rem (ev # evs) x"
  unfolding wait_error_def using at_eof_Cons by (metis append_Cons)

lemma wait_post_Cons: "wait_post c r res evs \<Longrightarrow> wait_post c r res (ev # evs)"
  by (auto simp: wait_post_def at_eof_Cons left_pending_Cons wait_error_Cons
      split: outcome.splits bool.splits)

lemma loop_stops_NeedMore:
  assumes "pending_ok rem pending" and "loop_stops c rem (Ok ()) pending"
  shows "check_frame c rem = NeedMore" and "length rem < (case pending of None \<Rightarrow> HEADER_LEN | Some l \<Rightarrow> l)"
    and "(case pending of Some expected \<Rightarrow> TruncatedRecord expected (length rem)
          | None \<Rightarrow> TruncatedHeader (length rem)) = truncation rem"
  using assms by (auto simp: loop_stops_def truncation_def pending_ok_def layout split: option.splits)

lemma pending_ok_append: "pending_ok rem pending \<Longrightarrow> pending_ok (rem @ rest) pending"
  by (auto simp: pending_ok_def split: option.splits)

text \<open>
  What a wait from \<open>r\<close> and \<open>e\<close> has done when it returns. The bytes of \<open>unread\<close> are those left in
  the batch and the buffer.
\<close>

definition waited ::
    "crc_fun \<Rightarrow> 'h RecordReader \<Rightarrow> 'h env \<Rightarrow> (bool, RecordReadError) outcome \<times> 'h RecordReader \<times> 'h env \<Rightarrow> bool" where
  "waited c r e z \<longleftrightarrow>
     (case z of (res, r', e') \<Rightarrow>
        \<exists>evs. trace e' = trace e @ evs \<and> reads_on (rd_source r) evs \<and> rd_source r' = rd_source r \<and>
          unread r' = unread r @ received (rd_source r) evs \<and> reader_inv c r' \<and> wait_post c r' res evs \<and>
          (res = Ok True \<longrightarrow> no_eof evs) \<and> no_eof (butlast evs))"

lemma waited_at_once:
  assumes "unread r' = unread r" "rd_source r' = rd_source r" "reader_inv c r'" "wait_post c r' res []"
  shows "waited c r e (res, r', e)"
  unfolding waited_def prod.case using assms by (intro exI [of _ "[]"]) simp

lemma waited_one_call:
  assumes "trace e' = trace e @ [(ReadBuf (rd_source r) n, a)]" "0 < n" "rd_source r' = rd_source r"
    and "received_by (rd_source r) (ReadBuf (rd_source r) n, a) = []" "unread r' = unread r" "reader_inv c r'"
    and "wait_post c r' res [(ReadBuf (rd_source r) n, a)]" "res \<noteq> Ok True"
  shows "waited c r e (res, r', e')"
  unfolding waited_def prod.case using assms by (intro exI [of _ "[(ReadBuf (rd_source r) n, a)]"]) simp

lemma waited_call:
  assumes later: "waited c r1 e1 z" and src: "rd_source r1 = rd_source r"
    and call: "trace e1 = trace e @ [(ReadBuf (rd_source r) n, a)]" "0 < n" "a \<noteq> Ready (Bytes [])"
    and got: "unread r1 = unread r @ received_by (rd_source r) (ReadBuf (rd_source r) n, a)"
  shows "waited c r e z"
proof -
  obtain res r' e' where z: "z = (res, r', e')" by (metis surj_pair)
  obtain evs where "trace e' = trace e1 @ evs" "reads_on (rd_source r) evs" "rd_source r' = rd_source r"
      "unread r' = unread r1 @ received (rd_source r) evs" "reader_inv c r'" "wait_post c r' res evs"
      "res = Ok True \<longrightarrow> no_eof evs" "no_eof (butlast evs)"
    using later unfolding waited_def z src by auto
  then show ?thesis unfolding waited_def z prod.case using call got
    by (intro exI [of _ "(ReadBuf (rd_source r) n, a) # evs"]) (auto simp: wait_post_Cons)
qed

text \<open>
  A run of calls without a failure: each was answered, or interrupted and made again.  Of the waits
  only those that stop or report the source's error have another call behind them.
\<close>

definition undisturbed :: "('h call \<times> 'h answer) list \<Rightarrow> bool" where
  "undisturbed evs \<longleftrightarrow> (\<forall>ev\<in>set evs. (\<exists>r. snd ev = Ready r) \<or> snd ev = Failed Interrupted)"

lemma undisturbed_simps [simp]:
  "undisturbed []" "undisturbed (ev # evs) \<longleftrightarrow> ((\<exists>r. snd ev = Ready r) \<or> snd ev = Failed Interrupted) \<and> undisturbed evs"
  "undisturbed (evs @ evs') \<longleftrightarrow> undisturbed evs \<and> undisturbed evs'"
  by (auto simp: undisturbed_def)

lemma wait_loop_undisturbed:
  "wait_loop c r e = (res, r', e') \<Longrightarrow> \<exists>evs. trace e' = trace e @ evs \<and>
     (undisturbed evs \<or> (\<exists>s. res = Stop s) \<or> (\<exists>x. res = Err (ReadIo x)))"
proof (induction c r e rule: wait_loop.induct)
  case (1 c r e)
  obtain ready r1 where p: "prepare_batch c r = (ready, r1)" by fastforce
  let ?required = "case rd_pending_length r1 of Some len \<Rightarrow> len | None \<Rightarrow> HEADER_LEN"
  show ?case
  proof (cases "ready = Ok False \<and> \<not> ?required < length (rd_buffer r1)")
    case False
    then have "e' = e" using "1.prems" p
      by (auto simp: wait_loop.simps [of c r e] split: outcome.splits if_splits)
    then show ?thesis by simp
  next
    case True
    obtain a e1 where call: "bytes_call (ReadBuf (rd_source r1) (?required - length (rd_buffer r1))) e = (a, e1)"
      by fastforce
    note turn = "1.prems" [unfolded wait_loop.simps [of c r e] p prod.case True [THEN conjunct1] outcome.case if_False
        Let_def if_not_P [OF True [THEN conjunct2]] call]
    note again = "1.IH" [OF p [symmetric] True [THEN conjunct1] _ refl True [THEN conjunct2] call [symmetric]]
    consider (got) xs where "a = Ok xs" "xs \<noteq> []" | (eof) "a = Ok []" | (retry) "a = Err Interrupted"
      | (failed) x where "a = Err x" "x \<noteq> Interrupted" | (stop) s where "a = Stop s" by (cases a) auto
    then show ?thesis
    proof cases
      case got
      then show ?thesis using again(1) [OF _ got(1)] turn typed_call_Ok [OF call [unfolded got(1)]] by auto
    next
      case eof
      then show ?thesis using turn typed_call_Ok [OF call [unfolded eof]] by (auto split: if_splits)
    next
      case retry
      then show ?thesis using again(2) [OF _ retry] turn typed_call_Err [OF call [unfolded retry]] by auto
    next
      case failed
      then show ?thesis using turn typed_call_trace [OF call] by auto
    next
      case stop
      then show ?thesis using turn typed_call_trace [OF call] by auto
    qed
  qed
qed

lemma wait_to_read_undisturbed:
  "wait_to_read c r e = (res, r', e') \<Longrightarrow> \<exists>evs. trace e' = trace e @ evs \<and>
     (undisturbed evs \<or> (\<exists>s. res = Stop s) \<or> (\<exists>x. res = Err (ReadIo x)))"
  using wait_loop_undisturbed [of c r e res r' e'] by (auto simp: wait_to_read_def split: ReaderState.splits if_splits)

text \<open>The parsing step of a turn: it decides the wait, or the buffer holds an incomplete frame.\<close>

lemma wait_loop_parses:
  assumes ok: "pending_ok (rd_buffer r) (rd_pending_length r)" "rd_batch r = []" "rd_batch_offset r = 0"
      "rd_state r = StateActive"
    and p: "prepare_batch c r = (ready, r1)"
  obtains (batch) "ready = Ok True" "waited c r e (Ok True, r1, e)"
    | (bad) x where "ready = Err x" "waited c r e (Err x, r1\<lparr>rd_state := StateFailed\<rparr>, e)"
    | (more) "ready = Ok False" "check_frame c (rd_buffer r1) = NeedMore" "unread r = rd_buffer r1"
        "rd_batch r1 = []" "rd_batch_offset r1 = 0" "rd_state r1 = StateActive" "rd_source r1 = rd_source r"
        "pending_ok (rd_buffer r1) (rd_pending_length r1)"
        "loop_stops c (rd_buffer r1) (Ok ()) (rd_pending_length r1)"
proof -
  obtain fs q where fs: "all_valid c fs" "rd_buffer r = concat fs @ rd_buffer r1"
      "pending_ok (rd_buffer r1) (rd_pending_length r1)" "loop_stops c (rd_buffer r1) q (rd_pending_length r1)"
      "rd_source r1 = rd_source r" "rd_state r1 = rd_state r"
    and res: "if fs = [] then ready = (case q of Ok _ \<Rightarrow> Ok False | Err x \<Rightarrow> Err x | Stop s \<Rightarrow> Stop s) \<and>
          rd_batch r1 = rd_batch r \<and> rd_batch_offset r1 = rd_batch_offset r
      else ready = Ok True \<and> rd_batch r1 = concat fs \<and> rd_batch_offset r1 = 0"
    using prepare_batch_spec [OF ok(1) p] by metis
  have un: "unread r1 = unread r" using fs res ok by (auto simp: unread_def split: if_splits)
  have ne: "concat fs \<noteq> []" if "fs \<noteq> []"
    using fs(1) that by (cases fs) (auto dest: valid_frame_length_bounds)
  then have inv: "reader_inv c r1" using fs res ok by (auto simp: reader_inv_def split: if_splits)
  consider (some) "fs \<noteq> []" | (broken) x where "fs = []" "check_frame c (rd_buffer r1) = BadFrame x" "q = Err x"
    | (short) "fs = []" "q = Ok ()"
    using fs(4) by (auto simp: loop_stops_def)
  then show ?thesis
  proof cases
    case some
    then show ?thesis using un fs res ok inv ne by (intro batch waited_at_once) (simp_all add: wait_post_def)
  next
    case broken
    then have "ready = Err x" "unread r1 = rd_buffer r1" using res ok by (simp_all add: unread_def)
    then show ?thesis using un inv fs res ok broken
      by (intro bad [of x] waited_at_once)
         (simp_all add: wait_post_def wait_error_def reader_inv_def unread_def)
  next
    case short
    then have "check_frame c (rd_buffer r1) = NeedMore" using loop_stops_NeedMore(1) fs(3,4) by blast
    then show ?thesis using un fs res ok short by (intro more) (simp_all add: unread_def)
  qed
qed

text \<open>
  What the loop does with the answer to its read.  An interrupted read and one that brought bytes
  go on, with the bytes behind the buffered ones; every other answer ends the wait.
\<close>

definition wait_answer ::
    "crc_fun \<Rightarrow> 'h RecordReader \<Rightarrow> 'h env \<Rightarrow> (bytes, io_error) outcome \<Rightarrow>
     (bool, RecordReadError) outcome \<times> 'h RecordReader \<times> 'h env" where
  "wait_answer c r1 e1 a = (case a of
      Ok got \<Rightarrow> if got = [] then (if rd_buffer r1 = [] then (Ok False, r1\<lparr>rd_state := StateFinished\<rparr>, e1)
          else (Err (truncation (rd_buffer r1)), r1\<lparr>rd_state := StateFailed\<rparr>, e1))
        else wait_loop c (r1\<lparr>rd_buffer := rd_buffer r1 @ got\<rparr>) e1
    | Err x \<Rightarrow> if x = Interrupted then wait_loop c r1 e1
        else (Err (ReadIo x), r1\<lparr>rd_state := StateFailed\<rparr>, e1)
    | Stop s \<Rightarrow> (Stop s, r1, e1))"

definition goes_on_with :: "(bytes, io_error) outcome \<Rightarrow> bool" where
  "goes_on_with a = (case a of Ok got \<Rightarrow> got \<noteq> [] | Err x \<Rightarrow> x = Interrupted | Stop s \<Rightarrow> False)"

definition fed_with :: "(bytes, io_error) outcome \<Rightarrow> 'h RecordReader \<Rightarrow> 'h RecordReader" where
  "fed_with a r1 = (case a of Ok got \<Rightarrow> r1\<lparr>rd_buffer := rd_buffer r1 @ got\<rparr> | _ \<Rightarrow> r1)"

lemma fed_with_other_fields [simp]:
  "rd_batch (fed_with a r1) = rd_batch r1" "rd_batch_offset (fed_with a r1) = rd_batch_offset r1"
  "rd_state (fed_with a r1) = rd_state r1" "rd_source (fed_with a r1) = rd_source r1"
  "rd_pending_length (fed_with a r1) = rd_pending_length r1"
  by (simp_all add: fed_with_def split: outcome.splits)

lemma wait_answer_goes_on:
  assumes call: "bytes_call (ReadBuf (rd_source r) n) e = (a, e1)" and a: "goes_on_with a" and n: "0 < n"
    and src: "rd_source r1 = rd_source r" and un: "unread r = rd_buffer r1" and b: "rd_batch r1 = []"
    and pend: "pending_ok (rd_buffer r1) (rd_pending_length r1)"
  shows "\<exists>b. wait_answer c r1 e1 a = wait_loop c (fed_with a r1) e1 \<and>
     trace e1 = trace e @ [(ReadBuf (rd_source r) n, b)] \<and> b \<noteq> Ready (Bytes []) \<and>
     length (script e1) < length (script e) \<and>
     pending_ok (rd_buffer (fed_with a r1)) (rd_pending_length (fed_with a r1)) \<and>
     unread (fed_with a r1) = unread r @ received_by (rd_source r) (ReadBuf (rd_source r) n, b)"
proof (cases a)
  case (Ok got)
  then show ?thesis using typed_call_Ok [OF call [unfolded Ok]] typed_call_shrinks [OF call] a un b pend
    by (intro exI [of _ "Ready (Bytes got)"])
       (auto simp: wait_answer_def goes_on_with_def fed_with_def pending_ok_append unread_def)
next
  case (Err x)
  then show ?thesis using typed_call_Err [OF call [unfolded Err]] typed_call_shrinks [OF call] a un b pend
    by (intro exI [of _ "Failed x"]) (auto simp: wait_answer_def goes_on_with_def fed_with_def unread_def)
qed (use a in \<open>simp add: goes_on_with_def\<close>)

lemma wait_answer_returns:
  assumes call: "bytes_call (ReadBuf (rd_source r) n) e = (a, e1)" and a: "\<not> goes_on_with a" and n: "0 < n"
    and r1: "rd_batch r1 = []" "rd_batch_offset r1 = 0" "rd_state r1 = StateActive" "rd_source r1 = rd_source r"
    and un: "unread r = rd_buffer r1" and nm: "check_frame c (rd_buffer r1) = NeedMore"
    and pend: "pending_ok (rd_buffer r1) (rd_pending_length r1)"
  shows "waited c r e (wait_answer c r1 e1 a)"
proof -
  note one = waited_one_call [where r = r and e = e and n = n and e' = e1 and c = c, OF _ n]
  show ?thesis
  proof (cases a)
    case (Ok got)
    then have a: "a = Ok []" using a by (simp add: goes_on_with_def)
    have t: "trace e1 = trace e @ [(ReadBuf (rd_source r) n, Ready (Bytes []))]"
      using typed_call_Ok [OF call [unfolded a]] by auto
    then have "at_eof (rd_source r) [(ReadBuf (rd_source r) n, Ready (Bytes []))]" using n by (auto simp: at_eof_def)
    then show ?thesis unfolding a wait_answer_def using r1 un nm pend
      by (auto intro!: one [OF t] simp: wait_post_def wait_error_def reader_inv_def unread_def)
  next
    case (Err x)
    have t: "trace e1 = trace e @ [(ReadBuf (rd_source r) n, Failed x)]"
      using typed_call_Err [OF call [unfolded Err]] .
    show ?thesis unfolding Err wait_answer_def using a [unfolded Err] r1 un nm pend
      by (auto intro!: one [OF t] simp: wait_post_def wait_error_def reader_inv_def unread_def goes_on_with_def)
  next
    case (Stop s)
    obtain b where b: "s = Cancelled" "trace e1 = trace e @ [(ReadBuf (rd_source r) n, b)]"
        "\<forall>rp. b = Ready rp \<longrightarrow> as_bytes rp = None" "\<forall>x. b \<noteq> Failed x"
      using typed_call_Stop [OF call [unfolded Stop]] by blast
    have "b \<noteq> Ready (Bytes bs)" for bs using b(3) by auto
    then have "left_pending (rd_source r) [(ReadBuf (rd_source r) n, b)]" using b(4) by (auto simp: left_pending_def)
    then show ?thesis unfolding Stop wait_answer_def using r1 un pend b(1) received_by_no_bytes [OF b(3)]
      by (auto intro!: one [OF b(2)] simp: wait_post_def reader_inv_def unread_def)
  qed
qed

text \<open>One turn of the loop: it returns, or a call has been answered and the loop goes on.\<close>

lemma wait_loop_turn:
  assumes ok: "pending_ok (rd_buffer r) (rd_pending_length r)" "rd_batch r = []" "rd_batch_offset r = 0"
      "rd_state r = StateActive"
  obtains (returns) "waited c r e (wait_loop c r e)"
    | (goes_on) r2 e1 n a where "wait_loop c r e = wait_loop c r2 e1" "length (script e1) < length (script e)"
        "pending_ok (rd_buffer r2) (rd_pending_length r2)" "rd_batch r2 = []" "rd_batch_offset r2 = 0"
        "rd_state r2 = StateActive" "rd_source r2 = rd_source r"
        "trace e1 = trace e @ [(ReadBuf (rd_source r) n, a)]" "0 < n" "a \<noteq> Ready (Bytes [])"
        "unread r2 = unread r @ received_by (rd_source r) (ReadBuf (rd_source r) n, a)"
proof -
  obtain ready r1 where p: "prepare_batch c r = (ready, r1)" by fastforce
  show ?thesis
  proof (rule wait_loop_parses [OF ok p, of e])
    assume "ready = Ok True" "waited c r e (Ok True, r1, e)"
    then show ?thesis using p by (intro returns) (simp add: wait_loop.simps [of c r e])
  next
    fix x assume "ready = Err x" "waited c r e (Err x, r1\<lparr>rd_state := StateFailed\<rparr>, e)"
    then show ?thesis using p by (intro returns) (simp add: wait_loop.simps [of c r e])
  next
    let ?rest = "rd_buffer r1"
    assume ready: "ready = Ok False" and nm: "check_frame c ?rest = NeedMore" and un: "unread r = ?rest"
      and r1: "rd_batch r1 = []" "rd_batch_offset r1 = 0" "rd_state r1 = StateActive" "rd_source r1 = rd_source r"
      and pend: "pending_ok ?rest (rd_pending_length r1)"
      and stops: "loop_stops c ?rest (Ok ()) (rd_pending_length r1)"
    let ?n = "(case rd_pending_length r1 of Some len \<Rightarrow> len | None \<Rightarrow> HEADER_LEN) - length ?rest"
    have n: "0 < ?n" using loop_stops_NeedMore(2) [OF pend stops] by (cases "rd_pending_length r1") auto
    obtain a e1 where call: "bytes_call (ReadBuf (rd_source r) ?n) e = (a, e1)" by fastforce
    have step: "wait_loop c r e = wait_answer c r1 e1 a"
      using p ready call r1(4) n loop_stops_NeedMore(3) [OF pend stops]
      by (subst wait_loop.simps) (cases "rd_pending_length r1"; simp add: wait_answer_def Let_def split: outcome.splits)
    consider (more) "goes_on_with a" | (last) "\<not> goes_on_with a" by blast
    then show ?thesis
    proof cases
      case more
      from wait_answer_goes_on [OF call this n r1(4) un r1(1) pend] obtain b where
        "wait_answer c r1 e1 a = wait_loop c (fed_with a r1) e1"
        "trace e1 = trace e @ [(ReadBuf (rd_source r) ?n, b)]" "b \<noteq> Ready (Bytes [])"
        "length (script e1) < length (script e)"
        "pending_ok (rd_buffer (fed_with a r1)) (rd_pending_length (fed_with a r1))"
        "unread (fed_with a r1) = unread r @ received_by (rd_source r) (ReadBuf (rd_source r) ?n, b)" by blast
      then show ?thesis using r1 n
        by (intro goes_on [of "fed_with a r1" e1 ?n b]) (simp_all add: step)
    next
      case last
      show ?thesis using wait_answer_returns [OF call last n r1 un nm pend] by (intro returns) (simp add: step)
    qed
  qed
qed

lemma wait_loop_waited:
  "pending_ok (rd_buffer r) (rd_pending_length r) \<Longrightarrow> rd_batch r = [] \<Longrightarrow> rd_batch_offset r = 0 \<Longrightarrow>
   rd_state r = StateActive \<Longrightarrow> waited c r e (wait_loop c r e)"
proof (induction "length (script e)" arbitrary: r e rule: less_induct)
  case less
  show ?case
  proof (rule wait_loop_turn [OF less.prems, of c e])
    fix r2 e1 n a
    assume turn: "wait_loop c r e = wait_loop c r2 e1" and "length (script e1) < length (script e)"
        "pending_ok (rd_buffer r2) (rd_pending_length r2)" "rd_batch r2 = []" "rd_batch_offset r2 = 0"
        "rd_state r2 = StateActive"
      and call: "rd_source r2 = rd_source r" "trace e1 = trace e @ [(ReadBuf (rd_source r) n, a)]" "0 < n"
        "a \<noteq> Ready (Bytes [])" "unread r2 = unread r @ received_by (rd_source r) (ReadBuf (rd_source r) n, a)"
    then have "waited c r2 e1 (wait_loop c r2 e1)" by (intro less.hyps)
    then show ?thesis unfolding turn by (rule waited_call [OF _ call])
  qed
qed

lemma wait_to_read_spec:
  assumes w: "wait_to_read c r e = (res, r', e')" and inv: "reader_inv c r"
    and st: "rd_state r = StateActive"
  shows "\<exists>evs. trace e' = trace e @ evs \<and> reads_on (rd_source r) evs \<and> rd_source r' = rd_source r \<and>
     unread r' = unread r @ received (rd_source r) evs \<and> reader_inv c r' \<and> wait_post c r' res evs \<and>
     (res = Ok True \<longrightarrow> no_eof evs) \<and> no_eof (butlast evs)"
proof (cases "rd_batch r = []")
  case True
  then have "rd_batch_offset r = 0" "pending_ok (rd_buffer r) (rd_pending_length r)"
    using inv by (auto simp: reader_inv_def)
  moreover have "wait_loop c r e = (res, r', e')" using w st True by (simp add: wait_to_read_def)
  ultimately show ?thesis using wait_loop_waited [of r c e] True st by (simp add: waited_def)
next
  case False
  then have "res = Ok True" "r' = r" "e' = e" using w st by (simp_all add: wait_to_read_def)
  then show ?thesis using False st inv by (intro exI [of _ "[]"]) (simp add: wait_post_def)
qed

lemma wait_to_read_inactive:
  "rd_state r = StateFinished \<Longrightarrow> wait_to_read c r e = (Ok False, r, e)"
  "rd_state r = StateFailed \<Longrightarrow> wait_to_read c r e = (Err ReaderFailed, r, e)"
  by (simp_all add: wait_to_read_def)

subsection \<open>What draining does\<close>

text \<open>
  Draining takes the first frame of the unread bytes, never panics, and never reads outside the
  validated batch.
\<close>

lemma concat_valid_Cons:
  assumes "all_valid c fs" and "concat fs \<noteq> []"
  obtains f gs where "fs = f # gs" "valid_frame c f" "all_valid c gs"
  using assms by (cases fs) auto

lemma try_read_next_spec:
  assumes inv: "reader_inv c r" and st: "rd_state r \<noteq> StateFailed"
  shows "rd_batch r = [] \<and> try_read_next r = (Ok None, r) \<or>
    (\<exists>f r'. try_read_next r = (Ok (Some (from_validated_bytes f)), r') \<and> valid_frame c f \<and>
       unread r = f @ unread r' \<and> reader_inv c r' \<and> rd_state r' = rd_state r \<and>
       rd_source r' = rd_source r \<and> rd_buffer r' = rd_buffer r)"
proof (cases "rd_batch r = []")
  case True
  then show ?thesis using st by (simp add: try_read_next_def)
next
  case ne: False
  let ?o = "rd_batch_offset r" and ?b = "rd_batch r"
  obtain fs where o: "?o < length ?b" and fs: "all_valid c fs" "drop ?o ?b = concat fs"
    using inv ne by (auto simp: reader_inv_def)
  then have "concat fs \<noteq> []" by (metis drop_eq_Nil not_le)
  then obtain f gs where f: "fs = f # gs" "valid_frame c f" "all_valid c gs"
    using concat_valid_Cons [OF fs(1)] by metis
  have d: "drop ?o ?b = f @ concat gs" using fs f by simp
  have lf: "16 \<le> length f" "unat (read_length (take 12 f)) = length f"
    using f(2) by (auto simp: valid_frame_def header_unchecked_def layout)
  have hd: "unat (read_length (header_unchecked (drop ?o ?b))) = length f"
    using lf by (simp add: d header_unchecked_def layout)
  have lb: "length ?b = ?o + length f + length (concat gs)"
    using arg_cong [OF d, of length] o by simp
  have dd: "drop (?o + length f) ?b = concat gs" using d by (metis append_eq_conv_conj drop_drop add.commute)
  have long: "\<not> length (drop ?o ?b) < HEADER_LEN" using lf(1) d by (simp add: layout)
  show ?thesis
  proof (cases "concat gs = []")
    case True
    have df: "drop ?o ?b = f" and lb': "length ?b = ?o + length f"
      using d lb unfolding True by simp_all
    have hf: "unat (read_length (header_unchecked f)) = length f" using hd by (simp add: df)
    have "try_read_next r =
        (Ok (Some (from_validated_bytes f)), r\<lparr>rd_batch := [], rd_batch_offset := 0\<rparr>)"
      using ne st o hf lb' long by (simp add: try_read_next_def Let_def df)
    then show ?thesis using f inv df by (auto simp: unread_def reader_inv_def)
  next
    case False
    have "try_read_next r =
        (Ok (Some (from_validated_bytes f)), r\<lparr>rd_batch_offset := ?o + length f\<rparr>)"
      using ne st o hd lb long d False
      by (simp add: try_read_next_def Let_def del: concat_eq_Nil_conv)
    then show ?thesis using f inv d dd ne lb False
      by (auto simp: unread_def reader_inv_def length_greater_0_conv [symmetric] simp del: length_greater_0_conv)
  qed
qed

lemma try_read_next_terminal: "rd_state r = StateFailed \<Longrightarrow> try_read_next r = (Err ReaderFailed, r)"
  by (simp add: try_read_next_def)

subsection \<open>Runs of a reader\<close>

text \<open>
  A run is any sequence of the reader's two operations; \<open>out\<close> collects the records handed out.
\<close>

datatype reader_op = WaitToRead | TryReadNext

fun reader_step ::
    "crc_fun \<Rightarrow> reader_op \<Rightarrow> 'h RecordReader \<times> Record list \<times> 'h env \<Rightarrow>
     'h RecordReader \<times> Record list \<times> 'h env" where
  "reader_step c WaitToRead (r, out, e) =
     (case wait_to_read c r e of (_, r', e') \<Rightarrow> (r', out, e'))"
| "reader_step c TryReadNext (r, out, e) =
     (case try_read_next r of
        (Ok (Some record), r') \<Rightarrow> (r', out @ [record], e)
      | (_, r') \<Rightarrow> (r', out, e))"

definition reader_run ::
    "crc_fun \<Rightarrow> reader_op list \<Rightarrow> 'h RecordReader \<times> Record list \<times> 'h env \<Rightarrow>
     'h RecordReader \<times> Record list \<times> 'h env" where
  "reader_run c ops s = fold (reader_step c) ops s"

definition run_inv :: "crc_fun \<Rightarrow> 'h \<Rightarrow> 'h RecordReader \<times> Record list \<times> 'h env \<Rightarrow> bool" where
  "run_inv c h s \<longleftrightarrow>
     (case s of (r, out, e) \<Rightarrow>
        reader_inv c r \<and> rd_source r = h \<and> all_valid c (map record_bytes out) \<and>
        concat (map record_bytes out) @ unread r = received h (trace e))"

lemma record_bytes_from_validated [simp]: "record_bytes (from_validated_bytes f) = f"
  by (simp add: from_validated_bytes_def)

lemma reader_step_inv:
  assumes "run_inv c h s"
  shows "run_inv c h (reader_step c op s)"
proof -
  obtain r out e where s: "s = (r, out, e)" by (metis surj_pair)
  show ?thesis
  proof (cases op)
    case WaitToRead
    obtain res r' e' where w: "wait_to_read c r e = (res, r', e')" by (metis surj_pair)
    show ?thesis
    proof (cases "rd_state r = StateActive")
      case True
      then obtain evs where "trace e' = trace e @ evs" "reads_on (rd_source r) evs"
          "rd_source r' = rd_source r" "unread r' = unread r @ received (rd_source r) evs"
          "reader_inv c r'"
        using wait_to_read_spec [OF w] assms s by (auto simp: run_inv_def)
      then show ?thesis using assms s w WaitToRead by (simp add: run_inv_def flip: append_assoc)
    next
      case False
      then have "r' = r" "e' = e" using w by (cases "rd_state r"; simp add: wait_to_read_inactive)+
      then show ?thesis using assms s w WaitToRead by simp
    qed
  next
    case TryReadNext
    show ?thesis
    proof (cases "rd_state r = StateFailed")
      case True
      then show ?thesis using assms s TryReadNext by (simp add: try_read_next_terminal)
    next
      case False
      have "reader_inv c r" using assms s by (simp add: run_inv_def)
      from try_read_next_spec [OF this False] show ?thesis
        using assms s TryReadNext by (auto simp: run_inv_def)
    qed
  qed
qed

interpretation reader_runs: run_invariant "reader_step c" "\<lambda>_. True" "run_inv c h" for c h
  by unfold_locales (rule reader_step_inv)

lemma reader_run_inv: "run_inv c h s \<Longrightarrow> run_inv c h (reader_run c ops s)"
  unfolding reader_run_def by (rule reader_runs.run_inv) (simp add: list_all_iff)

lemma run_inv_start [simp]: "run_inv c h (RecordReader_new h, [], start_env answers)"
  by (simp add: run_inv_def start_env_def RecordReader_new_def unread_def reader_inv_def pending_ok_def)

subsection \<open>A source that delivers a whole stream\<close>

text \<open>
  The script of a source that delivers its content in nonempty chunks and then reports the end.
\<close>

definition feed :: "bytes list \<Rightarrow> 'h answer list" where
  "feed chunks = map (\<lambda>ch. Ready (Bytes ch)) chunks @ [Ready (Bytes [])]"

text \<open>
  What the calls of a run took from the script: their answers are the script's, until it ran out.
\<close>

definition consumes :: "'h env \<Rightarrow> 'h env \<Rightarrow> bool" where
  "consumes e e' \<longleftrightarrow>
     (\<exists>evs. trace e' = trace e @ evs \<and>
        (script e = map snd evs @ script e' \<or>
         script e' = [] \<and> (\<exists>ds. map snd evs = script e @ ds \<and> ds \<noteq> [] \<and> (\<forall>d\<in>set ds. d = Dropped))))"

lemma consumes_refl [simp]: "consumes e e"
  by (auto simp: consumes_def)

lemma consumes_trans:
  assumes "consumes e e'" and "consumes e' e''"
  shows "consumes e e''"
proof -
  obtain evs where 1: "trace e' = trace e @ evs" "script e = map snd evs @ script e' \<or>
         script e' = [] \<and> (\<exists>ds. map snd evs = script e @ ds \<and> ds \<noteq> [] \<and> (\<forall>d\<in>set ds. d = Dropped))"
    using assms(1) unfolding consumes_def by blast
  obtain evs' where 2: "trace e'' = trace e' @ evs'" "script e' = map snd evs' @ script e'' \<or>
         script e'' = [] \<and> (\<exists>ds. map snd evs' = script e' @ ds \<and> ds \<noteq> [] \<and> (\<forall>d\<in>set ds. d = Dropped))"
    using assms(2) unfolding consumes_def by blast
  have t: "trace e'' = trace e @ (evs @ evs')" using 1 2 by simp
  from 1(2) 2(2) show ?thesis
  proof (elim disjE conjE exE)
    assume "script e = map snd evs @ script e'" "script e' = map snd evs' @ script e''"
    then show ?thesis using t by (auto simp: consumes_def)
  next
    fix ds assume "script e = map snd evs @ script e'" "script e'' = []"
      "map snd evs' = script e' @ ds" "ds \<noteq> []" "\<forall>d\<in>set ds. d = Dropped"
    then show ?thesis using t by (auto simp: consumes_def)
  next
    fix ds assume "script e' = []" "map snd evs = script e @ ds" "ds \<noteq> []" "\<forall>d\<in>set ds. d = Dropped"
      "script e' = map snd evs' @ script e''"
    then show ?thesis using t by (auto simp: consumes_def)
  next
    fix ds ds' assume "script e' = []" "map snd evs = script e @ ds" "ds \<noteq> []" "\<forall>d\<in>set ds. d = Dropped"
      "script e'' = []" "map snd evs' = script e' @ ds'" "ds' \<noteq> []" "\<forall>d\<in>set ds'. d = Dropped"
    then have "script e'' = [] \<and> (\<exists>xs. map snd (evs @ evs') = script e @ xs \<and> xs \<noteq> [] \<and> (\<forall>d\<in>set xs. d = Dropped))"
      by (intro conjI exI [of _ "ds @ ds'"]) auto
    then show ?thesis using t unfolding consumes_def by blast
  qed
qed

lemma typed_call_consumes: "typed_call f cl e = (r, e') \<Longrightarrow> consumes e e'"
  by (auto simp: typed_call_def perform_def consumes_def split: list.splits answer.splits option.splits)

lemma wait_loop_consumes: "wait_loop c r e = (res, r', e') \<Longrightarrow> consumes e e'"
proof (induction "length (script e)" arbitrary: r e rule: less_induct)
  case less
  obtain ready r1 where p: "prepare_batch c r = (ready, r1)" by fastforce
  obtain a e1 where call: "bytes_call (ReadBuf (rd_source r1)
      ((case rd_pending_length r1 of Some len \<Rightarrow> len | None \<Rightarrow> HEADER_LEN) - length (rd_buffer r1))) e = (a, e1)"
    by fastforce
  have c1: "consumes e e1" by (rule typed_call_consumes [OF call])
  have shrink: "length (script e1) < length (script e)" if "a = Ok got \<or> a = Err x" for got x
    using typed_call_shrinks [OF call that] .
  have "e' = e \<or> e' = e1 \<or> (\<exists>r2. length (script e1) < length (script e) \<and> wait_loop c r2 e1 = (res, r', e'))"
    using less.prems p call shrink [of "[]"] shrink
    by (subst (asm) wait_loop.simps) (auto simp: Let_def split: outcome.splits if_splits option.splits)
  then show ?case using less.hyps c1 by (auto intro: consumes_trans)
qed

text \<open>The state of a run when nothing more of the unread bytes is deliverable.\<close>

lemma run_inv_parse:
  assumes "run_inv c h (r, out, e)"
  shows "parse_frames c (received h (trace e)) =
    (map record_bytes out @ fst (parse_frames c (unread r)), snd (parse_frames c (unread r)))"
proof -
  have v: "all_valid c (map record_bytes out)"
    and rcv: "concat (map record_bytes out) @ unread r = received h (trace e)"
    using assms by (auto simp: run_inv_def)
  show ?thesis using parse_frames_concat [OF v, of "unread r"] rcv by simp
qed

lemma parse_frames_prefix:
  assumes "prefix bs bs'"
  shows "prefix (fst (parse_frames c bs)) (fst (parse_frames c bs'))"
proof -
  obtain rest where bs': "bs' = bs @ rest" using assms by (auto simp: prefix_def)
  obtain fs t where p: "parse_frames c bs = (fs, t)" by fastforce
  from parse_frames_sound [OF p] show ?thesis using p bs' parse_frames_concat by (auto simp: prefix_def)
qed

lemma parse_frames_stuck:
  "(\<And>n. check_frame c bs \<noteq> GoodFrame n) \<Longrightarrow> parse_frames c bs = ([], check_frame c bs)"
  by (subst parse_frames.simps) (simp split: frame_check.splits)


lemma wait_to_read_consumes:
  assumes "wait_to_read c r e = (res, r', e')"
  shows "consumes e e'"
proof (cases "rd_state r = StateActive \<and> rd_batch r = []")
  case True
  then show ?thesis using assms wait_loop_consumes [of c r e] by (simp add: wait_to_read_def)
next
  case False
  then have "e' = e" using assms by (simp add: wait_to_read_def split: ReaderState.splits if_splits)
  then show ?thesis by simp
qed

text \<open>More bytes never turn an invalid frame into another verdict.\<close>


text \<open>The bytes a script offers, whatever reads them: a run receives them in order, from the first on.\<close>

fun bytes_in :: "'h answer \<Rightarrow> bytes" where
  "bytes_in (Ready (Bytes bs)) = bs"
| "bytes_in _ = []"

definition offered :: "'h answer list \<Rightarrow> bytes" where
  "offered as = concat (map bytes_in as)"

lemma offered_simps [simp]:
  "offered [] = []" "offered (a # as) = bytes_in a @ offered as" "offered (as @ as') = offered as @ offered as'"
  by (simp_all add: offered_def)

lemma offered_feed [simp]: "offered (feed chunks) = concat chunks"
  by (induction chunks) (simp_all add: feed_def)

lemma received_by_offered: "received_by h (ReadBuf h n, a) = bytes_in a"
  by (induction a rule: bytes_in.induct) simp_all

lemma reads_offered: "reads_on h evs \<Longrightarrow> received h evs = offered (map snd evs)"
proof (induction evs)
  case (Cons ev evs)
  obtain n a where "ev = (ReadBuf h n, a)" using Cons.prems by (cases ev) auto
  then show ?case using Cons by (simp add: received_by_offered)
qed simp

lemma offered_dropped: "\<forall>d\<in>set ds. d = Dropped \<Longrightarrow> offered ds = []"
  by (induction ds) simp_all

lemma reads_consume:
  assumes "consumes e e'" and "trace e' = trace e @ evs" and "reads_on h evs"
  shows "received h (trace e') @ offered (script e') = received h (trace e) @ offered (script e)"
proof -
  have "script e = map snd evs @ script e' \<or>
      script e' = [] \<and> (\<exists>ds. map snd evs = script e @ ds \<and> ds \<noteq> [] \<and> (\<forall>d\<in>set ds. d = Dropped))"
    using assms(1,2) unfolding consumes_def by auto
  then show ?thesis using assms(2) reads_offered [OF assms(3)] offered_dropped by auto
qed

lemma reader_step_receives:
  assumes "run_inv c h (r, out, e)" and "reader_step c op (r, out, e) = (r', out', e')"
  shows "received h (trace e') @ offered (script e') = received h (trace e) @ offered (script e)"
proof (cases op)
  case WaitToRead
  obtain res r1 e1 where w: "wait_to_read c r e = (res, r1, e1)" by (metis surj_pair)
  then have e': "e' = e1" using assms(2) WaitToRead by simp
  show ?thesis
  proof (cases "rd_state r = StateActive")
    case True
    have "reader_inv c r" "rd_source r = h" using assms(1) by (simp_all add: run_inv_def)
    then obtain evs where "trace e1 = trace e @ evs" "reads_on h evs"
      using wait_to_read_spec [OF w _ True] by auto
    then show ?thesis using reads_consume [OF wait_to_read_consumes [OF w]] e' by simp
  next
    case False
    then show ?thesis using w e' by (cases "rd_state r") (simp_all add: wait_to_read_inactive)
  qed
next
  case TryReadNext
  then show ?thesis using assms(2) by (auto split: prod.splits outcome.splits option.splits)
qed

interpretation source_runs: run_invariant "reader_step c" "\<lambda>_. True"
    "\<lambda>(r, out, e :: 'h env). run_inv c h (r, out, e) \<and> received h (trace e) @ offered (script e) = total" for c h total
proof unfold_locales
  fix op and s :: "'h RecordReader \<times> Record list \<times> 'h env"
  assume "case s of (r, out, e) \<Rightarrow> run_inv c h (r, out, e) \<and> received h (trace e) @ offered (script e) = total"
  then show "case reader_step c op s of (r, out, e) \<Rightarrow> run_inv c h (r, out, e) \<and> received h (trace e) @ offered (script e) = total"
    using reader_step_inv [of c h s op] reader_step_receives [of c h "fst s" "fst (snd s)" "snd (snd s)" op]
    by (auto split: prod.splits)
qed

lemma reader_run_received:
  assumes "reader_run c ops (RecordReader_new h, [], start_env answers) = (r, out, e)"
  shows "prefix (received h (trace e)) (offered answers)"
proof -
  have "received h (trace e) @ offered (script e) = offered answers"
    using source_runs.run_inv [of ops c h "offered answers" "(RecordReader_new h, [], start_env answers)"] assms
    by (simp add: reader_run_def list_all_iff) (simp add: start_env_def)
  then show ?thesis by (metis prefixI)
qed

lemma reader_run_prefix:
  assumes "reader_run c ops (RecordReader_new h, [], start_env answers) = (r, out, e)"
  shows "prefix (map record_bytes out) (fst (parse_frames c (offered answers)))"
proof -
  have inv: "run_inv c h (r, out, e)" using reader_run_inv [OF run_inv_start] assms by metis
  have "prefix (map record_bytes out) (fst (parse_frames c (received h (trace e))))"
    using run_inv_parse [OF inv] by simp
  with parse_frames_prefix [OF reader_run_received [OF assms]] show ?thesis by (meson prefix_order.trans)
qed

lemma check_frame_bad_append: "check_frame c p = BadFrame x \<Longrightarrow> check_frame c (p @ q) = BadFrame x"
  by (auto simp: check_frame_def Let_def split: if_splits)

lemma check_frame_stream: "all_valid c fs \<Longrightarrow> check_frame c (concat fs) \<noteq> BadFrame x"
  by (cases fs) (auto simp: check_frame_valid)

lemma check_frame_prefix_of_stream:
  assumes "all_valid c fs" and "p @ q = concat fs"
  shows "check_frame c p \<noteq> BadFrame x"
  using check_frame_bad_append [of c p x q] check_frame_stream [OF assms(1)] assms(2) by auto

lemma check_frame_whole_stream:
  "all_valid c fs \<Longrightarrow> check_frame c (concat fs) = NeedMore \<Longrightarrow> concat fs = []"
  by (cases fs) (auto simp: check_frame_valid)

lemma feed_no_eof: "[] \<notin> set chunks \<Longrightarrow> Ready (Bytes []) \<notin> set (map (\<lambda>ch. Ready (Bytes ch)) chunks)"
  by auto

lemma reads_feed:
  "reads_on h evs \<Longrightarrow> map snd evs = map (\<lambda>ch. Ready (Bytes ch)) chs \<Longrightarrow> received h evs = concat chs"
proof (induction evs arbitrary: chs)
  case (Cons ev evs)
  then obtain ch chs' n where "chs = ch # chs'" "ev = (ReadBuf h n, Ready (Bytes ch))"
      "map snd evs = map (\<lambda>ch. Ready (Bytes ch)) chs'"
    by (cases ev) auto
  then show ?case using Cons by simp
qed simp

text \<open>What a wait took from a feeding script: some chunks, or all of them and the end.\<close>

lemma feed_split:
  assumes "map snd evs @ rest = feed chunks"
  obtains k where "map snd evs = map (\<lambda>ch. Ready (Bytes ch)) (take k chunks)" "rest = feed (drop k chunks)"
    | "map snd evs = feed chunks" "rest = []"
proof (cases rest rule: rev_cases)
  case Nil
  then show ?thesis using assms that(2) by simp
next
  case (snoc rs x)
  let ?f = "\<lambda>ch. Ready (Bytes ch) :: 'a answer"
  have m: "map snd evs @ rs = map ?f chunks" and x: "x = Ready (Bytes [])"
    using assms snoc by (simp_all add: feed_def flip: append_assoc)
  let ?k = "length evs"
  have "map snd evs = take ?k (map ?f chunks)" "rs = drop ?k (map ?f chunks)"
    using m by (metis append_eq_conv_conj length_map)+
  then show ?thesis using that(1) [of ?k] snoc x by (simp add: feed_def take_map drop_map)
qed

definition fed :: "crc_fun \<Rightarrow> 'h RecordReader \<Rightarrow> 'h env \<Rightarrow> bytes list \<Rightarrow> bool" where
  "fed c r e fs \<longleftrightarrow>
     reader_inv c r \<and> rd_state r = StateActive \<and> all_valid c fs \<and>
     (\<exists>chunks. script e = feed chunks \<and> [] \<notin> set chunks \<and> unread r @ concat chunks = concat fs)"

text \<open>A wait that took some of the chunks found frames; one that took all and the end found nothing more.\<close>

lemma wait_took_chunks:
  assumes post: "wait_post c r' res evs" and got: "map snd evs = map (\<lambda>ch. Ready (Bytes ch)) (take k chunks)"
    and ne: "[] \<notin> set chunks" and v: "all_valid c fs" and un: "prefix (unread r') (concat fs)"
  shows "res = Ok True"
proof -
  have "\<exists>ch. ch \<noteq> [] \<and> b = Ready (Bytes ch)" if "evs = tr @ [(cl, b)]" for tr cl b
  proof -
    have "b \<in> set (map snd evs)" using that by simp
    then show ?thesis using got ne set_take_subset [of k chunks] by auto
  qed
  moreover have "check_frame c (unread r') \<noteq> BadFrame x" for x
    using un check_frame_prefix_of_stream [OF v] by (metis prefixE)
  ultimately show ?thesis using post
    by (fastforce simp: wait_post_def wait_error_def at_eof_def left_pending_def split: outcome.splits bool.splits)
qed

lemma wait_took_all:
  assumes post: "wait_post c r' res evs" "res = Ok True \<longrightarrow> no_eof evs" and got: "map snd evs = feed chunks"
    and v: "all_valid c fs" and un: "unread r' = concat fs"
  shows "res = Ok False \<and> fs = []"
proof -
  have ne: "evs \<noteq> []" using got by (auto simp: feed_def)
  have lst: "snd (last evs) = Ready (Bytes [])"
    using arg_cong [OF got, of last] ne by (simp add: feed_def last_map)
  then have "\<not> no_eof evs" using ne by (auto simp: no_eof_def intro!: bexI [of _ "last evs"])
  then have "res = Ok False"
    using post lst un check_frame_whole_stream [OF v] check_frame_stream [OF v]
    by (auto simp: wait_post_def wait_error_def left_pending_def split: outcome.splits bool.splits)
  moreover from this have "fs = []" using post(1) un v
    by (cases fs) (auto simp: wait_post_def dest: valid_frame_length_bounds)
  ultimately show ?thesis by simp
qed

lemma wait_fed:
  assumes w: "wait_to_read c r e = (res, r', e')" and fed: "fed c r e fs"
  shows "res = Ok True \<and> rd_batch r' \<noteq> [] \<and> fed c r' e' fs \<or> res = Ok False \<and> fs = []"
proof -
  obtain chunks where inv: "reader_inv c r" "rd_state r = StateActive" and v: "all_valid c fs"
    and sc: "script e = feed chunks" "[] \<notin> set chunks" "unread r @ concat chunks = concat fs"
    using fed by (auto simp: fed_def)
  obtain evs where spec: "trace e' = trace e @ evs" "reads_on (rd_source r) evs"
      "unread r' = unread r @ received (rd_source r) evs"
      "reader_inv c r'" "wait_post c r' res evs" "res = Ok True \<longrightarrow> no_eof evs" "no_eof (butlast evs)"
    using wait_to_read_spec [OF w inv] by blast
  have "map snd evs \<noteq> feed chunks @ ds" if "ds \<noteq> []" for ds
  proof
    assume "map snd evs = feed chunks @ ds"
    then have "map snd (butlast evs) = feed chunks @ butlast ds" using that by (simp add: map_butlast butlast_append)
    then have "Ready (Bytes []) \<in> set (map snd (butlast evs))" by (simp add: feed_def)
    then show False using spec(7) by (auto simp: no_eof_def)
  qed
  then have "map snd evs @ script e' = feed chunks"
    using wait_to_read_consumes [OF w] spec(1) sc(1) unfolding consumes_def by auto
  then consider (part) k where "map snd evs = map (\<lambda>ch. Ready (Bytes ch)) (take k chunks)" "script e' = feed (drop k chunks)"
    | (all) "map snd evs = feed chunks" "script e' = []"
    by (rule feed_split)
  then show ?thesis
  proof cases
    case part
    have un: "unread r' @ concat (drop k chunks) = concat fs"
      using spec(3) reads_feed [OF spec(2) part(1)] sc(3) by (simp flip: concat_append)
    then have "prefix (unread r') (concat fs)" by (metis prefixI)
    from wait_took_chunks [OF spec(5) part(1) sc(2) v this] have "res = Ok True" .
    moreover have "[] \<notin> set (drop k chunks)" using sc(2) set_drop_subset [of k chunks] by auto
    ultimately show ?thesis using spec(4,5) part(2) un v by (auto simp: fed_def wait_post_def)
  next
    case all
    then have "map snd evs = map (\<lambda>ch. Ready (Bytes ch)) (chunks @ [[]])" by (simp add: feed_def)
    from reads_feed [OF spec(2) this] have "unread r' = concat fs" using spec(3) sc(3) by simp
    from wait_took_all [OF spec(5,6) all(1) v this] show ?thesis by simp
  qed
qed

lemma fed_step:
  assumes "fed c r e (f # fs)"
  shows "\<exists>r' e'. reader_run c [WaitToRead, TryReadNext] (r, out, e) = (r', out @ [from_validated_bytes f], e') \<and>
    fed c r' e' fs"
proof -
  obtain res r1 e1 where w: "wait_to_read c r e = (res, r1, e1)" by (metis surj_pair)
  then have ok: "res = Ok True" "rd_batch r1 \<noteq> []" "fed c r1 e1 (f # fs)"
    using wait_fed [OF w assms] by auto
  then have "reader_inv c r1" "rd_state r1 \<noteq> StateFailed" by (auto simp: fed_def)
  from try_read_next_spec [OF this] ok(2) obtain g r2 where
    t: "try_read_next r1 = (Ok (Some (from_validated_bytes g)), r2)" "valid_frame c g"
      "unread r1 = g @ unread r2" "reader_inv c r2" "rd_state r2 = rd_state r1" by auto
  obtain chunks where ch: "script e1 = feed chunks" "[] \<notin> set chunks"
      "unread r1 @ concat chunks = f @ concat fs" and v: "valid_frame c f" "all_valid c fs"
    using ok(3) by (auto simp: fed_def)
  have "check_frame c (g @ (unread r2 @ concat chunks)) = check_frame c (f @ concat fs)"
    using ch(3) t(3) by simp
  then have "length g = length f" using t(2) v(1) by (simp add: check_frame_valid)
  then have "g = f" "unread r2 @ concat chunks = concat fs" using ch(3) t(3) by auto
  then show ?thesis using w t v ch ok(3) by (auto simp: reader_run_def fed_def)
qed

lemma reader_run_append: "reader_run c (ops @ ops') s = reader_run c ops' (reader_run c ops s)"
  by (simp add: reader_run_def)

lemma fed_run:
  "fed c r e fs \<Longrightarrow>
   \<exists>r' e'. reader_run c (concat (replicate (length fs) [WaitToRead, TryReadNext])) (r, out, e) =
       (r', out @ map from_validated_bytes fs, e') \<and> fed c r' e' []"
proof (induction fs arbitrary: r e out)
  case Nil
  then show ?case by (simp add: reader_run_def)
next
  case (Cons f fs)
  let ?pair = "[WaitToRead, TryReadNext]"
  obtain r1 e1 where 1: "reader_run c ?pair (r, out, e) = (r1, out @ [from_validated_bytes f], e1)"
      "fed c r1 e1 fs"
    using fed_step [OF Cons.prems] by blast
  from Cons.IH [OF 1(2)] obtain r2 e2 where
    "reader_run c (concat (replicate (length fs) ?pair)) (r1, out @ [from_validated_bytes f], e1) =
       (r2, (out @ [from_validated_bytes f]) @ map from_validated_bytes fs, e2)" "fed c r2 e2 []"
    by blast
  moreover have "concat (replicate (length (f # fs)) ?pair) = ?pair @ concat (replicate (length fs) ?pair)"
    by simp
  ultimately show ?case using 1(1) by (simp only: reader_run_append) simp
qed

text \<open>
  C16. Whatever the source answers, and whatever sequence of waits and drains a client makes, the
  records handed out are valid frames, their bytes followed by the reader's unread bytes are
  exactly the bytes received, and they are a prefix of the frames of that byte stream: nothing is
  lost, duplicated, reordered or delivered unchecked, however the stream was cut into chunks.
\<close>

theorem reader_delivers_valid_prefix:
  "case reader_run c ops (RecordReader_new h, [], start_env answers) of (r, out, e) \<Rightarrow>
     all_valid c (map record_bytes out) \<and>
     concat (map record_bytes out) @ unread r = received h (trace e) \<and>
     prefix (map record_bytes out) (fst (parse_frames c (received h (trace e))))"
proof -
  obtain r out e where s: "reader_run c ops (RecordReader_new h, [], start_env answers) = (r, out, e)"
    by (metis surj_pair)
  then have "run_inv c h (r, out, e)" by (metis reader_run_inv run_inv_start)
  with run_inv_parse [OF this] show ?thesis using s by (simp add: run_inv_def)
qed

text \<open>
  C18. What a wait reports after any run of a reader that is still active. \<open>Ok False\<close>: the source
  ended, and the frames handed out are all it ever sent. An error: all valid frames received so
  far have been handed out (none is lost behind an error), and the error names the invalid frame
  that follows, the incomplete frame at the end of input, or the source's own failure. The
  verdict depends on the bytes received and not on how they were cut into chunks.
\<close>

theorem reader_verdict:
  assumes run: "reader_run c ops (RecordReader_new h, [], start_env answers) = (r, out, e)"
    and active: "rd_state r = StateActive"
    and wait: "wait_to_read c r e = (res, r', e')"
  shows "case res of
      Ok True \<Rightarrow> rd_batch r' \<noteq> []
    | Ok False \<Rightarrow> received h (trace e') = concat (map record_bytes out) \<and>
        (\<exists>tr n. n > 0 \<and> trace e' = tr @ [(ReadBuf h n, Ready (Bytes []))])
    | Err x \<Rightarrow> map record_bytes out = fst (parse_frames c (received h (trace e'))) \<and>
        rd_state r' = StateFailed \<and>
        (snd (parse_frames c (received h (trace e'))) = BadFrame x \<or>
         unread r' \<noteq> [] \<and> x = truncation (unread r') \<and>
           (\<exists>tr n. n > 0 \<and> trace e' = tr @ [(ReadBuf h n, Ready (Bytes []))]) \<or>
         (\<exists>y tr n. x = ReadIo y \<and> y \<noteq> Interrupted \<and> trace e' = tr @ [(ReadBuf h n, Failed y)]))
    | Stop s \<Rightarrow> s = Cancelled \<and> run_inv c h (r', out, e')"
proof -
  have ri: "run_inv c h (r, out, e)" using reader_run_inv [OF run_inv_start] run by metis
  then have inv: "reader_inv c r" and src: "rd_source r = h" by (auto simp: run_inv_def)
  obtain evs where spec: "trace e' = trace e @ evs" "wait_post c r' res evs" "rd_source r' = h"
    using wait_to_read_spec [OF wait inv active] src by blast
  have ri': "run_inv c h (r', out, e')"
    using reader_step_inv [OF ri, of WaitToRead] wait by simp
  note parse = run_inv_parse [OF ri']
  have rcv: "concat (map record_bytes out) @ unread r' = received h (trace e')"
    using ri' by (simp add: run_inv_def)
  have stuck: "parse_frames c (unread r') = ([], check_frame c (unread r'))" if "wait_error c h (unread r') evs x" for x
    using that by (intro parse_frames_stuck) (auto simp: wait_error_def)
  show ?thesis
  proof (cases res)
    case (Ok b)
    then show ?thesis using spec rcv
      by (auto simp: wait_post_def at_eof_def split: bool.splits)
  next
    case (Err x)
    then have "wait_error c h (unread r') evs x" "rd_state r' = StateFailed"
      using spec by (auto simp: wait_post_def)
    then show ?thesis using Err parse stuck [of x] spec(1)
      by (simp add: wait_error_def at_eof_def) (metis append.assoc)
  next
    case (Stop s)
    then show ?thesis using spec ri' by (simp add: wait_post_def)
  qed
qed

text \<open>
  C31. After any run, neither operation panics and neither reads outside a validated batch: the
  only way a wait gives no value back is that its future is dropped, and a drain always returns.
\<close>

theorem reader_never_panics:
  "case reader_run c ops (RecordReader_new h, [], start_env answers) of (r, out, e) \<Rightarrow>
     fst (wait_to_read c r e) \<notin> {Stop Panic, Stop Undefined} \<and>
     fst (try_read_next r) \<notin> range Stop"
proof -
  obtain r out e where s: "reader_run c ops (RecordReader_new h, [], start_env answers) = (r, out, e)"
    by (metis surj_pair)
  then have "run_inv c h (r, out, e)" by (metis reader_run_inv run_inv_start)
  then have inv: "reader_inv c r" by (simp add: run_inv_def)
  obtain res r' e' where w: "wait_to_read c r e = (res, r', e')" by (metis surj_pair)
  have "res \<notin> {Stop Panic, Stop Undefined}"
  proof (cases "rd_state r = StateActive")
    case True
    then show ?thesis using wait_to_read_spec [OF w inv] by (auto simp: wait_post_def)
  next
    case False
    then show ?thesis using w by (cases "rd_state r") (auto simp: wait_to_read_inactive)
  qed
  moreover have "fst (try_read_next r) \<notin> range Stop"
  proof (cases "rd_state r = StateFailed")
    case True
    then show ?thesis by (auto simp: try_read_next_terminal)
  next
    case False
    then show ?thesis using try_read_next_spec [OF inv] by auto
  qed
  ultimately show ?thesis using s w by simp
qed

text \<open>
  A source that sends valid frames, cut into nonempty chunks in any way, and then ends: as
  many waits, each followed by one drain, as there are frames hand out exactly those frames, and
  the next wait reports the end of the stream.
\<close>

theorem reader_reads_whole_stream:
  assumes "\<forall>f\<in>set fs. valid_frame c f" and "[] \<notin> set chunks" and "concat chunks = concat fs"
  shows "case reader_run c (concat (replicate (length fs) [WaitToRead, TryReadNext]))
             (RecordReader_new h, [], start_env (feed chunks)) of
      (r, out, e) \<Rightarrow> map record_bytes out = fs \<and> fst (wait_to_read c r e) = Ok False"
proof -
  have "fed c (RecordReader_new h) (start_env (feed chunks)) fs"
    using assms
    by (auto simp: fed_def start_env_def all_valid_def RecordReader_new_def unread_def
        reader_inv_def pending_ok_def)
  from fed_run [OF this, of "[]"] obtain r e where run:
    "reader_run c (concat (replicate (length fs) [WaitToRead, TryReadNext]))
       (RecordReader_new h, [], start_env (feed chunks)) = (r, map from_validated_bytes fs, e)"
    and f: "fed c r e []" by auto
  obtain res r' e' where w: "wait_to_read c r e = (res, r', e')" by (metis surj_pair)
  have "res = Ok False" using wait_fed [OF w f] by (auto simp: fed_def reader_inv_def unread_def)
  then show ?thesis using run w by (simp add: comp_def)
qed

theorem reader_reads_whole_stream_witness:
  "let f = encode_record (\<lambda>_. 7) (RecordId (StreamId 5) (SequenceNumber 9)) [1, 2, 3] in
   case reader_run (\<lambda>_. 7) [WaitToRead, TryReadNext, WaitToRead, TryReadNext]
             (RecordReader_new (), [], start_env (feed [take 5 f, drop 5 f @ f])) of
      (r, out, e) \<Rightarrow> map record_bytes out = [f, f] \<and> fst (wait_to_read (\<lambda>_. 7) r e) = Ok False"
proof -
  let ?f = "encode_record (\<lambda>_. 7) (RecordId (StreamId 5) (SequenceNumber 9)) [1, 2, 3]"
  have "valid_frame (\<lambda>_. 7) ?f"
    by (rule valid_frame_encode) (simp_all add: layout valid_stream_def)
  moreover have "[] \<notin> set [take 5 ?f, drop 5 ?f @ ?f]"
    by (simp add: encode_record_def encode_content_def flip: length_0_conv)
  ultimately show ?thesis
    using reader_reads_whole_stream [of "[?f, ?f]" "\<lambda>_. 7" "[take 5 ?f, drop 5 ?f @ ?f]" "()"]
    by (simp add: Let_def numeral_2_eq_2)
qed

theorem reader_verdict_witness:
  "fst (parse_frames (\<lambda>_. 7) [1, 2, 3]) = [] \<and>
   fst (wait_to_read (\<lambda>_. 7) (RecordReader_new ())
     (start_env [Ready (Bytes [1, 2, 3]), Ready (Bytes [])])) = Err (TruncatedHeader 3)"
proof -
  let ?e = "start_env [Ready (Bytes [1, 2, 3]), Ready (Bytes [])] :: unit env"
  have w: "wait_to_read (\<lambda>_. 7) (RecordReader_new ()) ?e =
      (Err (TruncatedHeader 3),
       \<lparr>rd_source = (), rd_buffer = [1, 2, 3], rd_pending_length = None, rd_batch = [],
        rd_batch_offset = 0, rd_state = StateFailed\<rparr>,
       \<lparr>script = [], trace = [(ReadBuf () 12, Ready (Bytes [1, 2, 3])),
          (ReadBuf () 9, Ready (Bytes []))]\<rparr>)"
    by code_simp
  have "reader_run (\<lambda>_. 7) [] (RecordReader_new (), [], ?e) = (RecordReader_new (), [], ?e)"
    by (simp add: reader_run_def)
  from reader_verdict [OF this _ w] w show ?thesis by (simp add: RecordReader_new_def received_def)
qed

end
