(* ===== verification/Checksum.thy ===== *)
theory Checksum
  imports Reader
begin

text \<open>
  The bitwise CRC-32C and the independent encoder that \<^verbatim>\<open>record_protocol.rs\<close> keeps as references for
  the external \<^verbatim>\<open>crc32c\<close> crate and the production encoding. They make the checksum parameter concrete:
  the documented example frame is valid, and a record with one corrupted byte is never delivered.
\<close>

unbundle bit_operations_syntax

subsection \<open>The reference checksum and encoder\<close>

text \<open>One round of the inner loop, the eight rounds for a byte, and the loop over the bytes.\<close>

definition crc_round :: "u32 \<Rightarrow> u32" where
  "crc_round crc = (if crc AND 1 = 0 then drop_bit 1 crc else drop_bit 1 crc XOR 0x82f63b78)"

definition crc_byte :: "u8 \<Rightarrow> u32 \<Rightarrow> u32" where
  "crc_byte byte crc = (crc_round ^^ 8) (crc XOR ucast byte)"

definition reference_crc :: crc_fun where
  "reference_crc bs = NOT (fold crc_byte bs (- 1))"

text \<open>The length of the body is a \<^verbatim>\<open>usize\<close>; a record of more than 65535 bytes panics.\<close>

definition encode_frame :: "RecordId \<Rightarrow> bytes \<Rightarrow> (bytes, unit) outcome" where
  "encode_frame rid body =
     (if length body + 16 \<le> 65535 then
        (let frame = to_le_bytes16 (of_nat (length body + 16)) @ to_le_bytes16 (StreamId_get (stream_id rid)) @
               to_le_bytes64 (SequenceNumber_get (sequence_number rid)) @ body
         in Ok (frame @ to_le_bytes32 (reference_crc frame)))
      else Stop Panic)"

definition FRAME :: bytes where
  "FRAME = [0x15, 0, 0x08, 0x07, 0x18, 0x17, 0x16, 0x15, 0x14, 0x13, 0x12, 0x11, 104, 101, 108,
            108, 111, 0x44, 0xc7, 0x51, 0x8a]"

lemma encode_frame_eq:
  "encode_frame rid body =
     (if length body \<le> MAX_PAYLOAD_LEN then Ok (encode_record reference_crc rid body) else Stop Panic)"
  by (simp add: encode_frame_def encode_record_def encode_content_def encode_header_def Let_def layout add.commute)

text \<open>Rules that evaluate the checksum of a literal byte string with the simplifier.\<close>

lemma crc_byte_rounds:
  "crc_byte byte crc =
     crc_round (crc_round (crc_round (crc_round (crc_round (crc_round (crc_round (crc_round (crc XOR ucast byte))))))))"
  by (simp add: crc_byte_def numeral_eq_Suc)

lemma reference_crc_start: "reference_crc bs = NOT (fold crc_byte bs 0xffffffff)"
proof -
  have "(- 1 :: u32) = 0xffffffff" by code_simp
  then show ?thesis by (simp only: reference_crc_def)
qed

text \<open>The documented example: its trailer, found independently, and its encoding.\<close>

lemma reference_crc_FRAME: "reference_crc (take 17 FRAME) = 0x8a51c744"
  by (simp add: reference_crc_start FRAME_def crc_byte_rounds crc_round_def)

lemma FRAME_fields:
  "length FRAME = 21" "read_length (take 12 FRAME) = 21" "read_stream_id (take 12 FRAME) = 0x0708"
  "read_crc FRAME = 0x8a51c744"
  by (simp_all add: FRAME_def read_length_def read_stream_id_def read_crc_def read_field_def layout
      from_le_bytes16_def from_le_bytes32_def)

lemma FRAME_valid: "valid_frame reference_crc FRAME"
  using reference_crc_FRAME FRAME_fields
  by (simp add: valid_frame_def header_unchecked_def compute_crc_def valid_stream_def layout)

subsection \<open>Rounds lose nothing\<close>

lemma crc_round_top: "bit (crc_round s) 31 \<longleftrightarrow> bit s 0"
proof -
  have "s AND 1 = 0 \<longleftrightarrow> \<not> bit s 0" by (simp add: and_one_eq even_iff_mod_2_eq_zero bit_0)
  moreover have "\<not> bit s 32" using impossible_bit [of 32 s] by simp
  ultimately show ?thesis by (simp add: crc_round_def bit_simps)
qed

lemma crc_round_inject: "crc_round s = crc_round t \<longleftrightarrow> s = t"
proof
  assume eq: "crc_round s = crc_round t"
  then have low: "bit s 0 \<longleftrightarrow> bit t 0" by (metis crc_round_top)
  have one: "u AND 1 = 0 \<longleftrightarrow> \<not> bit u 0" for u :: u32 by (simp add: and_one_eq even_iff_mod_2_eq_zero bit_0)
  have "drop_bit 1 s = drop_bit 1 t"
  proof (cases "bit s 0")
    case True
    then have "drop_bit 1 s XOR 0x82f63b78 = drop_bit 1 t XOR 0x82f63b78"
      using eq low by (simp add: crc_round_def one)
    then have "(drop_bit 1 s XOR 0x82f63b78) XOR 0x82f63b78 = (drop_bit 1 t XOR 0x82f63b78) XOR 0x82f63b78" by simp
    then show ?thesis by (simp add: xor.assoc)
  next
    case False
    then show ?thesis using eq low by (simp add: crc_round_def one)
  qed
  then have high: "bit s (Suc n) \<longleftrightarrow> bit t (Suc n)" for n
    by (metis bit_drop_bit_eq comp_apply plus_1_eq_Suc)
  show "s = t"
  proof (rule bit_eqI)
    fix n show "bit s n \<longleftrightarrow> bit t n" using low high by (cases n) auto
  qed
qed simp

lemma crc_rounds_inject: "(crc_round ^^ n) s = (crc_round ^^ n) t \<longleftrightarrow> s = t"
  by (induction n) (simp_all add: crc_round_inject)

lemma crc_byte_inject: "crc_byte b s = crc_byte b t \<longleftrightarrow> s = t"
proof -
  have "(s XOR u) XOR u = s" for s u :: u32 by (simp add: xor.assoc)
  then show ?thesis unfolding crc_byte_def crc_rounds_inject by metis
qed

lemma ucast_inject: "(ucast b :: u32) = ucast b' \<longleftrightarrow> b = (b' :: u8)"
proof
  assume eq: "(ucast b :: u32) = ucast b'"
  have "ucast (ucast x :: u32) = x" for x :: u8
    by (rule bit_eqI) (auto simp: bit_simps dest: bit_imp_le_length)
  with eq show "b = b'" by metis
qed simp

lemma crc_byte_other: "crc_byte b s = crc_byte b' s \<longleftrightarrow> b = b'"
proof -
  have "s XOR (s XOR u) = u" for s u :: u32 by (simp add: xor.assoc [symmetric])
  then have "s XOR ucast b = s XOR ucast b' \<longleftrightarrow> (ucast b :: u32) = ucast b'" by metis
  also have "\<dots> \<longleftrightarrow> b = b'" by (simp add: ucast_inject)
  finally show ?thesis unfolding crc_byte_def crc_rounds_inject .
qed

lemma crc_fold_inject: "fold crc_byte bs s = fold crc_byte bs t \<longleftrightarrow> s = t"
  by (induction bs arbitrary: s t) (simp_all add: crc_byte_inject)

lemma reference_crc_one_byte:
  "reference_crc (xs @ b # ys) = reference_crc (xs @ b' # ys) \<longleftrightarrow> b = b'"
proof -
  have "NOT s = NOT t \<longleftrightarrow> s = t" for s t :: u32 by (metis bit.double_compl)
  then show ?thesis by (simp add: reference_crc_def crc_fold_inject crc_byte_other)
qed

lemma of_le32_one_byte:
  assumes "length xs + length ys = 3"
  shows "from_le_bytes32 (xs @ b # ys) = from_le_bytes32 (xs @ b' # ys) \<longleftrightarrow> b = b'"
proof
  assume eq: "from_le_bytes32 (xs @ b # ys) = from_le_bytes32 (xs @ b' # ys)"
  have len: "length (xs @ b # ys) = 4" "length (xs @ b' # ys) = 4" using assms by simp_all
  have "xs @ b # ys = xs @ b' # ys"
    using arg_cong [OF eq, of to_le_bytes32] unfolding le32.enc_dec [OF len(1)] le32.enc_dec [OF len(2)] .
  then show "b = b'" by simp
qed simp

subsection \<open>A corrupted byte\<close>

text \<open>A byte of a valid frame behind its length: in the stream id, the number, the body or the trailer.\<close>

lemma corrupted_frame_invalid:
  assumes v: "valid_frame reference_crc f" and i: "i < length f" and b: "b \<noteq> f ! i"
  shows "\<not> valid_frame reference_crc (f[i := b])"
proof
  let ?g = "f[i := b]" and ?n = "length f - 4"
  assume w: "valid_frame reference_crc ?g"
  have n: "16 \<le> length f" using valid_frame_length_bounds [OF v] by simp
  have f: "reference_crc (take ?n f) = from_le_bytes32 (drop ?n f)"
    and g: "reference_crc (take ?n ?g) = from_le_bytes32 (drop ?n ?g)"
    using v w n by (simp_all add: valid_frame_def compute_crc_def read_crc_def layout)
  have split: "xs = take k xs @ xs ! k # drop (Suc k) xs" if "k < length xs" for k and xs :: bytes
    using that by (rule id_take_nth_drop)
  show False
  proof (cases "i < ?n")
    case True
    let ?c = "take ?n f"
    have "take ?n ?g = take i ?c @ b # drop (Suc i) ?c"
      unfolding take_update_swap using True by (intro upd_conv_take_nth_drop) simp
    moreover have "drop ?n ?g = drop ?n f" using True by simp
    moreover have "?c = take i ?c @ f ! i # drop (Suc i) ?c" using split [of i ?c] True n by simp
    ultimately show False using f g b reference_crc_one_byte by metis
  next
    case False
    let ?t = "drop ?n f"
    have "drop ?n ?g = ?t[i - ?n := b]" using False by (simp add: drop_update_swap)
    also have "\<dots> = take (i - ?n) ?t @ b # drop (Suc (i - ?n)) ?t"
      using False i by (intro upd_conv_take_nth_drop) simp
    finally have "drop ?n ?g = take (i - ?n) ?t @ b # drop (Suc (i - ?n)) ?t" .
    moreover have "take ?n ?g = take ?n f" using False by simp
    moreover have "?t = take (i - ?n) ?t @ f ! i # drop (Suc (i - ?n)) ?t"
      using split [of "i - ?n" ?t] False i n by simp
    moreover have "length (take (i - ?n) ?t) + length (drop (Suc (i - ?n)) ?t) = 3" using False i n by simp
    ultimately show False using f g b of_le32_one_byte by metis
  qed
qed

lemma corrupted_frame_bad:
  assumes v: "valid_frame reference_crc f" and i: "2 \<le> i" "i < length f" and b: "b \<noteq> f ! i"
  shows "\<exists>x. check_frame reference_crc (f[i := b] @ rest) = BadFrame x"
proof -
  let ?g = "f[i := b]"
  have n: "16 \<le> length f" and l: "unat (read_length (take 12 f)) = length f"
    using valid_frame_length_bounds [OF v] v by (simp_all add: valid_frame_def header_unchecked_def layout)
  have "read_length (take 12 (?g @ rest)) = read_length (take 12 f)"
    using i n by (simp add: read_length_def read_field_def layout min_def)
  moreover have "take (length f) (?g @ rest) = ?g" by simp
  moreover have "\<not> valid_frame reference_crc ?g" using corrupted_frame_invalid [OF v i(2) b] .
  ultimately show ?thesis using n l by (simp add: check_frame_def Let_def)
qed

subsection \<open>Properties\<close>

text \<open>
  C15. A corrupted record is never delivered. A source sends valid records, then a record with one
  byte changed behind its length field (in the stream id, the sequence number, the body or the
  checksum itself), then anything. Whatever the reader's client does, it gets none but the records
  before: with CRC-32C as checksum the changed byte is always noticed.
\<close>

theorem corrupted_record_is_never_delivered:
  assumes "all_valid reference_crc fs" and "valid_frame reference_crc f"
    and "2 \<le> i" and "i < length f" and "b \<noteq> f ! i"
    and "offered answers = concat fs @ f[i := b] @ rest"
  shows "case reader_run reference_crc ops (RecordReader_new h, [], start_env answers) of
    (r, out, e) \<Rightarrow> prefix (map record_bytes out) fs"
proof -
  obtain x where "check_frame reference_crc (f[i := b] @ rest) = BadFrame x"
    using corrupted_frame_bad [OF assms(2-5)] by blast
  then have "fst (parse_frames reference_crc (f[i := b] @ rest)) = []" by (subst parse_frames_stuck) simp_all
  then have "fst (parse_frames reference_crc (offered answers)) = fs"
    using parse_frames_concat [OF assms(1), of "f[i := b] @ rest"] assms(6) by simp
  with reader_run_prefix [of reference_crc ops h answers] show ?thesis by (auto split: prod.splits)
qed

theorem corrupted_record_is_never_delivered_witness:
  "case reader_run reference_crc [WaitToRead, TryReadNext, WaitToRead, TryReadNext]
      (RecordReader_new (), [], start_env (feed [FRAME @ take 9 FRAME, drop 9 (FRAME[12 := 105])])) of
    (r, out, e) \<Rightarrow> prefix (map record_bytes out) [FRAME]"
proof -
  have fs: "all_valid reference_crc [FRAME]" using FRAME_valid by (simp add: all_valid_def)
  have "(12 :: nat) < length FRAME" "(105 :: u8) \<noteq> FRAME ! 12" by code_simp+
  moreover have "offered (feed [FRAME @ take 9 FRAME, drop 9 (FRAME[12 := 105])] :: unit answer list) =
      concat [FRAME] @ FRAME[12 := 105] @ []"
    by (simp add: FRAME_def)
  ultimately show ?thesis by (intro corrupted_record_is_never_delivered [OF fs FRAME_valid, of 12 105]) simp_all
qed

end
