(* ===== verification/Transport.thy ===== *)
theory Transport
  imports Writer Checksum
begin

text \<open>
  A writer and a reader at the two ends of a byte stream: the destination of the one is the source of
  the other. The stream in between may lose its end and may cut the bytes anywhere.
\<close>

subsection \<open>The records of a writer's run\<close>

text \<open>\<^verbatim>\<open>RecordId\<close> and \<^verbatim>\<open>Record\<close> only hold ids of streams and valid records.\<close>

definition sendable :: "crc_fun \<Rightarrow> 'e writer_op \<Rightarrow> bool" where
  "sendable c op =
     (case op of
        AppendNew rid body \<Rightarrow> valid_stream (stream_id rid)
      | AppendExisting rec \<Rightarrow> valid_frame c (record_bytes rec)
      | _ \<Rightarrow> True)"

fun record_written :: "crc_fun \<Rightarrow> 'e writer_op \<Rightarrow> 'h RecordWriter \<Rightarrow> Record list" where
  "record_written c (AppendNew rid body) w =
     (case rw_write c rid body w of
        (r, w') \<Rightarrow> if is_ok r then [from_validated_bytes (drop (length (rw_buffer w)) (rw_buffer w'))] else [])"
| "record_written c (AppendExisting rec) w = (if is_ok (fst (rw_write_record rec w)) then [rec] else [])"
| "record_written c _ w = []"

primrec records_written :: "crc_fun \<Rightarrow> 'e writer_op list \<Rightarrow> 'h writer_state \<Rightarrow> Record list" where
  "records_written c [] st = []"
| "records_written c (op # ops) st = record_written c op (fst st) @ records_written c ops (writer_step c op st)"

lemma record_written_spec:
  assumes "sendable c op" and "writer_step c op (w, e, hist) = (w', e', hist')"
  shows "hist' = hist @ concat (map record_bytes (record_written c op w)) \<and>
    all_valid c (map record_bytes (record_written c op w))"
proof (cases op)
  case (AppendNew rid body)
  show ?thesis
  proof (cases "is_ok (fst (rw_write c rid body w))")
    case True
    then have u: "rw_usable w" using rw_write_unusable [of w c rid body] by (cases "rw_usable w") auto
    obtain bs where bs: "write_spec c rid body = (Ok (), bs)" "rw_write c rid body w = (Ok (), w\<lparr>rw_buffer := rw_buffer w @ bs\<rparr>)"
      using True rw_write_refines [OF u, of c rid body] by (cases "write_spec c rid body") (auto simp: is_ok_iff)
    obtain payload where "length payload \<le> MAX_PAYLOAD_LEN" "bs = encode_record c rid payload"
      using write_spec_Ok_payload [OF bs(1)] by blast
    then have "valid_frame c bs" using valid_frame_encode assms(1) AppendNew by (simp add: sendable_def)
    then show ?thesis using bs assms(2) AppendNew by (auto simp: all_valid_def)
  next
    case False
    then show ?thesis using assms(2) AppendNew by (auto simp: all_valid_def split: prod.splits)
  qed
qed (use assms in \<open>auto simp: sendable_def all_valid_def split: prod.splits\<close>)

lemma records_written_history:
  "list_all (sendable c) ops \<Longrightarrow> writer_run c ops (w, e, hist) = (w', e', hist') \<Longrightarrow>
     hist' = hist @ concat (map record_bytes (records_written c ops (w, e, hist))) \<and>
     all_valid c (map record_bytes (records_written c ops (w, e, hist)))"
proof (induction ops arbitrary: w e hist)
  case (Cons op ops)
  obtain w1 e1 hist1 where step: "writer_step c op (w, e, hist) = (w1, e1, hist1)" by (metis surj_pair)
  have "writer_run c ops (w1, e1, hist1) = (w', e', hist')" using Cons.prems(2) step by (simp add: writer_run_def)
  with Cons.IH [of w1 e1 hist1] record_written_spec [OF _ step] Cons.prems(1) step show ?case
    by (auto simp: all_valid_def)
qed (simp add: writer_run_def all_valid_def)

lemma parse_frames_valid:
  "all_valid c fs \<Longrightarrow> prefix bs (concat fs) \<Longrightarrow> prefix (fst (parse_frames c bs)) fs"
  using parse_frames_prefix [of bs "concat fs" c] parse_frames_concat [of c fs "[]"] by simp

lemma record_bytes_inject: "inj record_bytes"
  by (rule injI) (metis Record.exhaust Record.sel)

lemma map_record_bytes_prefix: "prefix (map record_bytes rs) (map record_bytes rs') \<longleftrightarrow> prefix rs rs'"
  by (metis inj_map_eq_map map_append prefixE prefixI record_bytes_inject map_eq_append_conv)

subsection \<open>Properties\<close>

text \<open>
  C14. Through any byte stream that keeps order, however it delays, cuts or ends, the client of the
  reader gets a prefix of the records that the writer accepted: none is changed, lost in between,
  repeated or invented, and a rejected or failed append leaves nothing behind. Both sides may perform
  any operations with any outcome.
\<close>

theorem transported_records_are_a_prefix:
  assumes "list_all (sendable c) ops"
    and "writer_run c ops (with_mode h, start_env answers, []) = (w, e, hist)"
    and "prefix (offered answers') (accepted h (trace e))"
    and "reader_run c ops' (RecordReader_new h', [], start_env answers') = (r, out, e')"
  shows "prefix out (records_written c ops (with_mode h, start_env answers, []))"
proof -
  let ?written = "map record_bytes (records_written c ops (with_mode h, start_env answers, []))"
  have hist: "hist = concat ?written" "all_valid c ?written"
    using records_written_history [OF assms(1,2)] by simp_all
  have "writer_inv h (w, e, hist)" using writer_run_inv [OF writer_inv_start] assms(2) by metis
  then have "prefix (offered answers') (concat ?written)"
    using writer_inv_prefix assms(3) hist(1) by (metis prefix_order.trans)
  from parse_frames_valid [OF hist(2) this] reader_run_prefix [OF assms(4)]
  have "prefix (map record_bytes out) ?written" by (meson prefix_order.trans)
  then show ?thesis by (simp add: map_record_bytes_prefix)
qed

text \<open>
  C30. When the writer has sent everything, and the stream delivers all of it in nonempty chunks and
  then ends, the reader's client gets exactly the records that the writer accepted, one for each wait
  and drain, and the next wait reports the end.
\<close>

theorem transport_is_complete:
  assumes "list_all (sendable c) ops"
    and "writer_run c ops (with_mode h, start_env answers, []) = (w, e, hist)"
    and "rw_usable w" and "rw_buffer w = []"
    and "[] \<notin> set chunks" and "concat chunks = accepted h (trace e)"
  shows "let written = records_written c ops (with_mode h, start_env answers, []) in
    case reader_run c (concat (replicate (length written) [WaitToRead, TryReadNext]))
        (RecordReader_new h', [], start_env (feed chunks)) of
      (r, out, e') \<Rightarrow> out = written \<and> fst (wait_to_read c r e') = Ok False"
proof -
  let ?written = "records_written c ops (with_mode h, start_env answers, [])"
  have hist: "hist = concat (map record_bytes ?written)" "all_valid c (map record_bytes ?written)"
    using records_written_history [OF assms(1,2)] by simp_all
  have "writer_inv h (w, e, hist)" using writer_run_inv [OF writer_inv_start] assms(2) by metis
  then have "concat chunks = concat (map record_bytes ?written)"
    using assms(3,4,6) hist(1) by (simp add: writer_inv_def)
  from reader_reads_whole_stream [OF _ assms(5) this, of c h'] hist(2) show ?thesis
    by (auto simp: Let_def all_valid_def inj_map_eq_map [OF record_bytes_inject] split: prod.splits)
qed

subsection \<open>A run\<close>

text \<open>
  Two records are serialized and sent in two writes, a third one is rejected by its own callback; the
  stream delivers the first record and nine bytes of the second before it breaks.
\<close>

definition example_send :: "unit writer_op list" where
  "example_send =
     [AppendNew (RecordId (StreamId 5) (SequenceNumber 9)) (BodyWriteAll [65] (\<lambda>ok. BodyReturn (if ok then None else Some ()))),
      AppendNew (RecordId (StreamId 5) (SequenceNumber 10)) (BodyReturn (Some ())),
      AppendNew (RecordId (StreamId 5) (SequenceNumber 10)) (BodyReturn None), SendBatch]"

abbreviation example_frames :: "bytes list" where
  "example_frames \<equiv> [encode_record (\<lambda>_. 7) (RecordId (StreamId 5) (SequenceNumber 9)) [65],
     encode_record (\<lambda>_. 7) (RecordId (StreamId 5) (SequenceNumber 10)) []]"

definition example_start :: "unit writer_state" where
  "example_start = (with_mode (), start_env [Ready (Count 20), Ready (Count 13)], [])"

definition example_end_env :: "unit env" where
  "example_end_env = \<lparr>script = [], trace = [(Write () (concat example_frames), Ready (Count 20)),
     (Write () (drop 20 (concat example_frames)), Ready (Count 13))]\<rparr>"

lemma example_writes:
  "write_spec (\<lambda>_. 7) (RecordId (StreamId 5) (SequenceNumber 9))
     (BodyWriteAll [65] (\<lambda>ok. BodyReturn (if ok then None else Some ()))) = (Ok (), example_frames ! 0)"
  "write_spec (\<lambda>_. 7) (RecordId (StreamId 5) (SequenceNumber 10)) (BodyReturn (Some ())) = (Err (WriteSerialize ()), [])"
  "write_spec (\<lambda>_. 7) (RecordId (StreamId 5) (SequenceNumber 10)) (BodyReturn None :: unit body) = (Ok (), example_frames ! 1)"
  by (simp_all add: write_spec_def spec_write_def layout)

lemma example_flush:
  "rw_flush_buffer ((with_mode ())\<lparr>rw_buffer := concat example_frames\<rparr>) (start_env [Ready (Count 20), Ready (Count 13)]) =
     (Ok (), with_mode (), example_end_env)"
  by (simp add: rw_flush_buffer_def rw_check_usable_def Let_def send_loop.simps typed_call_def start_env_def
      with_mode_def example_end_env_def flip: length_0_conv)

lemma example_sending:
  "writer_run (\<lambda>_. 7) example_send example_start = (with_mode (), example_end_env, concat example_frames)"
  "map record_bytes (records_written (\<lambda>_. 7) example_send example_start) = example_frames"
  "list_all (sendable (\<lambda>_. 7)) example_send"
  using example_flush
  by (simp_all add: writer_run_def example_send_def example_start_def rw_write_refines example_writes with_mode_def
      sendable_def valid_stream_def layout)

lemma sent_example_accepted: "accepted () (trace example_end_env) = concat example_frames"
  by (simp add: example_end_env_def accepted_def)

theorem transported_records_are_a_prefix_witness:
  "case reader_run (\<lambda>_. 7) [WaitToRead, TryReadNext, WaitToRead]
      (RecordReader_new (), [], start_env [Ready (Bytes (take 26 (concat example_frames)))]) of
    (r, out, e') \<Rightarrow> prefix (map record_bytes out) example_frames"
proof -
  obtain r out e' where run: "reader_run (\<lambda>_. 7) [WaitToRead, TryReadNext, WaitToRead]
      (RecordReader_new (), [], start_env [Ready (Bytes (take 26 (concat example_frames)))]) = (r, out, e')"
    by (metis surj_pair)
  have "prefix (offered [Ready (Bytes (take 26 (concat example_frames))) :: unit answer]) (accepted () (trace example_end_env))"
    unfolding sent_example_accepted by (simp add: take_is_prefix)
  from transported_records_are_a_prefix [OF example_sending(3) example_sending(1) [unfolded example_start_def] this run]
  have "prefix out (records_written (\<lambda>_. 7) example_send example_start)" by (simp add: example_start_def)
  then show ?thesis using run example_sending(2) by (metis case_prod_conv map_record_bytes_prefix record_bytes_from_validated)
qed

theorem transport_is_complete_witness:
  "case reader_run (\<lambda>_. 7) [WaitToRead, TryReadNext, WaitToRead, TryReadNext]
      (RecordReader_new (), [], start_env (feed [take 26 (concat example_frames), drop 26 (concat example_frames)])) of
    (r, out, e') \<Rightarrow> map record_bytes out = example_frames \<and> fst (wait_to_read (\<lambda>_. 7) r e') = Ok False"
proof -
  let ?chunks = "[take 26 (concat example_frames), drop 26 (concat example_frames)]"
  have chunks: "[] \<notin> set ?chunks" "concat ?chunks = accepted () (trace example_end_env)"
    unfolding sent_example_accepted by (simp_all flip: length_0_conv)
  have usable: "rw_usable (with_mode ())" "rw_buffer (with_mode ()) = []" by (simp_all add: with_mode_def)
  have len: "length (records_written (\<lambda>_. 7) example_send example_start) = 2"
    using arg_cong [OF example_sending(2), of length] by simp
  from transport_is_complete [OF example_sending(3) example_sending(1) [unfolded example_start_def] usable chunks, of "()"]
  show ?thesis using example_sending(2) len
    by (simp add: Let_def example_start_def numeral_2_eq_2 split: prod.splits)
qed

end
