(* ===== verification/Location.thy ===== *)
theory Location
  imports Protocol
begin

text \<open>
  \<^verbatim>\<open>services/transaction-log/src/streams/location\<close>: how a stream's sequence numbers are divided
  into log files, byte positions within a file, and the boundaries of a range of records. Every
  wrapper is a datatype over its \<open>u64\<close>; the multiplications wrap as machine integers do, and the
  lemmas show that they never do for a validated file number.
\<close>

subsection \<open>File numbers\<close>

datatype LogFileNumber = LogFileNumber u64

datatype LogFileNumberError = LogFileNumberError u64

definition RECORDS_PER_FILE :: u64 where
  "RECORDS_PER_FILE = 100000"

fun LogFileNumber_get :: "LogFileNumber \<Rightarrow> u64" where
  "LogFileNumber_get (LogFileNumber v) = v"

definition LogFileNumber_MIN :: LogFileNumber where
  "LogFileNumber_MIN = LogFileNumber 0"

definition LogFileNumber_MAX :: LogFileNumber where
  "LogFileNumber_MAX = LogFileNumber (- 1 div RECORDS_PER_FILE)"

definition LogFileNumber_new :: "u64 \<Rightarrow> (LogFileNumber, LogFileNumberError) outcome" where
  "LogFileNumber_new value =
     (if value > LogFileNumber_get LogFileNumber_MAX then Err (LogFileNumberError value)
      else Ok (LogFileNumber value))"

definition LogFileNumber_from_sequence_number :: "SequenceNumber \<Rightarrow> LogFileNumber" where
  "LogFileNumber_from_sequence_number s = LogFileNumber (SequenceNumber_get s div RECORDS_PER_FILE)"

text \<open>\<open>None\<close> is the panic of the assertion.\<close>

definition LogFileNumber_next :: "LogFileNumber \<Rightarrow> LogFileNumber option" where
  "LogFileNumber_next self =
     (if LogFileNumber_get self < LogFileNumber_get LogFileNumber_MAX
      then Some (LogFileNumber (LogFileNumber_get self + 1)) else None)"

lemma RECORDS_PER_FILE_value [layout]: "RECORDS_PER_FILE = 100000"
  by (simp add: RECORDS_PER_FILE_def)

lemma unat_RECORDS_PER_FILE [simp]: "unat RECORDS_PER_FILE = 100000"
  by (simp add: RECORDS_PER_FILE_def)

definition file_nat :: "LogFileNumber \<Rightarrow> nat" where
  "file_nat n = unat (LogFileNumber_get n)"

definition max_file :: nat where
  "max_file = 184467440737095"

lemma file_nat_MAX [simp]: "file_nat LogFileNumber_MAX = max_file"
  by (simp add: file_nat_def LogFileNumber_MAX_def unat_div unat_minus_one_word max_file_def)

lemma file_nat_MIN [simp]: "file_nat LogFileNumber_MIN = 0"
  by (simp add: file_nat_def LogFileNumber_MIN_def)

lemma LogFileNumber_get_inject [simp]: "LogFileNumber_get a = LogFileNumber_get b \<longleftrightarrow> a = b"
  by (cases a; cases b) auto

lemma file_nat_inject [simp]: "file_nat a = file_nat b \<longleftrightarrow> a = b"
  unfolding file_nat_def by (metis LogFileNumber_get_inject unsigned_word_eqI)

instantiation LogFileNumber :: linorder
begin

definition less_eq_LogFileNumber :: "LogFileNumber \<Rightarrow> LogFileNumber \<Rightarrow> bool" where
  "less_eq_LogFileNumber a b = (LogFileNumber_get a \<le> LogFileNumber_get b)"

definition less_LogFileNumber :: "LogFileNumber \<Rightarrow> LogFileNumber \<Rightarrow> bool" where
  "less_LogFileNumber a b = (LogFileNumber_get a < LogFileNumber_get b)"

instance
  by standard (auto simp: less_eq_LogFileNumber_def less_LogFileNumber_def less_le)

end

lemma file_le_iff: "a \<le> b \<longleftrightarrow> file_nat a \<le> file_nat b"
  by (simp add: less_eq_LogFileNumber_def file_nat_def word_le_nat_alt)

lemma file_less_iff: "a < b \<longleftrightarrow> file_nat a < file_nat b"
  by (simp add: less_LogFileNumber_def file_nat_def word_less_nat_alt)

text \<open>The invariant of the type, established by every public constructor.\<close>

definition valid_file :: "LogFileNumber \<Rightarrow> bool" where
  "valid_file n \<longleftrightarrow> file_nat n \<le> max_file"

lemma LogFileNumber_new_eq_Ok: "LogFileNumber_new v = Ok n \<longleftrightarrow> n = LogFileNumber v \<and> valid_file n"
proof -
  have "v > LogFileNumber_get LogFileNumber_MAX \<longleftrightarrow> \<not> valid_file (LogFileNumber v)"
    using file_nat_MAX by (auto simp: valid_file_def word_less_nat_alt file_nat_def)
  then show ?thesis by (auto simp: LogFileNumber_new_def)
qed

lemma file_nat_from_sequence:
  "file_nat (LogFileNumber_from_sequence_number s) = seq_nat s div 100000"
  by (simp add: file_nat_def LogFileNumber_from_sequence_number_def unat_div seq_nat_def)

lemma valid_file_from_sequence [simp]: "valid_file (LogFileNumber_from_sequence_number s)"
proof -
  have "seq_nat s \<le> 18446744073709551615" using seq_nat_bound [of s] by simp
  then have "seq_nat s div 100000 \<le> 18446744073709551615 div 100000" by (rule div_le_mono)
  then show ?thesis by (simp add: valid_file_def file_nat_from_sequence max_file_def)
qed

lemma LogFileNumber_next_eq_Some:
  "LogFileNumber_next n = Some m \<longleftrightarrow> file_nat n < max_file \<and> file_nat m = Suc (file_nat n)"
proof -
  have lt: "LogFileNumber_get n < LogFileNumber_get LogFileNumber_MAX \<longleftrightarrow> file_nat n < max_file"
    using file_nat_MAX by (simp add: word_less_nat_alt file_nat_def)
  have suc: "file_nat (LogFileNumber (LogFileNumber_get n + 1)) = Suc (file_nat n)" if "file_nat n < max_file"
  proof -
    have "unat (LogFileNumber_get n) + unat (1 :: u64) < 2 ^ LENGTH(64)"
      using that by (simp add: file_nat_def max_file_def)
    from unat_add_no_overflow [OF this] show ?thesis by (simp add: file_nat_def)
  qed
  show ?thesis
  proof
    assume "LogFileNumber_next n = Some m"
    then show "file_nat n < max_file \<and> file_nat m = Suc (file_nat n)"
      using suc lt by (auto simp: LogFileNumber_next_def split: if_splits)
  next
    assume a: "file_nat n < max_file \<and> file_nat m = Suc (file_nat n)"
    then have "file_nat m = file_nat (LogFileNumber (LogFileNumber_get n + 1))" using suc by simp
    then show "LogFileNumber_next n = Some m"
      using a lt by (simp add: LogFileNumber_next_def del: LogFileNumber_get.simps)
  qed
qed

lemma LogFileNumber_next_eq_None: "LogFileNumber_next n = None \<longleftrightarrow> max_file \<le> file_nat n"
  using file_nat_MAX
  by (auto simp: LogFileNumber_next_def word_less_nat_alt file_nat_def)

subsection \<open>Byte positions\<close>

datatype LogFilePosition = LogFilePosition u64

fun LogFilePosition_get :: "LogFilePosition \<Rightarrow> u64" where
  "LogFilePosition_get (LogFilePosition v) = v"

definition LogFilePosition_new :: "u64 \<Rightarrow> LogFilePosition" where
  "LogFilePosition_new value = LogFilePosition value"

definition LogFilePosition_START :: LogFilePosition where
  "LogFilePosition_START = LogFilePosition 0"

definition LogFilePosition_advance :: "LogFilePosition \<Rightarrow> RecordLength \<Rightarrow> LogFilePosition option" where
  "LogFilePosition_advance self len =
     map_option LogFilePosition (checked_add (LogFilePosition_get self) (RecordLength_get len))"

definition LogFilePosition_retreat :: "LogFilePosition \<Rightarrow> RecordLength \<Rightarrow> LogFilePosition option" where
  "LogFilePosition_retreat self len =
     map_option LogFilePosition (checked_sub (LogFilePosition_get self) (RecordLength_get len))"

lemma LogFilePosition_get_inject [simp]: "LogFilePosition_get a = LogFilePosition_get b \<longleftrightarrow> a = b"
  by (cases a; cases b) auto

instantiation LogFilePosition :: linorder
begin

definition less_eq_LogFilePosition :: "LogFilePosition \<Rightarrow> LogFilePosition \<Rightarrow> bool" where
  "less_eq_LogFilePosition a b = (LogFilePosition_get a \<le> LogFilePosition_get b)"

definition less_LogFilePosition :: "LogFilePosition \<Rightarrow> LogFilePosition \<Rightarrow> bool" where
  "less_LogFilePosition a b = (LogFilePosition_get a < LogFilePosition_get b)"

instance
  by standard (auto simp: less_eq_LogFilePosition_def less_LogFilePosition_def less_le)

end

definition pos_nat :: "LogFilePosition \<Rightarrow> nat" where
  "pos_nat p = unat (LogFilePosition_get p)"

lemma pos_nat_inject [simp]: "pos_nat a = pos_nat b \<longleftrightarrow> a = b"
  unfolding pos_nat_def by (metis LogFilePosition_get_inject unsigned_word_eqI)

lemma pos_nat_bound: "pos_nat p < 2 ^ 64"
  using unat_lt2p [of "LogFilePosition_get p"] by (simp add: pos_nat_def)

lemma pos_le_iff: "a \<le> b \<longleftrightarrow> pos_nat a \<le> pos_nat b"
  by (simp add: less_eq_LogFilePosition_def pos_nat_def word_le_nat_alt)

lemma pos_less_iff: "a < b \<longleftrightarrow> pos_nat a < pos_nat b"
  by (simp add: less_LogFilePosition_def pos_nat_def word_less_nat_alt)

lemma pos_nat_START [simp]: "pos_nat LogFilePosition_START = 0"
  by (simp add: pos_nat_def LogFilePosition_START_def)

lemma pos_nat_new [simp]: "pos_nat (LogFilePosition_new v) = unat v"
  by (simp add: pos_nat_def LogFilePosition_new_def)

lemma advance_eq_Some:
  "LogFilePosition_advance p l = Some q \<longleftrightarrow> pos_nat q = pos_nat p + unat (RecordLength_get l)"
proof
  assume "LogFilePosition_advance p l = Some q"
  then show "pos_nat q = pos_nat p + unat (RecordLength_get l)"
    by (auto simp: LogFilePosition_advance_def pos_nat_def dest: checked_add_SomeD)
next
  assume q: "pos_nat q = pos_nat p + unat (RecordLength_get l)"
  then have b: "unat (LogFilePosition_get p) + unat (RecordLength_get l) < 2 ^ LENGTH(64)"
    using pos_nat_bound [of q] by (simp add: pos_nat_def)
  then have "pos_nat (LogFilePosition (LogFilePosition_get p + RecordLength_get l)) = pos_nat q"
    using unat_add_no_overflow [OF b] q by (simp add: pos_nat_def)
  then show "LogFilePosition_advance p l = Some q"
    using b by (simp add: LogFilePosition_advance_def checked_add_def)
qed

lemma pos_nat_of_nat: "n < 2 ^ 64 \<Longrightarrow> pos_nat (LogFilePosition (of_nat n)) = n"
  by (simp add: pos_nat_def unat_of_nat)

lemma advance_cases:
  "LogFilePosition_advance p l =
     (if pos_nat p + unat (RecordLength_get l) < 2 ^ 64
      then Some (LogFilePosition (of_nat (pos_nat p + unat (RecordLength_get l)))) else None)"
proof (cases "pos_nat p + unat (RecordLength_get l) < 2 ^ 64")
  case True
  then have "LogFilePosition_advance p l =
      Some (LogFilePosition (of_nat (pos_nat p + unat (RecordLength_get l))))"
    using pos_nat_of_nat [OF True] by (simp add: advance_eq_Some)
  with True show ?thesis by simp
next
  case False
  then have "LogFilePosition_advance p l \<noteq> Some q" for q
    using pos_nat_bound [of q] by (simp add: advance_eq_Some)
  with False show ?thesis by (cases "LogFilePosition_advance p l") auto
qed

text \<open>\<open>retreat\<close> undoes \<open>advance\<close> and the other way round.\<close>

lemma retreat_iff_advance:
  "LogFilePosition_retreat q l = Some p \<longleftrightarrow> LogFilePosition_advance p l = Some q"
proof
  assume "LogFilePosition_retreat q l = Some p"
  then obtain v where v: "checked_sub (LogFilePosition_get q) (RecordLength_get l) = Some v" "p = LogFilePosition v"
    by (auto simp: LogFilePosition_retreat_def)
  from checked_add_of_sub [OF v(1)] show "LogFilePosition_advance p l = Some q"
    by (cases q) (simp add: LogFilePosition_advance_def v(2))
next
  assume "LogFilePosition_advance p l = Some q"
  then obtain v where v: "checked_add (LogFilePosition_get p) (RecordLength_get l) = Some v" "q = LogFilePosition v"
    by (auto simp: LogFilePosition_advance_def)
  from checked_sub_of_add [OF v(1)] show "LogFilePosition_retreat q l = Some p"
    by (cases p) (simp add: LogFilePosition_retreat_def v(2))
qed

subsection \<open>File ids\<close>

record LogFileId =
  file_stream :: StreamId
  file_number :: LogFileNumber

datatype LogFileIdRangeError =
    FilesOfDifferentStreams LogFileId LogFileId
  | ReversedFiles LogFileId LogFileId

record LogFileRecordIndexError =
  index_error_file :: LogFileId
  index_error_index :: u64
  index_error_maximum :: u64

definition LogFileId_new :: "StreamId \<Rightarrow> LogFileNumber \<Rightarrow> LogFileId" where
  "LogFileId_new s n = \<lparr>file_stream = s, file_number = n\<rparr>"

definition LogFileId_first :: "StreamId \<Rightarrow> LogFileId" where
  "LogFileId_first s = LogFileId_new s LogFileNumber_MIN"

definition from_record_id :: "RecordId \<Rightarrow> LogFileId" where
  "from_record_id rid =
     LogFileId_new (stream_id rid) (LogFileNumber_from_sequence_number (sequence_number rid))"

definition record_count_through :: "RecordId \<Rightarrow> u64" where
  "record_count_through rid = SequenceNumber_get (sequence_number rid) mod RECORDS_PER_FILE + 1"

definition first_record_id :: "LogFileId \<Rightarrow> RecordId" where
  "first_record_id self =
     RecordId_new (file_stream self)
       (SequenceNumber_new (LogFileNumber_get (file_number self) * RECORDS_PER_FILE))"

definition last_record_id :: "LogFileId \<Rightarrow> RecordId" where
  "last_record_id self =
     (let first = LogFileNumber_get (file_number self) * RECORDS_PER_FILE;
          final = saturating_add first (RECORDS_PER_FILE - 1) in
      RecordId_new (file_stream self) (SequenceNumber_new final))"

definition record_id_at :: "LogFileId \<Rightarrow> u64 \<Rightarrow> (RecordId, LogFileRecordIndexError) outcome" where
  "record_id_at self index =
     (let maximum_index = RECORDS_PER_FILE - 1 in
      if index > maximum_index
      then Err \<lparr>index_error_file = self, index_error_index = index,
                index_error_maximum = maximum_index\<rparr>
      else
        (let first = SequenceNumber_get (sequence_number (first_record_id self)) in
         case checked_add first index of
           None \<Rightarrow> Stop Panic
         | Some sequence \<Rightarrow> Ok (RecordId_new (file_stream self) (SequenceNumber_new sequence))))"

definition LogFileId_next :: "LogFileId \<Rightarrow> LogFileId option" where
  "LogFileId_next self =
     (case LogFileNumber_next (file_number self) of
        None \<Rightarrow> None | Some n \<Rightarrow> Some (LogFileId_new (file_stream self) n))"

text \<open>
  The iterator \<^verbatim>\<open>successors(Some(first), ...)\<close> as the list it yields; \<open>None\<close> when a successor
  panics before \<open>last\<close> is reached.
\<close>

function file_successors :: "LogFileId \<Rightarrow> LogFileId \<Rightarrow> LogFileId list option" where
  "file_successors file final =
     (if file = final then Some [file]
      else
        (case LogFileId_next file of
           None \<Rightarrow> None
         | Some next \<Rightarrow> map_option ((#) file) (file_successors next final)))"
  by pat_completeness auto
termination
  by (relation "measure (\<lambda>(file, final). max_file - file_nat (file_number file))")
     (auto simp: LogFileId_next_def LogFileNumber_next_eq_Some LogFileId_new_def
       split: option.splits)

declare file_successors.simps [simp del]

definition iter_to ::
    "LogFileId \<Rightarrow> LogFileId \<Rightarrow> (LogFileId list option, LogFileIdRangeError) outcome" where
  "iter_to self final =
     (if file_stream self \<noteq> file_stream final then Err (FilesOfDifferentStreams self final)
      else if file_number self > file_number final then Err (ReversedFiles self final)
      else Ok (file_successors self final))"

lemma LogFileId_new_sel [simp]:
  "file_stream (LogFileId_new s n) = s" "file_number (LogFileId_new s n) = n"
  by (simp_all add: LogFileId_new_def)

lemma LogFileId_eqI:
  "file_stream a = file_stream b \<Longrightarrow> file_number a = file_number b \<Longrightarrow> a = (b :: LogFileId)"
  by (rule LogFileId.equality) simp_all

lemma LogFileId_new_eq: "LogFileId_new s n = f \<longleftrightarrow> s = file_stream f \<and> n = file_number f"
  by (auto intro: LogFileId_eqI)

definition valid_log_file :: "LogFileId \<Rightarrow> bool" where
  "valid_log_file f \<longleftrightarrow> valid_file (file_number f)"

lemma valid_log_file_from_record [simp]: "valid_log_file (from_record_id rid)"
  by (simp add: valid_log_file_def from_record_id_def)

lemma from_record_id_sel [simp]:
  "file_stream (from_record_id rid) = stream_id rid"
  "file_nat (file_number (from_record_id rid)) = seq_nat (sequence_number rid) div 100000"
  by (simp_all add: from_record_id_def file_nat_from_sequence)

text \<open>The first sequence number of a valid file does not overflow.\<close>

lemma first_sequence:
  assumes "valid_file n"
  shows "unat (LogFileNumber_get n * RECORDS_PER_FILE) = file_nat n * 100000"
proof -
  have "file_nat n * 100000 \<le> max_file * 100000"
    using assms unfolding valid_file_def by (rule mult_le_mono1)
  then have "unat (LogFileNumber_get n) * unat RECORDS_PER_FILE < 2 ^ LENGTH(64)"
    by (simp add: file_nat_def max_file_def)
  then show ?thesis by (simp add: unat_word_ariths file_nat_def)
qed

lemma first_record_id_seq:
  "valid_log_file f \<Longrightarrow> seq_nat (sequence_number (first_record_id f)) = file_nat (file_number f) * 100000"
  by (simp add: first_record_id_def valid_log_file_def first_sequence)

lemma last_record_id_seq:
  "valid_log_file f \<Longrightarrow>
   seq_nat (sequence_number (last_record_id f)) =
     min (file_nat (file_number f) * 100000 + 99999) (2 ^ 64 - 1)"
  by (simp add: last_record_id_def valid_log_file_def unat_saturating_add layout Let_def
      first_sequence [unfolded layout])

lemma record_id_stream [simp]:
  "stream_id (first_record_id f) = file_stream f" "stream_id (last_record_id f) = file_stream f"
  by (simp_all add: first_record_id_def last_record_id_def Let_def)

lemma record_count_nat:
  "unat (record_count_through rid) = Suc (seq_nat (sequence_number rid) mod 100000)"
proof -
  let ?s = "SequenceNumber_get (sequence_number rid)"
  have m: "unat (?s mod RECORDS_PER_FILE) = seq_nat (sequence_number rid) mod 100000"
    by (simp add: unat_mod seq_nat_def)
  have "seq_nat (sequence_number rid) mod 100000 < 100000" by simp
  then have "unat (?s mod RECORDS_PER_FILE) + unat (1 :: u64) < 2 ^ LENGTH(64)" unfolding m by simp
  from unat_add_no_overflow [OF this] show ?thesis by (simp add: record_count_through_def m)
qed

lemma record_count_le: "unat (record_count_through rid) \<le> 100000"
proof -
  have "seq_nat (sequence_number rid) mod 100000 < 100000" by simp
  then show ?thesis unfolding record_count_nat by linarith
qed

lemma from_record_id_eq_iff:
  "from_record_id rid = f \<longleftrightarrow>
     stream_id rid = file_stream f \<and> file_nat (file_number f) = seq_nat (sequence_number rid) div 100000"
proof
  assume "from_record_id rid = f"
  then show "stream_id rid = file_stream f \<and>
      file_nat (file_number f) = seq_nat (sequence_number rid) div 100000" by auto
next
  assume a: "stream_id rid = file_stream f \<and>
      file_nat (file_number f) = seq_nat (sequence_number rid) div 100000"
  then have "file_nat (file_number (from_record_id rid)) = file_nat (file_number f)" by simp
  then have "file_number (from_record_id rid) = file_number f" by (simp only: file_nat_inject)
  with a show "from_record_id rid = f" by (intro LogFileId_eqI) simp_all
qed

lemma LogFileId_next_eq_Some:
  "LogFileId_next f = Some g \<longleftrightarrow> file_stream g = file_stream f \<and>
     file_nat (file_number f) < max_file \<and> file_nat (file_number g) = Suc (file_nat (file_number f))"
  by (auto simp: LogFileId_next_def LogFileId_new_eq split: option.splits
      simp flip: LogFileNumber_next_eq_Some)

lemma div_eq_iff_range: "n div (100000 :: nat) = k \<longleftrightarrow> k * 100000 \<le> n \<and> n \<le> k * 100000 + 99999"
  by auto

text \<open>A record that is not the first of its file is in the file of the record before it.\<close>

lemma from_record_id_next:
  assumes "RecordId_next a = Some x" and "seq_nat (sequence_number x) mod 100000 \<noteq> 0"
  shows "from_record_id x = from_record_id a"
proof -
  have "Suc (seq_nat (sequence_number a)) mod 100000 \<noteq> 0"
    using assms by (simp add: RecordId_next_eq_Some)
  then have "Suc (seq_nat (sequence_number a)) div 100000 = seq_nat (sequence_number a) div 100000"
    by (simp add: div_Suc)
  then show ?thesis using assms(1) by (simp add: from_record_id_eq_iff RecordId_next_eq_Some)
qed

lemma record_id_at_eq:
  assumes "valid_log_file f" and "unat i < 100000"
  shows "record_id_at f i =
    (case checked_add (SequenceNumber_get (sequence_number (first_record_id f))) i of
       None \<Rightarrow> Stop Panic | Some q \<Rightarrow> Ok (RecordId_new (file_stream f) (SequenceNumber_new q)))"
proof -
  have "\<not> i > RECORDS_PER_FILE - 1" using assms(2) by (simp add: word_less_nat_alt layout)
  then show ?thesis by (simp add: record_id_at_def Let_def)
qed

subsection \<open>Record boundaries\<close>

record RecordEndLocation =
  end_record_id :: RecordId
  end_position :: LogFilePosition

record RecordStartLocation =
  start_record_id :: RecordId
  start_position :: LogFilePosition

definition RecordEndLocation_new :: "RecordId \<Rightarrow> LogFilePosition \<Rightarrow> RecordEndLocation" where
  "RecordEndLocation_new rid p = \<lparr>end_record_id = rid, end_position = p\<rparr>"

definition RecordStartLocation_new :: "RecordId \<Rightarrow> LogFilePosition \<Rightarrow> RecordStartLocation" where
  "RecordStartLocation_new rid p = \<lparr>start_record_id = rid, start_position = p\<rparr>"

definition end_log_file_id :: "RecordEndLocation \<Rightarrow> LogFileId" where
  "end_log_file_id self = from_record_id (end_record_id self)"

definition start_log_file_id :: "RecordStartLocation \<Rightarrow> LogFileId" where
  "start_log_file_id self = from_record_id (start_record_id self)"

text \<open>\<open>None\<close> is a panic: byte-position overflow, or sequence exhaustion.\<close>

definition next_record_start :: "RecordEndLocation \<Rightarrow> RecordStartLocation option" where
  "next_record_start self =
     (case RecordId_next (end_record_id self) of
        None \<Rightarrow> None
      | Some next_id \<Rightarrow>
          (let position = (if from_record_id next_id = end_log_file_id self then end_position self
                           else LogFilePosition_new 0) in
           Some (RecordStartLocation_new next_id position)))"

definition to_end :: "RecordStartLocation \<Rightarrow> RecordLength \<Rightarrow> RecordEndLocation option" where
  "to_end self len =
     map_option (RecordEndLocation_new (start_record_id self))
       (LogFilePosition_advance (start_position self) len)"

definition to_next :: "RecordStartLocation \<Rightarrow> RecordLength \<Rightarrow> RecordStartLocation option" where
  "to_next self len =
     (case to_end self len of None \<Rightarrow> None | Some end \<Rightarrow> next_record_start end)"

text \<open>The byte position of an optional end: where the next record of the same file starts.\<close>

definition base_pos :: "RecordEndLocation option \<Rightarrow> nat" where
  "base_pos b = (case b of None \<Rightarrow> 0 | Some end \<Rightarrow> pos_nat (end_position end))"

text \<open>The number of records in the file up to a trusted end.\<close>

definition trusted_count :: "RecordEndLocation option \<Rightarrow> nat" where
  "trusted_count b =
     (case b of None \<Rightarrow> 0 | Some end \<Rightarrow> unat (record_count_through (end_record_id end)))"

lemma trusted_count_le: "trusted_count b \<le> 100000"
  by (auto simp: trusted_count_def record_count_le split: option.splits)

subsection \<open>Ranges of records\<close>

datatype LogFileRange =
    FileRange LogFilePosition LogFilePosition
  | FilePostfix LogFilePosition
  | EntireFile
  | FilePrefix LogFilePosition

datatype RecordRangeLocationError =
    DifferentStreams StreamId StreamId
  | ReversedRecords SequenceNumber SequenceNumber
  | InvalidByteSpan LogFileId LogFilePosition LogFilePosition

record RecordRangeLocation =
  range_start :: RecordStartLocation
  range_end :: RecordEndLocation

definition RecordRangeLocation_new ::
    "RecordStartLocation \<Rightarrow> RecordEndLocation \<Rightarrow>
     (RecordRangeLocation, RecordRangeLocationError) outcome" where
  "RecordRangeLocation_new start end =
     (let sid = start_record_id start; eid = end_record_id end in
      if stream_id sid \<noteq> stream_id eid then Err (DifferentStreams (stream_id sid) (stream_id eid))
      else if sequence_number sid > sequence_number eid
      then Err (ReversedRecords (sequence_number sid) (sequence_number eid))
      else
        (let start_file = start_log_file_id start;
             end_file = end_log_file_id end;
             end_file_start = (if start_file = end_file then start_position start
                               else LogFilePosition_new 0) in
         if end_position end \<le> end_file_start
         then Err (InvalidByteSpan end_file end_file_start (end_position end))
         else Ok \<lparr>range_start = start, range_end = end\<rparr>))"

definition range_of_file :: "RecordRangeLocation \<Rightarrow> LogFileId \<Rightarrow> LogFileRange" where
  "range_of_file self file =
     (let first = start_log_file_id (range_start self);
          final = end_log_file_id (range_end self) in
      if first = final
      then FileRange (start_position (range_start self)) (end_position (range_end self))
      else if file = first then FilePostfix (start_position (range_start self))
      else if file = final then FilePrefix (end_position (range_end self))
      else EntireFile)"

definition range_iter :: "RecordRangeLocation \<Rightarrow> (LogFileId \<times> LogFileRange) list option" where
  "range_iter self =
     map_option (map (\<lambda>file. (file, range_of_file self file)))
       (file_successors (start_log_file_id (range_start self)) (end_log_file_id (range_end self)))"

lemma location_new_sel [simp]:
  "end_record_id (RecordEndLocation_new rid p) = rid" "end_position (RecordEndLocation_new rid p) = p"
  "start_record_id (RecordStartLocation_new rid p) = rid"
  "start_position (RecordStartLocation_new rid p) = p"
  by (simp_all add: RecordEndLocation_new_def RecordStartLocation_new_def)

subsection \<open>Enumerating files\<close>

definition file_at :: "StreamId \<Rightarrow> nat \<Rightarrow> LogFileId" where
  "file_at s n = LogFileId_new s (LogFileNumber (of_nat n))"

lemma file_nat_of_nat: "n \<le> max_file \<Longrightarrow> file_nat (LogFileNumber (of_nat n)) = n"
  by (simp add: file_nat_def max_file_def unat_of_nat)

lemma file_at_sel [simp]:
  "file_stream (file_at s n) = s" "n \<le> max_file \<Longrightarrow> file_nat (file_number (file_at s n)) = n"
  by (simp_all add: file_at_def file_nat_of_nat)

lemma file_at_eq: "valid_log_file f \<Longrightarrow> file_at (file_stream f) (file_nat (file_number f)) = f"
proof -
  assume "valid_log_file f"
  then have "file_nat (file_number (file_at (file_stream f) (file_nat (file_number f)))) = file_nat (file_number f)"
    by (simp add: valid_log_file_def valid_file_def)
  then have "file_number (file_at (file_stream f) (file_nat (file_number f))) = file_number f"
    by (simp only: file_nat_inject)
  then show ?thesis by (intro LogFileId_eqI) simp_all
qed

lemma LogFileId_next_file_at:
  assumes "n < max_file"
  shows "LogFileId_next (file_at s n) = Some (file_at s (Suc n))"
  using assms by (simp add: LogFileId_next_eq_Some)

lemma file_successors_enumerates:
  "a \<le> b \<Longrightarrow> b \<le> max_file \<Longrightarrow>
   file_successors (file_at s a) (file_at s b) = Some (map (file_at s) [a..<Suc b])"
proof (induction "b - a" arbitrary: a)
  case 0
  then show ?case by (simp add: file_successors.simps)
next
  case (Suc d)
  then have lt: "a < b" by simp
  have "file_nat (file_number (file_at s a)) \<noteq> file_nat (file_number (file_at s b))"
    using Suc.prems lt by simp
  then have ne: "file_at s a \<noteq> file_at s b" by auto
  have "LogFileId_next (file_at s a) = Some (file_at s (Suc a))"
    using lt Suc.prems by (intro LogFileId_next_file_at) simp
  moreover have "file_successors (file_at s (Suc a)) (file_at s b) = Some (map (file_at s) [Suc a..<Suc b])"
    using Suc lt by simp
  ultimately show ?case
    using ne lt by (subst file_successors.simps) (simp add: upt_conv_Cons del: upt_Suc)
qed

lemma file_successors_eq:
  assumes "valid_log_file a" and "valid_log_file b" and "file_stream a = file_stream b"
    and "file_nat (file_number a) \<le> file_nat (file_number b)"
  shows "file_successors a b = Some (map (file_at (file_stream a))
      [file_nat (file_number a)..<Suc (file_nat (file_number b))])"
proof -
  have "file_nat (file_number b) \<le> max_file" using assms(2) by (simp add: valid_log_file_def valid_file_def)
  from file_successors_enumerates [OF assms(4) this, of "file_stream a"] show ?thesis
    using file_at_eq [OF assms(1)] file_at_eq [OF assms(2)] assms(3) by simp
qed

subsection \<open>Properties\<close>

lemma record_range_iff:
  assumes "valid_log_file f"
  shows "from_record_id rid = f \<longleftrightarrow> first_record_id f \<le> rid \<and> rid \<le> last_record_id f"
proof -
  let ?n = "seq_nat (sequence_number rid)" and ?k = "file_nat (file_number f)"
  have n: "?n \<le> 2 ^ 64 - 1" using seq_nat_bound [of "sequence_number rid"] by simp
  have "first_record_id f \<le> rid \<and> rid \<le> last_record_id f \<longleftrightarrow>
      stream_id rid = file_stream f \<and> ?k * 100000 \<le> ?n \<and> ?n \<le> min (?k * 100000 + 99999) (2 ^ 64 - 1)"
    unfolding less_eq_RecordId_def record_id_stream seq_le_iff first_record_id_seq [OF assms]
      last_record_id_seq [OF assms]
    using order.asym [of "file_stream f" "stream_id rid"] by auto
  also have "\<dots> \<longleftrightarrow> stream_id rid = file_stream f \<and> ?n div 100000 = ?k"
    using n unfolding div_eq_iff_range by auto
  finally show ?thesis unfolding from_record_id_eq_iff by auto
qed

text \<open>
  The files partition a stream's sequence numbers: a record id belongs to a file iff it lies
  between the file's first and last id, also in the shorter last file, where the range ends at
  the last sequence number instead of overflowing.
\<close>

theorem file_range_contains_exactly_its_records:
  assumes "valid_log_file f"
  shows "from_record_id rid = f \<longleftrightarrow> first_record_id f \<le> rid \<and> rid \<le> last_record_id f"
  using assms by (rule record_range_iff)

theorem file_range_contains_exactly_its_records_witness:
  "valid_log_file (LogFileId_first (StreamId 3)) \<and>
   (from_record_id (RecordId (StreamId 3) (SequenceNumber 99999)) = LogFileId_first (StreamId 3) \<longleftrightarrow>
    first_record_id (LogFileId_first (StreamId 3)) \<le> RecordId (StreamId 3) (SequenceNumber 99999) \<and>
    RecordId (StreamId 3) (SequenceNumber 99999) \<le> last_record_id (LogFileId_first (StreamId 3)))"
proof
  show v: "valid_log_file (LogFileId_first (StreamId 3))"
    by (simp add: valid_log_file_def LogFileId_first_def valid_file_def)
  show "from_record_id (RecordId (StreamId 3) (SequenceNumber 99999)) = LogFileId_first (StreamId 3) \<longleftrightarrow>
    first_record_id (LogFileId_first (StreamId 3)) \<le> RecordId (StreamId 3) (SequenceNumber 99999) \<and>
    RecordId (StreamId 3) (SequenceNumber 99999) \<le> last_record_id (LogFileId_first (StreamId 3))"
    by (rule file_range_contains_exactly_its_records [OF v])
qed

text \<open>
  Consecutive files are contiguous: the record after a file's last one is the next file's
  first one, and a file has no successor exactly when its last record has none.
\<close>

theorem next_file_continues_sequence:
  assumes "valid_log_file f"
  shows "case LogFileId_next f of
      Some g \<Rightarrow> valid_log_file g \<and> RecordId_next (last_record_id f) = Some (first_record_id g)
    | None \<Rightarrow> file_number f = LogFileNumber_MAX \<and> RecordId_next (last_record_id f) = None"
proof (cases "LogFileId_next f")
  case None
  then have "max_file \<le> file_nat (file_number f)"
    by (simp add: LogFileId_next_def LogFileNumber_next_eq_None split: option.splits)
  then have k: "file_nat (file_number f) = max_file"
    using assms by (simp add: valid_log_file_def valid_file_def)
  then have "file_number f = LogFileNumber_MAX" by (metis file_nat_MAX file_nat_inject)
  moreover have "seq_nat (sequence_number (last_record_id f)) = 2 ^ 64 - 1"
    unfolding last_record_id_seq [OF assms] k by (simp add: max_file_def)
  ultimately show ?thesis using None RecordId_next_eq_None by simp
next
  case (Some g)
  then have g: "file_stream g = file_stream f" "file_nat (file_number f) < max_file"
      "file_nat (file_number g) = Suc (file_nat (file_number f))"
    by (simp_all add: LogFileId_next_eq_Some)
  then have v: "valid_log_file g" by (simp add: valid_log_file_def valid_file_def)
  have "seq_nat (sequence_number (last_record_id f)) = file_nat (file_number f) * 100000 + 99999"
    unfolding last_record_id_seq [OF assms] using g(2) by (simp add: max_file_def)
  then have "RecordId_next (last_record_id f) = Some (first_record_id g)"
    using first_record_id_seq [OF v] g by (simp add: RecordId_next_eq_Some)
  with Some v show ?thesis by simp
qed

theorem next_file_continues_sequence_witness:
  "case LogFileId_next (file_at (StreamId 0) 4) of
      Some g \<Rightarrow> valid_log_file g \<and>
        RecordId_next (last_record_id (file_at (StreamId 0) 4)) = Some (first_record_id g)
    | None \<Rightarrow> False"
  using next_file_continues_sequence [of "file_at (StreamId 0) 4"] LogFileId_next_file_at [of 4 "StreamId 0"]
  by (simp add: valid_log_file_def valid_file_def max_file_def)

text \<open>
  A record is found at its own position: its file and its one-based count in the file lead
  back to it, for every id including the last one, and the count never exceeds the file's size.
\<close>

theorem record_found_at_its_count:
  "record_id_at (from_record_id rid) (record_count_through rid - 1) = Ok rid \<and>
   0 < record_count_through rid \<and> record_count_through rid \<le> RECORDS_PER_FILE"
proof -
  let ?c = "record_count_through rid" and ?f = "from_record_id rid"
  let ?n = "seq_nat (sequence_number rid)"
  have m: "?n mod 100000 < 100000" by simp
  have pos: "0 < ?c" "?c \<le> RECORDS_PER_FILE"
    using record_count_nat [of rid] m by (simp_all add: word_less_nat_alt word_le_nat_alt layout)
  have "unat (?c - 1) = unat ?c - unat (1 :: u64)"
    using record_count_nat [of rid] by (intro unat_sub) (simp add: word_le_nat_alt)
  then have i: "unat (?c - 1) = ?n mod 100000" using record_count_nat [of rid] by simp
  have first: "unat (SequenceNumber_get (sequence_number (first_record_id ?f))) = ?n div 100000 * 100000"
    using first_record_id_seq [of ?f] by (simp add: seq_nat_def)
  have sum: "?n div 100000 * 100000 + ?n mod 100000 = ?n" by (rule div_mult_mod_eq)
  obtain q where q: "checked_add (SequenceNumber_get (sequence_number (first_record_id ?f))) (?c - 1) = Some q"
    using checked_add_eq_None [of "SequenceNumber_get (sequence_number (first_record_id ?f))" "?c - 1"]
      seq_nat_bound [of "sequence_number rid"] sum i first by fastforce
  then have "unat q = ?n" using checked_add_SomeD [OF q] i first sum by simp
  then have "SequenceNumber_new q = sequence_number rid" by (metis seq_nat_inject seq_nat_new)
  then have "RecordId_new (file_stream ?f) (SequenceNumber_new q) = rid" by (intro RecordId_eqI) simp_all
  then have "record_id_at ?f (?c - 1) = Ok rid" using record_id_at_eq [of ?f "?c - 1"] i q m by simp
  with pos show ?thesis by blast
qed

text \<open>
  \<open>record_id_at\<close> on a valid file: a result is a record of that file at that position; the error
  is exactly an index beyond the file's range; and the panic needs the last file and an index
  beyond its 51,616 positions.
\<close>

theorem record_id_at_outcomes:
  assumes "valid_log_file f"
  shows "case record_id_at f i of
      Ok rid \<Rightarrow> from_record_id rid = f \<and> unat (record_count_through rid) = Suc (unat i)
    | Err x \<Rightarrow> RECORDS_PER_FILE \<le> i \<and> index_error_index x = i
    | Stop s \<Rightarrow> s = Panic \<and> file_number f = LogFileNumber_MAX \<and> 51616 \<le> unat i"
proof (cases "unat i < 100000")
  case False
  then have "RECORDS_PER_FILE - 1 < i" "RECORDS_PER_FILE \<le> i"
    by (simp_all add: word_less_nat_alt word_le_nat_alt layout)
  then show ?thesis by (simp add: record_id_at_def)
next
  case True
  let ?b = "SequenceNumber_get (sequence_number (first_record_id f))"
  have b: "unat ?b = file_nat (file_number f) * 100000"
    using first_record_id_seq [OF assms] by (simp add: seq_nat_def)
  show ?thesis
  proof (cases "checked_add ?b i")
    case None
    then have "2 ^ 64 \<le> file_nat (file_number f) * 100000 + unat i"
      using checked_add_eq_None [of ?b i] b by simp
    moreover have k: "file_nat (file_number f) \<le> max_file"
      using assms by (simp add: valid_log_file_def valid_file_def)
    ultimately have "file_nat (file_number f) = max_file" "51616 \<le> unat i"
      using True by (simp_all add: max_file_def)
    then have "file_number f = LogFileNumber_MAX" by (metis file_nat_MAX file_nat_inject)
    with \<open>51616 \<le> unat i\<close> show ?thesis using None record_id_at_eq [OF assms True] by simp
  next
    case (Some q)
    then have q: "unat q = file_nat (file_number f) * 100000 + unat i"
      using checked_add_SomeD [OF Some] b by simp
    then have "unat q div 100000 = file_nat (file_number f)" "unat q mod 100000 = unat i"
      using True by simp_all
    then show ?thesis using Some record_id_at_eq [OF assms True]
      by (simp add: from_record_id_eq_iff record_count_nat)
  qed
qed

theorem record_id_at_outcomes_witness:
  "case record_id_at (file_at (StreamId 0) 0) 5 of
      Ok rid \<Rightarrow> from_record_id rid = file_at (StreamId 0) 0 \<and> unat (record_count_through rid) = 6
    | _ \<Rightarrow> False"
  using record_id_at_outcomes [of "file_at (StreamId 0) 0" 5]
  by (simp add: valid_log_file_def valid_file_def layout split: outcome.splits)

text \<open>
  Enumerating files: the result is an error exactly for different streams or reversed bounds;
  otherwise the iterator yields every file from the first to the last, each once, in order, and
  stops without asking for a successor of the last, so it never panics.
\<close>

theorem iter_to_enumerates:
  assumes "valid_log_file a" and "valid_log_file b"
  shows "iter_to a b =
    (if file_stream a \<noteq> file_stream b then Err (FilesOfDifferentStreams a b)
     else if file_number b < file_number a then Err (ReversedFiles a b)
     else Ok (Some (map (file_at (file_stream a))
                [file_nat (file_number a)..<Suc (file_nat (file_number b))])))"
proof (cases "file_stream a \<noteq> file_stream b \<or> file_number b < file_number a")
  case True
  then show ?thesis by (auto simp: iter_to_def)
next
  case False
  then have s: "file_stream a = file_stream b" and le: "file_nat (file_number a) \<le> file_nat (file_number b)"
    by (simp_all add: file_less_iff)
  from file_successors_eq [OF assms this] False s show ?thesis by (simp add: iter_to_def)
qed

theorem iter_to_enumerates_witness:
  "iter_to (file_at (StreamId 1) 2) (file_at (StreamId 1) 4) =
    Ok (Some [file_at (StreamId 1) 2, file_at (StreamId 1) 3, file_at (StreamId 1) 4])"
  using iter_to_enumerates [of "file_at (StreamId 1) 2" "file_at (StreamId 1) 4"]
  by (simp add: valid_log_file_def valid_file_def max_file_def file_less_iff upt_rec)

text \<open>
  The start of the next record: the id is the successor, and the position is where the record
  ended, except for the first record of a file, which starts at zero.
\<close>

theorem next_start_follows_record:
  assumes "to_next s l = Some s'"
  shows "RecordId_next (start_record_id s) = Some (start_record_id s') \<and>
    pos_nat (start_position s') =
      (if record_count_through (start_record_id s') = 1 then 0
       else pos_nat (start_position s) + unat (RecordLength_get l))"
proof -
  obtain p j where p: "LogFilePosition_advance (start_position s) l = Some p"
    and j: "RecordId_next (start_record_id s) = Some j"
    and s': "s' = RecordStartLocation_new j
      (if from_record_id j = from_record_id (start_record_id s) then p else LogFilePosition_new 0)"
    using assms
    by (auto simp: to_next_def to_end_def next_record_start_def end_log_file_id_def Let_def
        split: option.splits)
  let ?n = "seq_nat (sequence_number (start_record_id s))"
  have jn: "stream_id j = stream_id (start_record_id s)" "seq_nat (sequence_number j) = Suc ?n"
    using j by (simp_all add: RecordId_next_eq_Some)
  have "from_record_id j = from_record_id (start_record_id s) \<longleftrightarrow> ?n div 100000 = Suc ?n div 100000"
    using jn by (simp add: from_record_id_eq_iff)
  also have "\<dots> \<longleftrightarrow> Suc ?n mod 100000 \<noteq> 0" by (simp add: div_Suc)
  also have "\<dots> \<longleftrightarrow> unat (record_count_through j) \<noteq> unat (1 :: u64)"
    using record_count_nat [of j] jn by simp
  also have "\<dots> \<longleftrightarrow> record_count_through j \<noteq> 1" by (metis unsigned_word_eqI)
  finally show ?thesis using j s' p by (simp add: advance_eq_Some)
qed

theorem next_start_follows_record_witness:
  "pos_nat (start_position (the (to_next
     (RecordStartLocation_new (RecordId (StreamId 2) (SequenceNumber 4)) (LogFilePosition 100))
     (RecordLength 16)))) = 116"
proof -
  let ?s = "RecordStartLocation_new (RecordId (StreamId 2) (SequenceNumber 4)) (LogFilePosition 100)"
  have n: "to_next ?s (RecordLength 16) =
      Some (RecordStartLocation_new (RecordId (StreamId 2) (SequenceNumber 5)) (LogFilePosition 116))"
    by (simp add: to_next_def to_end_def LogFilePosition_advance_def checked_add_def
        next_record_start_def RecordId_next_def RecordId_new_def SequenceNumber_new_def
        end_log_file_id_def from_record_id_def LogFileNumber_from_sequence_number_def layout)
  have "record_count_through (RecordId (StreamId 2) (SequenceNumber 5)) \<noteq> 1"
    by (simp add: record_count_through_def layout)
  with next_start_follows_record [OF n] n show ?thesis by (simp add: pos_nat_def)
qed

abbreviation record_file :: "RecordId \<Rightarrow> nat" where
  "record_file rid \<equiv> seq_nat (sequence_number rid) div 100000"

lemma from_record_id_file_at: "from_record_id rid = file_at (stream_id rid) (record_file rid)"
  using file_at_eq [OF valid_log_file_from_record, of rid] by simp

lemma record_file_le_max: "record_file rid \<le> max_file"
  using valid_log_file_from_record [of rid] by (simp add: valid_log_file_def valid_file_def)

lemma file_at_inject: "m \<le> max_file \<Longrightarrow> n \<le> max_file \<Longrightarrow> file_at st m = file_at st n \<longleftrightarrow> m = n"
  by (metis file_at_sel(2))

lemma RecordRangeLocation_new_Ok:
  assumes "RecordRangeLocation_new s e = Ok r"
  shows "r = \<lparr>range_start = s, range_end = e\<rparr>"
    and "stream_id (end_record_id e) = stream_id (start_record_id s)"
    and "seq_nat (sequence_number (start_record_id s)) \<le> seq_nat (sequence_number (end_record_id e))"
    and "(if from_record_id (start_record_id s) = from_record_id (end_record_id e) then start_position s
          else LogFilePosition_new 0) < end_position e"
  using assms
  by (auto simp: RecordRangeLocation_new_def Let_def start_log_file_id_def end_log_file_id_def
      not_less seq_less_iff not_le split: if_splits)

lemma file_holds_requested_record:
  assumes order: "sid \<le> eid" and k: "record_file sid \<le> k" "k \<le> record_file eid" and st: "stream_id eid = stream_id sid"
  shows "\<exists>rid. sid \<le> rid \<and> rid \<le> eid \<and> from_record_id rid = file_at (stream_id sid) k"
proof (cases "k = record_file sid")
  case True
  then show ?thesis using order by (intro exI [of _ sid]) (simp add: from_record_id_file_at)
next
  case False
  let ?file = "file_at (stream_id sid) k"
  have max: "k \<le> max_file" using k(2) record_file_le_max [of eid] by simp
  then have v: "valid_log_file ?file" by (simp add: valid_log_file_def valid_file_def)
  note first = first_record_id_seq [OF v]
  have "seq_nat (sequence_number sid) \<le> k * 100000" "k * 100000 \<le> seq_nat (sequence_number eid)"
    using k False by (auto simp: div_le_mono)
  moreover have "from_record_id (first_record_id ?file) = ?file"
    using first max by (simp add: from_record_id_eq_iff)
  ultimately show ?thesis using first max st
    by (intro exI [of _ "first_record_id ?file"]) (simp add: less_eq_RecordId_def seq_le_iff)
qed

lemma requested_record_file:
  assumes "sid \<le> rid" "rid \<le> eid" "stream_id eid = stream_id sid"
  shows "stream_id rid = stream_id sid \<and> record_file sid \<le> record_file rid \<and> record_file rid \<le> record_file eid"
proof -
  have "stream_id rid = stream_id sid" "seq_nat (sequence_number sid) \<le> seq_nat (sequence_number rid)"
      "seq_nat (sequence_number rid) \<le> seq_nat (sequence_number eid)"
    using assms order.asym [of "stream_id sid" "stream_id rid"] by (auto simp: less_eq_RecordId_def seq_le_iff)
  then show ?thesis by (simp add: div_le_mono)
qed

lemma files_of_requested_records:
  assumes "sid \<le> eid" "stream_id eid = stream_id sid"
  shows "from_record_id ` {rid. sid \<le> rid \<and> rid \<le> eid} =
    file_at (stream_id sid) ` {record_file sid..record_file eid}"
proof (intro subset_antisym subsetI)
  fix x assume "x \<in> from_record_id ` {rid. sid \<le> rid \<and> rid \<le> eid}"
  then obtain rid where rid: "x = from_record_id rid" "sid \<le> rid" "rid \<le> eid" by auto
  note f = requested_record_file [OF rid(2,3) assms(2)]
  show "x \<in> file_at (stream_id sid) ` {record_file sid..record_file eid}"
    using f rid(1) from_record_id_file_at [of rid] by (intro image_eqI [of _ _ "record_file rid"]) simp_all
next
  fix x assume "x \<in> file_at (stream_id sid) ` {record_file sid..record_file eid}"
  then obtain k where k: "x = file_at (stream_id sid) k" "record_file sid \<le> k" "k \<le> record_file eid" by auto
  from file_holds_requested_record [OF assms(1) k(2,3) assms(2)] obtain rid
    where "sid \<le> rid" "rid \<le> eid" "from_record_id rid = x" using k(1) by blast
  then show "x \<in> from_record_id ` {rid. sid \<le> rid \<and> rid \<le> eid}" by (intro image_eqI [of _ _ rid]) simp_all
qed

definition range_items :: "RecordRangeLocation \<Rightarrow> (LogFileId \<times> LogFileRange) list" where
  "range_items r = map (\<lambda>k. (file_at (stream_id (start_record_id (range_start r))) k,
      range_of_file r (file_at (stream_id (start_record_id (range_start r))) k)))
    [record_file (start_record_id (range_start r))..<Suc (record_file (end_record_id (range_end r)))]"

lemma range_iter_items:
  assumes "RecordRangeLocation_new s e = Ok r"
  shows "range_iter r = Some (range_items r)"
proof -
  note ok = RecordRangeLocation_new_Ok [OF assms]
  have le: "record_file (start_record_id s) \<le> record_file (end_record_id e)" using ok(3) by (rule div_le_mono)
  from file_successors_enumerates [OF le record_file_le_max, of "stream_id (start_record_id s)"]
  show ?thesis using ok(2)
    by (simp add: range_iter_def range_items_def ok(1) start_log_file_id_def end_log_file_id_def
        from_record_id_file_at comp_def Suc_diff_le [OF le, symmetric] del: upt_Suc)
qed

lemma range_of_file_at:
  assumes "a < b" "b \<le> max_file" "k \<le> b" and "from_record_id (start_record_id s) = file_at st a"
    and "from_record_id (end_record_id e) = file_at st b"
  shows "range_of_file \<lparr>range_start = s, range_end = e\<rparr> (file_at st k) =
    (if k = a then FilePostfix (start_position s) else if k = b then FilePrefix (end_position e) else EntireFile)"
  using assms
  by (simp add: range_of_file_def start_log_file_id_def end_log_file_id_def file_at_inject Let_def)

lemma range_items_shape:
  assumes "RecordRangeLocation_new s e = Ok r"
  shows "map snd (range_items r) =
    (if length (range_items r) = 1 then [FileRange (start_position s) (end_position e)]
     else FilePostfix (start_position s) # replicate (length (range_items r) - 2) EntireFile @
          [FilePrefix (end_position e)])"
proof -
  let ?st = "stream_id (start_record_id s)"
  let ?a = "record_file (start_record_id s)" and ?b = "record_file (end_record_id e)"
  note ok = RecordRangeLocation_new_Ok [OF assms]
  have fa: "from_record_id (start_record_id s) = file_at ?st ?a"
    and fb: "from_record_id (end_record_id e) = file_at ?st ?b"
    using ok(2) by (simp_all add: from_record_id_file_at)
  have len: "length (range_items r) = Suc ?b - ?a" by (simp add: range_items_def ok(1) del: upt_Suc)
  consider (one) "?a = ?b" | (more) "?a < ?b" using div_le_mono [OF ok(3), of 100000] by linarith
  then show ?thesis
  proof cases
    case one
    then show ?thesis
      using fa fb by (simp add: range_items_def range_of_file_def ok(1) start_log_file_id_def end_log_file_id_def)
  next
    case more
    note at = range_of_file_at [OF more record_file_le_max _ fa fb]
    have cut: "[?a..<Suc ?b] = ?a # [Suc ?a..<?b] @ [?b]" using more by (simp add: upt_conv_Cons)
    have mid: "map (\<lambda>k. range_of_file r (file_at ?st k)) [Suc ?a..<?b] = replicate (?b - Suc ?a) EntireFile"
      by (rule nth_equalityI) (use more in \<open>auto simp: at ok(1)\<close>)
    have "length (range_items r) \<noteq> 1" "length (range_items r) - 2 = ?b - Suc ?a" using more len by simp_all
    then show ?thesis using mid at [of ?a] at [of ?b] more
      by (simp add: range_items_def ok(1) cut comp_def del: upt_Suc)
  qed
qed

text \<open>
  C40. A range of records that the constructor accepts: its iterator never panics and yields, in
  ascending order, exactly the files that hold a requested record, each paired with its span. A
  single file has the span between the two positions; otherwise the first file has the rest from
  the start position, the last one the head up to the end position, and every file between them is
  entire. The span of a single file and the last file's head are not empty.
\<close>

theorem range_iter_covers_request:
  assumes "RecordRangeLocation_new s e = Ok r"
  shows "\<exists>files spans. range_iter r = Some (zip files spans) \<and> length spans = length files \<and>
    sorted_wrt (<) (map file_number files) \<and>
    set files = from_record_id ` {rid. start_record_id s \<le> rid \<and> rid \<le> end_record_id e} \<and>
    hd files = from_record_id (start_record_id s) \<and> last files = from_record_id (end_record_id e) \<and>
    spans =
      (if length files = 1 then [FileRange (start_position s) (end_position e)]
       else FilePostfix (start_position s) # replicate (length files - 2) EntireFile @
            [FilePrefix (end_position e)]) \<and>
    (if length files = 1 then start_position s else LogFilePosition_START) < end_position e"
proof -
  note ok = RecordRangeLocation_new_Ok [OF assms]
  let ?sid = "start_record_id s" and ?eid = "end_record_id e"
  let ?a = "record_file ?sid" and ?b = "record_file ?eid"
  let ?files = "map (file_at (stream_id ?sid)) [?a..<Suc ?b]"
  have le: "?a \<le> ?b" using ok(3) by (rule div_le_mono)
  have names: "map fst (range_items r) = ?files" by (simp add: range_items_def ok(1) comp_def)
  have "range_iter r = Some (zip ?files (map snd (range_items r)))"
    using range_iter_items [OF assms] unfolding names [symmetric] by (simp add: zip_map_fst_snd)
  moreover have len: "length (map snd (range_items r)) = length ?files"
    unfolding names [symmetric] length_map by (rule refl)
  moreover have "sorted_wrt (<) (map file_number ?files)" using record_file_le_max [of ?eid]
    by (auto simp: sorted_wrt_map file_less_iff simp del: upt_Suc intro: sorted_wrt_mono_rel [OF _ sorted_wrt_upt])
  moreover have "?sid \<le> ?eid" using ok(2,3) by (simp add: less_eq_RecordId_def seq_le_iff)
  from files_of_requested_records [OF this ok(2)]
  have "set ?files = from_record_id ` {rid. ?sid \<le> rid \<and> rid \<le> ?eid}"
    by (simp add: atLeastLessThanSuc_atLeastAtMost del: upt_Suc)
  moreover have "hd ?files = from_record_id ?sid" "last ?files = from_record_id ?eid"
    using le ok(2) by (simp_all add: from_record_id_file_at hd_map last_map del: upt_Suc)
  moreover have "length ?files = 1 \<longleftrightarrow> from_record_id ?sid = from_record_id ?eid"
    using le ok(2) record_file_le_max by (auto simp: from_record_id_file_at file_at_inject)
  with ok(4) have "(if length ?files = 1 then start_position s else LogFilePosition_START) < end_position e"
    by (simp add: LogFilePosition_START_def LogFilePosition_new_def split: if_splits)
  moreover have "map snd (range_items r) =
      (if length ?files = 1 then [FileRange (start_position s) (end_position e)]
       else FilePostfix (start_position s) # replicate (length ?files - 2) EntireFile @
            [FilePrefix (end_position e)])"
    by (rule range_items_shape [OF assms, unfolded length_map [of snd, symmetric] len])
  ultimately show ?thesis by blast
qed

theorem range_iter_covers_request_witness:
  "\<exists>files spans. range_iter \<lparr>range_start = RecordStartLocation_new (RecordId (StreamId 2) (SequenceNumber 5)) (LogFilePosition 80),
      range_end = RecordEndLocation_new (RecordId (StreamId 2) (SequenceNumber 5)) (LogFilePosition 96)\<rparr> = Some (zip files spans) \<and>
    hd files = from_record_id (RecordId (StreamId 2) (SequenceNumber 5)) \<and> sorted_wrt (<) (map file_number files)"
proof -
  let ?s = "RecordStartLocation_new (RecordId (StreamId 2) (SequenceNumber 5)) (LogFilePosition 80)"
  let ?e = "RecordEndLocation_new (RecordId (StreamId 2) (SequenceNumber 5)) (LogFilePosition 96)"
  have "RecordRangeLocation_new ?s ?e = Ok \<lparr>range_start = ?s, range_end = ?e\<rparr>" by code_simp
  from range_iter_covers_request [OF this] show ?thesis by auto
qed

end
