(* ===== verification/StoragePaths.thy ===== *)
theory StoragePaths
  imports Location Environment "HOL-Library.Char_ord"
begin

text \<open>
  The storage layout of \<^verbatim>\<open>storage_provider.rs\<close>: decimal formatting of stream ids and file
  numbers, the paths of logs, indexes and metadata, and that different files never share a path.
  A path is the list of its components; the root is the list of its own.
\<close>

text \<open>\<^verbatim>\<open>str::strip_suffix\<close>.\<close>

definition strip_suffix :: "string \<Rightarrow> string \<Rightarrow> string option" where
  "strip_suffix s ending =
     (if length ending \<le> length s \<and> drop (length s - length ending) s = ending
      then Some (take (length s - length ending) s) else None)"

subsection \<open>Decimal numbers\<close>

definition digit_char :: "nat \<Rightarrow> char" where
  "digit_char n = char_of (48 + n mod 10)"

definition is_digit :: "char \<Rightarrow> bool" where
  "is_digit c \<longleftrightarrow> 48 \<le> (of_char c :: nat) \<and> (of_char c :: nat) \<le> 57"

definition digit_value :: "char \<Rightarrow> nat" where
  "digit_value c = of_char c - 48"

fun decimal :: "nat \<Rightarrow> string" where
  "decimal n = (if n < 10 then [digit_char n] else decimal (n div 10) @ [digit_char n])"

declare decimal.simps [simp del]

text \<open>\<open>format!("{n:0w}")\<close> for an unsigned integer: padded with zeros to width \<open>w\<close>, never cut.\<close>

definition format_padded :: "nat \<Rightarrow> nat \<Rightarrow> string" where
  "format_padded w n = replicate (w - length (decimal n)) (digit_char 0) @ decimal n"

definition digits_value :: "string \<Rightarrow> nat" where
  "digits_value s = foldl (\<lambda>v c. v * 10 + digit_value c) 0 s"

text \<open>
  \<^verbatim>\<open>str::parse::<u64>\<close> on a string of ASCII digits, the only strings it is given; \<open>None\<close> when
  the value does not fit.
\<close>

definition parse_u64 :: "string \<Rightarrow> u64 option" where
  "parse_u64 s =
     (if s = [] \<or> \<not> list_all is_digit s \<or> 2 ^ 64 \<le> digits_value s then None
      else Some (of_nat (digits_value s)))"

text \<open>Evaluation compares integers, which are in binary.\<close>

lemma parse_u64_code [code]: "parse_u64 s =
     (if s = [] \<or> \<not> list_all is_digit s \<or> 2 ^ 64 \<le> int (digits_value s) then None
      else Some (of_nat (digits_value s)))"
proof -
  have "2 ^ 64 \<le> int (digits_value s) \<longleftrightarrow> 2 ^ 64 \<le> digits_value s" by (metis of_nat_le_iff of_nat_numeral of_nat_power)
  then show ?thesis by (simp add: parse_u64_def)
qed

text \<open>Exactly \<open>w\<close> digits, the specification of \<open>format_padded\<close>.\<close>

primrec digits :: "nat \<Rightarrow> nat \<Rightarrow> string" where
  "digits 0 n = []"
| "digits (Suc w) n = digits w (n div 10) @ [digit_char n]"

lemma length_digits [simp]: "length (digits w n) = w"
  by (induction w arbitrary: n) auto

lemma digit_char_code: "(of_char (digit_char n) :: nat) = 48 + n mod 10"
proof -
  have "48 + n mod 10 < 256" by (simp add: less_imp_add_positive)
  then show ?thesis unfolding digit_char_def by (simp add: of_char_of)
qed

lemma digit_value_char [simp]: "digit_value (digit_char n) = n mod 10"
  by (simp add: digit_value_def digit_char_code)

lemma is_digit_char [simp]: "is_digit (digit_char n)"
proof -
  have "n mod 10 < 10" by simp
  then show ?thesis unfolding is_digit_def digit_char_code by linarith
qed

lemma digit_char_value: "is_digit c \<Longrightarrow> digit_char (digit_value c) = c"
proof -
  assume "is_digit c"
  then have "48 + digit_value c mod 10 = (of_char c :: nat)" by (auto simp: is_digit_def digit_value_def)
  then show ?thesis unfolding digit_char_def by (simp only: char_of_char)
qed

lemma digits_zero: "digits w 0 = replicate w (digit_char 0)"
  by (induction w) (simp_all add: replicate_append_same)

lemma all_digits [simp]: "list_all is_digit (digits w n)"
  by (induction w arbitrary: n) auto

lemma format_padded_digits: "n < 10 ^ w \<Longrightarrow> 0 < w \<Longrightarrow> format_padded w n = digits w n"
proof (induction n arbitrary: w rule: decimal.induct)
  case (1 n)
  obtain k where w: "w = Suc k" using 1(3) by (cases w) auto
  show ?case
  proof (cases "n < 10")
    case True
    then show ?thesis by (simp add: format_padded_def decimal.simps [of n] w digits_zero)
  next
    case False
    then have "n div 10 < 10 ^ k" "0 < k" using 1(2) w by (simp_all add: less_mult_imp_div_less) (cases k, auto)
    from 1(1) [OF False this] False show ?thesis
      by (simp add: format_padded_def decimal.simps [of n] w)
  qed
qed

lemma digits_value_snoc [simp]: "digits_value (s @ [c]) = digits_value s * 10 + digit_value c"
  by (simp add: digits_value_def)

lemma digits_value_Nil [simp]: "digits_value [] = 0"
  by (simp add: digits_value_def)

lemma digits_value_digits: "digits_value (digits w n) = n mod 10 ^ w"
proof (induction w arbitrary: n)
  case (Suc w)
  have "n mod 10 ^ Suc w = n div 10 mod 10 ^ w * 10 + n mod 10"
    by (simp add: mod_mult2_eq)
  then show ?case using Suc by simp
qed simp

lemma digits_digits_value: "list_all is_digit s \<Longrightarrow> digits (length s) (digits_value s) = s"
proof (induction s rule: rev_induct)
  case (snoc c s)
  have "digit_value c < 10" using snoc.prems by (auto simp: is_digit_def digit_value_def)
  then have "(digits_value s * 10 + digit_value c) div 10 = digits_value s"
      "digit_char (digits_value s * 10 + digit_value c) = digit_char (digit_value c)"
    by (simp_all add: digit_char_def)
  with snoc show ?case by (simp add: digit_char_value)
qed simp

lemma digits_value_bound: "list_all is_digit s \<Longrightarrow> digits_value s < 10 ^ length s"
proof -
  assume "list_all is_digit s"
  then have "digits_value s = digits_value s mod 10 ^ length s"
    using digits_value_digits [of "length s" "digits_value s"] by (simp only: digits_digits_value)
  also have "\<dots> < 10 ^ length s" by (rule mod_less_divisor) simp
  finally show ?thesis .
qed

lemma digits_mod: "digits w (n mod 10 ^ w) = digits w n"
  using digits_digits_value [of "digits w n"] by (simp add: digits_value_digits)

lemma digits_add: "digits (a + b) n = digits a (n div 10 ^ b) @ digits b n"
proof (induction b arbitrary: n)
  case (Suc b)
  then show ?case by (simp add: div_mult2_eq)
qed simp

lemma digits_inject: "m < 10 ^ w \<Longrightarrow> n < 10 ^ w \<Longrightarrow> digits w m = digits w n \<longleftrightarrow> m = n"
  by (metis digits_value_digits mod_less)

lemma parse_u64_digits: "n < 10 ^ w \<Longrightarrow> 0 < w \<Longrightarrow> w \<le> 19 \<Longrightarrow> parse_u64 (digits w n) = Some (of_nat n)"
proof -
  assume n: "n < 10 ^ w" "0 < w" "w \<le> 19"
  then have "(10::nat) ^ w \<le> 10 ^ 19" by (intro power_increasing) auto
  then have "n < 2 ^ 64" using n(1) by simp
  moreover have "digits w n \<noteq> []" using n(2) by (metis length_digits less_irrefl list.size(3))
  ultimately show ?thesis using n(1) by (simp add: parse_u64_def digits_value_digits)
qed

subsection \<open>Configuration, provider and errors\<close>

text \<open>
  \<^verbatim>\<open>std::path::absolute\<close> depends on the process's working directory: its result is a parameter.
  A JSON error of the external serializer is its text.
\<close>

type_synonym json_error = string

datatype StorageError =
    StorageIo path io_error
  | StorageJson path json_error
  | StorageTooLarge path u64

fun StorageError_path :: "StorageError \<Rightarrow> path" where
  "StorageError_path (StorageIo path _) = path"
| "StorageError_path (StorageJson path _) = path"
| "StorageError_path (StorageTooLarge path _) = path"

record StorageConfig =
  root_directory :: path

definition StorageConfig_new ::
    "(path \<Rightarrow> (path, io_error) outcome) \<Rightarrow> path \<Rightarrow> (StorageConfig, io_error) outcome" where
  "StorageConfig_new absolute root =
     (case absolute root of
        Ok path \<Rightarrow> Ok \<lparr>root_directory = path\<rparr>
      | Err x \<Rightarrow> Err x
      | Stop s \<Rightarrow> Stop s)"

record StorageProvider =
  sp_config :: StorageConfig

definition sp_root_directory :: "StorageProvider \<Rightarrow> path" where
  "sp_root_directory self = root_directory (sp_config self)"

subsection \<open>Paths\<close>

definition stream_directory :: "StorageProvider \<Rightarrow> StreamId \<Rightarrow> path" where
  "stream_directory self sid =
     sp_root_directory self @ [''streams'', format_padded 4 (unat (StreamId_get sid))]"

definition clustering_configuration_file_path :: "StorageProvider \<Rightarrow> path" where
  "clustering_configuration_file_path self = sp_root_directory self @ [''clustering.json'']"

definition checkpoint_file_path :: "StorageProvider \<Rightarrow> StreamId \<Rightarrow> path" where
  "checkpoint_file_path self sid = stream_directory self sid @ [''checkpoint.json'']"

text \<open>\<open>[0, 3, 6, 9]\<close> is \<^verbatim>\<open>(0..12).step_by(3)\<close>.\<close>

definition log_or_index_file_path :: "StorageProvider \<Rightarrow> LogFileId \<Rightarrow> string \<Rightarrow> path" where
  "log_or_index_file_path self fid extension =
     (let file_number_digits = format_padded 15 (unat (LogFileNumber_get (file_number fid))) in
      stream_directory self (file_stream fid) @
      map (\<lambda>start. take 3 (drop start file_number_digits)) [0, 3, 6, 9] @
      [file_number_digits @ ''.'' @ extension])"

definition log_file_path :: "StorageProvider \<Rightarrow> LogFileId \<Rightarrow> path" where
  "log_file_path self fid = log_or_index_file_path self fid ''log''"

definition index_file_path :: "StorageProvider \<Rightarrow> LogFileId \<Rightarrow> path" where
  "index_file_path self fid = log_or_index_file_path self fid ''idx''"

text \<open>\<^verbatim>\<open>Path::parent\<close> and \<^verbatim>\<open>Path::with_added_extension\<close> of a path with a file name.\<close>

definition parent :: "path \<Rightarrow> path" where
  "parent p = butlast p"

definition with_added_extension :: "path \<Rightarrow> string \<Rightarrow> path" where
  "with_added_extension p extension = butlast p @ [last p @ ''.'' @ extension]"

text \<open>The four range directories of a file number, as a specification.\<close>

definition range_names :: "nat \<Rightarrow> string list" where
  "range_names n = [digits 3 (n div 1000 ^ 4), digits 3 (n div 1000 ^ 3),
     digits 3 (n div 1000 ^ 2), digits 3 (n div 1000)]"

lemma digits_15:
  "digits 15 n = concat (range_names n) @ digits 3 n"
proof -
  have d: "digits (3 + k) n = digits 3 (n div 10 ^ k) @ digits k n" for k by (rule digits_add)
  show ?thesis
    using d [of 12] d [of 9] d [of 6] d [of 3] by (simp add: range_names_def)
qed

lemma file_digits:
  "valid_log_file f \<Longrightarrow> format_padded 15 (unat (LogFileNumber_get (file_number f))) =
     digits 15 (file_nat (file_number f))"
  unfolding file_nat_def [symmetric]
  by (rule format_padded_digits) (simp_all add: valid_log_file_def valid_file_def max_file_def)

lemma log_or_index_file_path_eq:
  assumes "valid_log_file f"
  shows "log_or_index_file_path sp f ext =
    stream_directory sp (file_stream f) @ range_names (file_nat (file_number f)) @
    [digits 15 (file_nat (file_number f)) @ ''.'' @ ext]"
  unfolding log_or_index_file_path_def Let_def file_digits [OF assms]
  by (simp add: digits_15 range_names_def)

lemma stream_directory_eq:
  "valid_stream s \<Longrightarrow> stream_directory sp s =
     sp_root_directory sp @ [''streams'', digits 4 (unat (StreamId_get s))]"
  by (simp add: stream_directory_def valid_stream_iff format_padded_digits)

lemma stream_directory_inject:
  assumes "valid_stream s" and "valid_stream t"
  shows "stream_directory sp s = stream_directory sp t \<longleftrightarrow> s = t"
  using assms digits_inject [of "unat (StreamId_get s)" 4 "unat (StreamId_get t)"]
  by (cases s; cases t) (auto simp: stream_directory_eq valid_stream_iff intro: unsigned_word_eqI)

lemma length_log_or_index_path [simp]:
  "length (log_or_index_file_path sp f ext) = length (sp_root_directory sp) + 7"
  by (simp add: log_or_index_file_path_def Let_def stream_directory_def)

lemma log_or_index_path_inject:
  assumes "valid_log_file f" and "valid_log_file g" and "valid_stream (file_stream f)" and "valid_stream (file_stream g)"
  shows "log_or_index_file_path sp f ext = log_or_index_file_path sp g ext' \<longleftrightarrow> f = g \<and> ext = ext'"
proof -
  have n: "file_nat (file_number f) < 10 ^ 15" "file_nat (file_number g) < 10 ^ 15"
    using assms(1,2) by (simp_all add: valid_log_file_def valid_file_def max_file_def)
  have d: "length (stream_directory sp (file_stream f)) = length (stream_directory sp (file_stream g))"
    by (simp add: stream_directory_def)
  show ?thesis
    using digits_inject [OF n] stream_directory_inject [OF assms(3,4), of sp] d
    by (auto simp: log_or_index_file_path_eq assms range_names_def append_eq_append_conv intro: LogFileId_eqI)
qed

text \<open>
  Everything the layout gives a path to: logs, indexes, checkpoints, the clustering metadata and the
  staging files of the two kinds of metadata.
\<close>

datatype stored =
    LogOf LogFileId
  | IndexOf LogFileId
  | CheckpointOf StreamId
  | CheckpointStaging StreamId
  | ClusterMetadata
  | ClusterStaging

fun stored_path :: "StorageProvider \<Rightarrow> stored \<Rightarrow> path" where
  "stored_path sp (LogOf f) = log_file_path sp f"
| "stored_path sp (IndexOf f) = index_file_path sp f"
| "stored_path sp (CheckpointOf s) = checkpoint_file_path sp s"
| "stored_path sp (CheckpointStaging s) = with_added_extension (checkpoint_file_path sp s) ''pending''"
| "stored_path sp ClusterMetadata = clustering_configuration_file_path sp"
| "stored_path sp ClusterStaging = with_added_extension (clustering_configuration_file_path sp) ''pending''"

fun valid_stored :: "stored \<Rightarrow> bool" where
  "valid_stored (LogOf f) \<longleftrightarrow> valid_log_file f \<and> valid_stream (file_stream f)"
| "valid_stored (IndexOf f) \<longleftrightarrow> valid_log_file f \<and> valid_stream (file_stream f)"
| "valid_stored (CheckpointOf s) \<longleftrightarrow> valid_stream s"
| "valid_stored (CheckpointStaging s) \<longleftrightarrow> valid_stream s"
| "valid_stored _ \<longleftrightarrow> True"

text \<open>Below the root, with the first range directory of a log or an index.\<close>

lemma stored_path_cases:
  assumes "valid_stored x"
  shows "\<exists>rest. stored_path sp x = sp_root_directory sp @ rest \<and>
    (case x of
       LogOf f \<Rightarrow> (\<exists>a b xs. rest = [''streams'', a, b] @ xs \<and> length b = 3 \<and> length xs = 4)
     | IndexOf f \<Rightarrow> (\<exists>a b xs. rest = [''streams'', a, b] @ xs \<and> length b = 3 \<and> length xs = 4)
     | CheckpointOf s \<Rightarrow> rest = [''streams'', format_padded 4 (unat (StreamId_get s)), ''checkpoint.json'']
     | CheckpointStaging s \<Rightarrow> rest = [''streams'', format_padded 4 (unat (StreamId_get s)), ''checkpoint.json.pending'']
     | ClusterMetadata \<Rightarrow> rest = [''clustering.json'']
     | ClusterStaging \<Rightarrow> rest = [''clustering.json.pending''])"
  using assms
  by (cases x) (auto simp: log_file_path_def index_file_path_def log_or_index_file_path_eq range_names_def
      stream_directory_def checkpoint_file_path_def clustering_configuration_file_path_def with_added_extension_def
      butlast_append)

text \<open>
  C39. The storage layout keeps everything it stores apart: of any two things, be they logs,
  indexes, checkpoints, staging files or the clustering metadata, no one's path is the other's path
  or a directory of it.
\<close>

theorem storage_paths_identify:
  assumes "valid_stored x" and "valid_stored y"
  shows "prefix (stored_path sp x) (stored_path sp y) \<longleftrightarrow> x = y"
proof
  assume pre: "prefix (stored_path sp x) (stored_path sp y)"
  have same: "stored_path sp x = stored_path sp y" if "length (stored_path sp x) = length (stored_path sp y)"
    using pre that by (auto simp: prefix_def)
  have logs: "log_or_index_file_path sp f ext = log_or_index_file_path sp g ext' \<longleftrightarrow> f = g \<and> ext = ext'"
    if "valid_stored (LogOf f)" "valid_stored (LogOf g)" for f g ext ext'
    using that log_or_index_path_inject by simp
  have dirs: "format_padded 4 (unat (StreamId_get s)) = format_padded 4 (unat (StreamId_get t)) \<longleftrightarrow> s = t"
    if "valid_stream s" "valid_stream t" for s t
    using stream_directory_inject [OF that, of sp] by (simp add: stream_directory_def)
  note cases = stored_path_cases [OF assms(1), of sp] stored_path_cases [OF assms(2), of sp]
  show "x = y"
    using pre cases assms same
    by (cases x; cases y) (auto simp: log_file_path_def index_file_path_def logs dirs)
qed simp

lemma valid_file_at: "n \<le> max_file \<Longrightarrow> valid_log_file (file_at s n)"
  by (simp add: valid_log_file_def valid_file_def)

theorem storage_paths_identify_witness:
  "let f = file_at (StreamId 5) 7; g = file_at (StreamId 5) 1007; sp = \<lparr>sp_config = \<lparr>root_directory = [''data'']\<rparr>\<rparr> in
   log_file_path sp f \<noteq> log_file_path sp g \<and> log_file_path sp f \<noteq> index_file_path sp f \<and>
   clustering_configuration_file_path sp \<noteq> checkpoint_file_path sp (StreamId 5) \<and>
   log_file_path sp g = [''data'', ''streams'', ''0005'', ''000'', ''000'', ''000'', ''001'', ''000000000001007.log'']"
proof -
  let ?f = "file_at (StreamId 5) 7" and ?g = "file_at (StreamId 5) 1007"
  let ?sp = "\<lparr>sp_config = \<lparr>root_directory = [''data'']\<rparr>\<rparr>"
  have v: "valid_log_file ?f" "valid_log_file ?g" "valid_stream (StreamId 5)"
    by (simp_all add: valid_file_at max_file_def valid_stream_iff)
  then have s: "valid_stored (LogOf ?f)" "valid_stored (LogOf ?g)" "valid_stored (IndexOf ?f)" "valid_stored (CheckpointOf (StreamId 5))"
      "valid_stored ClusterMetadata" by simp_all
  have "file_nat (file_number ?f) \<noteq> file_nat (file_number ?g)" by (simp add: max_file_def)
  then have "?f \<noteq> ?g" by metis
  then have "log_file_path ?sp ?f \<noteq> log_file_path ?sp ?g" using storage_paths_identify [OF s(1,2), of ?sp] by auto
  moreover have "log_file_path ?sp ?f \<noteq> index_file_path ?sp ?f" using storage_paths_identify [OF s(1,3), of ?sp] by auto
  moreover have "clustering_configuration_file_path ?sp \<noteq> checkpoint_file_path ?sp (StreamId 5)"
    using storage_paths_identify [OF s(5,4), of ?sp] by auto
  moreover have "log_file_path ?sp ?g =
      [''data'', ''streams'', ''0005'', ''000'', ''000'', ''000'', ''001'', ''000000000001007.log'']"
    by (simp add: log_file_path_def log_or_index_file_path_eq v stream_directory_eq sp_root_directory_def
        range_names_def max_file_def digit_char_def eval_nat_numeral char_of_def) code_simp?
  ultimately show ?thesis unfolding Let_def by blast
qed

end
