(* ===== verification/Storage.thy ===== *)
theory Storage
  imports StoragePaths "HOL-Library.List_Lexorder"
begin

text \<open>
  The operations of \<^verbatim>\<open>storage_provider.rs\<close> on files and directories, except the search for the
  last log: initialization, JSON metadata, opening, creation and removal of log/index pairs. The
  target is Unix, where directories are synchronized.
\<close>

subsection \<open>The operator \<open>?\<close> on calls\<close>

definition try_io ::
    "('a, 'e) outcome \<times> 'h env \<Rightarrow> ('a \<Rightarrow> 'h env \<Rightarrow> ('b, 'e) outcome \<times> 'h env) \<Rightarrow>
     ('b, 'e) outcome \<times> 'h env" where
  "try_io r k =
     (case r of
        (Ok x, e) \<Rightarrow> k x e
      | (Err x, e) \<Rightarrow> (Err x, e)
      | (Stop s, e) \<Rightarrow> (Stop s, e))"

text \<open>\<open>.map_err(|source| StorageError::io(path, source))\<close>\<close>

definition at_path :: "path \<Rightarrow> ('a, io_error) outcome \<times> 'h env \<Rightarrow> ('a, StorageError) outcome \<times> 'h env" where
  "at_path path r = (case r of (res, e) \<Rightarrow> (map_err (StorageIo path) res, e))"

lemma try_io_simps [simp]:
  "try_io (Ok x, e) k = k x e" "try_io (Err y, e) k = (Err y, e)" "try_io (Stop s, e) k = (Stop s, e)"
  by (simp_all add: try_io_def)

lemma at_path_simps [simp]:
  "at_path p (Ok x, e) = (Ok x, e)" "at_path p (Err y, e) = (Err (StorageIo p y), e)"
  "at_path p (Stop s, e) = (Stop s, e)"
  by (simp_all add: at_path_def)

lemma try_io_eq_Ok: "try_io r k = (Ok y, e') \<longleftrightarrow> (\<exists>x e. r = (Ok x, e) \<and> k x e = (Ok y, e'))"
  by (auto simp: try_io_def split: prod.splits outcome.splits)

lemma at_path_eq_Ok: "at_path p r = (Ok y, e') \<longleftrightarrow> r = (Ok y, e')"
  by (auto simp: at_path_def split: prod.splits)

text \<open>A computation that only makes calls of one kind.\<close>

definition only_calls :: "('h call \<Rightarrow> bool) \<Rightarrow> ('h env \<Rightarrow> 'r \<times> 'h env) \<Rightarrow> bool" where
  "only_calls Q m \<longleftrightarrow>
     (\<forall>e. \<exists>evs. trace (snd (m e)) = trace e @ evs \<and> (\<forall>ev\<in>set evs. Q (fst ev)))"

lemma only_calls_pure [intro!]: "only_calls Q (\<lambda>e. (r, e))"
  by (simp add: only_calls_def)

lemma only_calls_typed [intro]: "Q c \<Longrightarrow> only_calls Q (typed_call f c)"
proof -
  assume q: "Q c"
  have "\<exists>a. trace (snd (typed_call f c e)) = trace e @ [(c, a)]" for e
    using typed_call_trace [of f c e] by (cases "typed_call f c e") auto
  with q show ?thesis unfolding only_calls_def by fastforce
qed

lemma snd_at_path [simp]: "snd (at_path p r) = snd r"
  by (cases r) (simp add: at_path_def)

lemma only_calls_at_path [intro]: "only_calls Q m \<Longrightarrow> only_calls Q (\<lambda>e. at_path p (m e))"
  by (simp add: only_calls_def)

lemma only_calls_step:
  assumes "only_calls Q m"
  shows "\<exists>evs. trace (snd (m e)) = trace e @ evs \<and> (\<forall>ev\<in>set evs. Q (fst ev))"
  using assms by (simp add: only_calls_def)

lemma only_calls_try [intro]:
  assumes m: "only_calls Q m" and k: "\<And>x. only_calls Q (k x)"
  shows "only_calls Q (\<lambda>e. try_io (m e) k)"
  unfolding only_calls_def
proof
  fix e
  obtain evs where evs: "trace (snd (m e)) = trace e @ evs" "\<forall>ev\<in>set evs. Q (fst ev)"
    using only_calls_step [OF m] by blast
  obtain r e1 where r: "m e = (r, e1)" by fastforce
  show "\<exists>evs. trace (snd (try_io (m e) k)) = trace e @ evs \<and> (\<forall>ev\<in>set evs. Q (fst ev))"
  proof (cases r)
    case (Ok x)
    obtain evs' where "trace (snd (k x e1)) = trace e1 @ evs'" "\<forall>ev\<in>set evs'. Q (fst ev)"
      using only_calls_step [OF k] by blast
    then show ?thesis using evs r Ok by (intro exI [of _ "evs @ evs'"]) auto
  qed (use evs r in auto)
qed

lemma only_calls_mono: "only_calls Q m \<Longrightarrow> (\<And>c. Q c \<Longrightarrow> Q' c) \<Longrightarrow> only_calls Q' m"
  unfolding only_calls_def by meson

subsection \<open>Construction\<close>

primrec create_stream_directories ::
    "StorageProvider \<Rightarrow> StreamId list \<Rightarrow> 'h env \<Rightarrow> (StorageProvider, StorageError) outcome \<times> 'h env" where
  "create_stream_directories provider [] e = (Ok provider, e)"
| "create_stream_directories provider (sid # sids) e =
     (let path = stream_directory provider sid in
      try_io (at_path path (unit_call (CreateDirAll path) e))
        (\<lambda>_. create_stream_directories provider sids))"

definition StorageProvider_new ::
    "StorageConfig \<Rightarrow> 'h env \<Rightarrow> (StorageProvider, StorageError) outcome \<times> 'h env" where
  "StorageProvider_new config e = create_stream_directories \<lparr>sp_config = config\<rparr> StreamId_all e"

subsection \<open>JSON metadata\<close>

text \<open>
  The external JSON serializer is the pair of its functions on one type.
\<close>

record 'a json =
  to_vec :: "'a \<Rightarrow> json_error + bytes"
  from_slice :: "bytes \<Rightarrow> json_error + 'a"

definition read_json ::
    "'a json \<Rightarrow> path \<Rightarrow> u64 \<Rightarrow> 'h env \<Rightarrow> ('a option, StorageError) outcome \<times> 'h env" where
  "read_json json path max_bytes e =
     (case open_call (OpenRead path) e of
        (Err x, e) \<Rightarrow> if x = NotFound then (Ok None, e) else (Err (StorageIo path x), e)
      | (Stop s, e) \<Rightarrow> (Stop s, e)
      | (Ok file, e) \<Rightarrow>
          try_io (at_path path (bytes_call (ReadToEnd file (saturating_add max_bytes 1)) e))
            (\<lambda>bytes e.
               if max_bytes < of_nat (length bytes) then (Err (StorageTooLarge path max_bytes), e)
               else
                 (case from_slice json bytes of
                    Inr value \<Rightarrow> (Ok (Some value), e)
                  | Inl x \<Rightarrow> (Err (StorageJson path x), e))))"

definition sync_directory :: "path \<Rightarrow> 'h env \<Rightarrow> (unit, StorageError) outcome \<times> 'h env" where
  "sync_directory path e =
     try_io (at_path path (open_call (OpenRead path) e))
       (\<lambda>directory e. at_path path (unit_call (SyncAll directory) e))"

definition write_json_atomic ::
    "'a json \<Rightarrow> path \<Rightarrow> 'a \<Rightarrow> 'h env \<Rightarrow> (unit, StorageError) outcome \<times> 'h env" where
  "write_json_atomic json path value e =
     (case to_vec json value of
        Inl x \<Rightarrow> (Err (StorageJson path x), e)
      | Inr bytes \<Rightarrow>
          (let pending = with_added_extension path ''pending'' in
           try_io (at_path pending (open_call (OpenTruncate pending) e)) (\<lambda>file e.
           try_io (at_path pending (unit_call (WriteAll file bytes) e)) (\<lambda>_ e.
           try_io (at_path pending (unit_call (Flush file) e)) (\<lambda>_ e.
           try_io (at_path pending (unit_call (SyncAll file) e)) (\<lambda>_ e.
           try_io (at_path path (unit_call (Rename pending path) e)) (\<lambda>_ e.
           sync_directory (parent path) e)))))))"

text \<open>The metadata of one stream and of the cluster. \<open>'c\<close> is the established configuration.\<close>

record StreamCheckpoint =
  checkpoint_end :: RecordEndLocation

definition StreamCheckpoint_new :: "RecordEndLocation \<Rightarrow> StreamCheckpoint" where
  "StreamCheckpoint_new end = \<lparr>checkpoint_end = end\<rparr>"

definition MAX_CHECKPOINT_BYTES :: u64 where
  "MAX_CHECKPOINT_BYTES = 4096"

definition MAX_CLUSTERING_CONFIGURATION_BYTES :: u64 where
  "MAX_CLUSTERING_CONFIGURATION_BYTES = 4096"

definition read_clustering_configuration ::
    "'c json \<Rightarrow> StorageProvider \<Rightarrow> 'h env \<Rightarrow> ('c option, StorageError) outcome \<times> 'h env" where
  "read_clustering_configuration json self =
     read_json json (clustering_configuration_file_path self) MAX_CLUSTERING_CONFIGURATION_BYTES"

definition write_clustering_configuration ::
    "'c json \<Rightarrow> StorageProvider \<Rightarrow> 'c \<Rightarrow> 'h env \<Rightarrow> (unit, StorageError) outcome \<times> 'h env" where
  "write_clustering_configuration json self configuration =
     write_json_atomic json (clustering_configuration_file_path self) configuration"

definition read_checkpoint ::
    "StreamCheckpoint json \<Rightarrow> StorageProvider \<Rightarrow> StreamId \<Rightarrow> 'h env \<Rightarrow>
     (StreamCheckpoint option, StorageError) outcome \<times> 'h env" where
  "read_checkpoint json self sid = read_json json (checkpoint_file_path self sid) MAX_CHECKPOINT_BYTES"

definition write_checkpoint ::
    "StreamCheckpoint json \<Rightarrow> StorageProvider \<Rightarrow> StreamCheckpoint \<Rightarrow> 'h env \<Rightarrow>
     (unit, StorageError) outcome \<times> 'h env" where
  "write_checkpoint json self checkpoint =
     write_json_atomic json
       (checkpoint_file_path self (stream_id (end_record_id (checkpoint_end checkpoint)))) checkpoint"

subsection \<open>Logs and indexes\<close>

definition create_log_and_index ::
    "StorageProvider \<Rightarrow> LogFileId \<Rightarrow> 'h env \<Rightarrow> ('h \<times> 'h, StorageError) outcome \<times> 'h env" where
  "create_log_and_index self fid e =
     (let log_path = log_file_path self fid;
          index_path = index_file_path self fid;
          directory = parent log_path in
      try_io (at_path directory (unit_call (CreateDirAll directory) e)) (\<lambda>_ e.
      try_io (at_path log_path (open_call (OpenNew log_path) e)) (\<lambda>log e.
      try_io (at_path index_path (open_call (OpenNew index_path) e)) (\<lambda>index e.
      (Ok (log, index), e)))))"

definition open_log_for_validation ::
    "StorageProvider \<Rightarrow> LogFileId \<Rightarrow> 'h env \<Rightarrow> ('h, StorageError) outcome \<times> 'h env" where
  "open_log_for_validation self fid e =
     (let path = log_file_path self fid in at_path path (open_call (OpenExisting path) e))"

definition open_index_for_repair ::
    "StorageProvider \<Rightarrow> LogFileId \<Rightarrow> 'h env \<Rightarrow> ('h, StorageError) outcome \<times> 'h env" where
  "open_index_for_repair self fid e =
     (let path = index_file_path self fid in
      try_io (at_path path (open_call (OpenOrCreate path) e)) (\<lambda>file e.
      try_io (sync_directory (parent path) e) (\<lambda>_ e.
      (Ok file, e))))"

text \<open>
  \<^verbatim>\<open>remove_log_and_index\<close>: the two paths of a file, the files of the range with the ordered set
  of their directories, and the synchronization of these directories. The range's iterator is
  lazy in the source; on valid files it never panics, so it is a list here.
\<close>

primrec remove_paths :: "path list \<Rightarrow> 'h env \<Rightarrow> (unit, StorageError) outcome \<times> 'h env" where
  "remove_paths [] e = (Ok (), e)"
| "remove_paths (path # paths) e =
     (case unit_call (RemoveFile path) e of
        (Ok _, e) \<Rightarrow> remove_paths paths e
      | (Stop s, e) \<Rightarrow> (Stop s, e)
      | (Err x, e) \<Rightarrow> if x = NotFound then remove_paths paths e else (Err (StorageIo path x), e))"

primrec remove_files ::
    "StorageProvider \<Rightarrow> LogFileId list \<Rightarrow> path list \<Rightarrow> 'h env \<Rightarrow>
     (path list, StorageError) outcome \<times> 'h env" where
  "remove_files self [] directories e = (Ok directories, e)"
| "remove_files self (fid # files) directories e =
     (let log = log_file_path self fid;
          directories = insort_insert (parent log) directories in
      try_io (remove_paths [log, index_file_path self fid] e)
        (\<lambda>_. remove_files self files directories))"

primrec sync_directories :: "path list \<Rightarrow> 'h env \<Rightarrow> (unit, StorageError) outcome \<times> 'h env" where
  "sync_directories [] e = (Ok (), e)"
| "sync_directories (path # paths) e =
     (case sync_directory path e of
        (Ok _, e) \<Rightarrow> sync_directories paths e
      | (Stop s, e) \<Rightarrow> (Stop s, e)
      | (Err x, e) \<Rightarrow>
          (case x of
             StorageIo _ source \<Rightarrow>
               if source = NotFound then sync_directories paths e else (Err x, e)
           | _ \<Rightarrow> (Err x, e)))"

definition remove_log_and_index ::
    "StorageProvider \<Rightarrow> LogFileId \<Rightarrow> LogFileId \<Rightarrow> 'h env \<Rightarrow> (unit, StorageError) outcome \<times> 'h env" where
  "remove_log_and_index self first final e =
     (case iter_to first final of
        Err _ \<Rightarrow> (Err (StorageIo (log_file_path self first) InvalidInput), e)
      | Stop s \<Rightarrow> (Stop s, e)
      | Ok None \<Rightarrow> (Stop Panic, e)
      | Ok (Some files) \<Rightarrow>
          try_io (remove_files self files [] e) sync_directories)"

subsection \<open>Properties\<close>

text \<open>What removal may call: it removes files of the range, and synchronizes their directories.\<close>

fun removal_call :: "StorageProvider \<Rightarrow> LogFileId set \<Rightarrow> 'h call \<Rightarrow> bool" where
  "removal_call sp F (RemoveFile p) = (\<exists>f\<in>F. p = log_file_path sp f \<or> p = index_file_path sp f)"
| "removal_call sp F (OpenRead p) = (\<exists>f\<in>F. p = parent (log_file_path sp f))"
| "removal_call sp F (SyncAll h) = True"
| "removal_call sp F _ = False"

lemma only_calls_case:
  assumes m: "only_calls Q m" and "\<And>x. only_calls Q (f x)" and "\<And>x. only_calls Q (g x)"
  shows "only_calls Q (\<lambda>e. case m e of (Ok x, e) \<Rightarrow> f x e | (Stop s, e) \<Rightarrow> (Stop s, e) | (Err x, e) \<Rightarrow> g x e)"
  unfolding only_calls_def
proof
  fix e
  obtain evs where evs: "trace (snd (m e)) = trace e @ evs" "\<forall>ev\<in>set evs. Q (fst ev)"
    using only_calls_step [OF m] by blast
  obtain r e1 where r: "m e = (r, e1)" by fastforce
  let ?r = "case m e of (Ok x, e) \<Rightarrow> f x e | (Stop s, e) \<Rightarrow> (Stop s, e) | (Err x, e) \<Rightarrow> g x e"
  obtain evs' where "trace (snd ?r) = trace e1 @ evs'" "\<forall>ev\<in>set evs'. Q (fst ev)"
  proof (cases r)
    case (Ok x)
    then show thesis using that only_calls_step [OF assms(2), of x e1] r by auto
  next
    case (Err x)
    then show thesis using that only_calls_step [OF assms(3), of x e1] r by auto
  qed (use that r in auto)
  then show "\<exists>evs. trace (snd ?r) = trace e @ evs \<and> (\<forall>ev\<in>set evs. Q (fst ev))"
    using evs r by (intro exI [of _ "evs @ evs'"]) auto
qed

lemma only_calls_if:
  "only_calls Q m \<Longrightarrow> only_calls Q m' \<Longrightarrow> only_calls Q (\<lambda>e. if b then m e else m' e)"
  by (cases b) simp_all

lemma remove_paths_calls: "(\<And>p. p \<in> set ps \<Longrightarrow> Q (RemoveFile p)) \<Longrightarrow> only_calls Q (remove_paths ps)"
proof (induction ps)
  case Nil
  show ?case unfolding remove_paths.simps by blast
next
  case (Cons p ps)
  have "only_calls Q (remove_paths ps)" using Cons by simp
  then show ?case unfolding remove_paths.simps using Cons.prems [of p]
    by (intro only_calls_case only_calls_if only_calls_pure only_calls_typed) simp_all
qed

lemma remove_files_calls:
  "set files \<subseteq> F \<Longrightarrow> only_calls (removal_call sp F) (remove_files sp files ds)"
proof (induction files arbitrary: ds)
  case Nil
  show ?case unfolding remove_files.simps by blast
next
  case (Cons f fs)
  have sub: "set fs \<subseteq> F" "f \<in> F" using Cons.prems by auto
  show ?case unfolding remove_files.simps Let_def
    by (intro only_calls_try remove_paths_calls Cons.IH [OF sub(1)]) (use sub(2) in auto)
qed

lemma remove_files_dirs:
  "remove_files sp files ds e = (Ok ds', e') \<Longrightarrow>
   set ds' = set ds \<union> (\<lambda>f. parent (log_file_path sp f)) ` set files"
proof (induction files arbitrary: ds e)
  case (Cons f fs)
  then obtain e1 where "remove_files sp fs (insort_insert (parent (log_file_path sp f)) ds) e1 = (Ok ds', e')"
    by (auto simp: Let_def try_io_eq_Ok)
  from Cons.IH [OF this] show ?case by (auto simp: set_insort_insert)
qed simp

lemma sync_directory_calls: "Q (OpenRead p) \<Longrightarrow> (\<And>h. Q (SyncAll h)) \<Longrightarrow> only_calls Q (sync_directory p)"
  unfolding sync_directory_def by (intro only_calls_try only_calls_at_path only_calls_typed) auto

lemma sync_directories_calls:
  "(\<And>p. p \<in> set ps \<Longrightarrow> Q (OpenRead p)) \<Longrightarrow> (\<And>h. Q (SyncAll h)) \<Longrightarrow> only_calls Q (sync_directories ps)"
proof (induction ps)
  case Nil
  show ?case unfolding sync_directories.simps by blast
next
  case (Cons p ps)
  have rest: "only_calls Q (sync_directories ps)" using Cons.IH Cons.prems by simp
  have dir: "only_calls Q (sync_directory p)" using Cons.prems sync_directory_calls [of Q p] by simp
  have err: "only_calls Q (\<lambda>e. case x of
        StorageIo _ source \<Rightarrow> if source = NotFound then sync_directories ps e else (Err x, e)
      | _ \<Rightarrow> (Err x, e))" for x
    using rest by (cases x) (auto intro: only_calls_if)
  show ?case unfolding sync_directories.simps by (rule only_calls_case [OF dir rest err])
qed

lemma remove_log_and_index_calls:
  assumes "iter_to first final = Ok (Some files)"
  shows "only_calls (removal_call sp (set files)) (remove_log_and_index sp first final)"
  unfolding only_calls_def
proof
  fix e :: "'a env"
  let ?Q = "removal_call sp (set files)"
  obtain evs where evs: "trace (snd (remove_files sp files [] e)) = trace e @ evs" "\<forall>ev\<in>set evs. ?Q (fst ev)"
    using only_calls_step [OF remove_files_calls [of files "set files"]] by blast
  obtain r e1 where r: "remove_files sp files [] e = (r, e1)" by fastforce
  show "\<exists>evs. trace (snd (remove_log_and_index sp first final e)) = trace e @ evs \<and> (\<forall>ev\<in>set evs. ?Q (fst ev))"
  proof (cases r)
    case (Ok ds)
    then have "set ds = (\<lambda>f. parent (log_file_path sp f)) ` set files" using remove_files_dirs [of sp files "[]" e] r by simp
    then have "only_calls ?Q (sync_directories ds)" by (intro sync_directories_calls) auto
    from only_calls_step [OF this] obtain evs' where
      "trace (snd (sync_directories ds e1)) = trace e1 @ evs'" "\<forall>ev\<in>set evs'. ?Q (fst ev)" by blast
    then show ?thesis using assms r Ok evs by (intro exI [of _ "evs @ evs'"]) (auto simp: remove_log_and_index_def)
  qed (use assms r evs in \<open>auto simp: remove_log_and_index_def\<close>)
qed

lemma iter_to_files:
  assumes "iter_to first final = Ok (Some files)" and "valid_log_file first" and "valid_log_file final"
  shows "files = map (file_at (file_stream first))
      [file_nat (file_number first)..<Suc (file_nat (file_number final))] \<and>
    file_stream final = file_stream first"
  using assms file_successors_eq [OF assms(2,3)]
  by (auto simp: iter_to_def file_less_iff split: if_splits simp del: upt_Suc)

text \<open>The removal calls of a list of files, in the order the code makes them.\<close>

definition removals :: "StorageProvider \<Rightarrow> LogFileId list \<Rightarrow> 'h call list" where
  "removals sp files = concat (map (\<lambda>f. [RemoveFile (log_file_path sp f), RemoveFile (index_file_path sp f)]) files)"

lemma removals_simps [simp]:
  "removals sp [] = []"
  "removals sp (f # fs) =
     RemoveFile (log_file_path sp f) # RemoveFile (index_file_path sp f) # removals sp fs"
  by (simp_all add: removals_def)

definition gone :: "'h call \<times> 'h answer \<Rightarrow> bool" where
  "gone ev \<longleftrightarrow> snd ev = Ready Unit \<or> snd ev = Failed NotFound"

lemma remove_paths_trace:
  "remove_paths ps e = (r, e') \<Longrightarrow> \<exists>evs. trace e' = trace e @ evs \<and>
     prefix (map fst evs) (map RemoveFile ps) \<and>
     (r = Ok () \<longrightarrow> map fst evs = map RemoveFile ps \<and> list_all gone evs)"
proof (induction ps arbitrary: e)
  case (Cons p ps)
  obtain q e1 where c: "unit_call (RemoveFile p) e = (q, e1)" by fastforce
  obtain a where a: "trace e1 = trace e @ [(RemoveFile p, a)]" "is_ok q \<longrightarrow> a = Ready Unit"
    using unit_call_trace [OF c] by blast
  show ?case
  proof (cases "is_ok q \<or> q = Err NotFound")
    case True
    then have rest: "remove_paths ps e1 = (r, e')" using Cons.prems c by (cases q) auto
    have "gone (RemoveFile p, a)" using True a c typed_call_Err [of as_unit "RemoveFile p" e NotFound e1]
      by (cases q) (auto simp: gone_def)
    with Cons.IH [OF rest] a(1) show ?thesis by fastforce
  next
    case False
    then have "e' = e1" "r \<noteq> Ok ()" using Cons.prems c by (cases q; auto split: if_splits)+
    then show ?thesis using a(1) by (intro exI [of _ "[(RemoveFile p, a)]"]) simp
  qed
qed simp

lemma remove_files_trace:
  "remove_files sp fs ds e = (r, e') \<Longrightarrow> \<exists>evs. trace e' = trace e @ evs \<and>
     prefix (map fst evs) (removals sp fs) \<and>
     (is_ok r \<longrightarrow> map fst evs = removals sp fs \<and> list_all gone evs)"
proof (induction fs arbitrary: ds e)
  case (Cons f fs)
  let ?ps = "[log_file_path sp f, index_file_path sp f]"
  obtain q e1 where c: "remove_paths ?ps e = (q, e1)" by fastforce
  obtain evs where evs: "trace e1 = trace e @ evs" "prefix (map fst evs) (map RemoveFile ?ps)"
      "q = Ok () \<longrightarrow> map fst evs = map RemoveFile ?ps \<and> list_all gone evs"
    using remove_paths_trace [OF c] by blast
  show ?case
  proof (cases q)
    case (Ok u)
    then have rest: "remove_files sp fs (insort_insert (parent (log_file_path sp f)) ds) e1 = (r, e')"
      using Cons.prems c by (simp add: Let_def)
    from Cons.IH [OF this] obtain evs' where "trace e' = trace e1 @ evs'" "prefix (map fst evs') (removals sp fs)"
      "is_ok r \<longrightarrow> map fst evs' = removals sp fs \<and> list_all gone evs'" by blast
    then show ?thesis using evs Ok by (intro exI [of _ "evs @ evs'"]) auto
  next
    case (Err x)
    then have "e' = e1" "\<not> is_ok r" using Cons.prems c by (auto simp: Let_def)
    moreover have "prefix (map fst evs) (removals sp (f # fs))"
      using evs(2) by (auto intro: prefix_order.trans)
    ultimately show ?thesis using evs(1) by blast
  next
    case (Stop x)
    then have "e' = e1" "\<not> is_ok r" using Cons.prems c by (auto simp: Let_def)
    moreover have "prefix (map fst evs) (removals sp (f # fs))"
      using evs(2) by (auto intro: prefix_order.trans)
    ultimately show ?thesis using evs(1) by blast
  qed
qed simp

text \<open>A directory was synchronized, or does not exist.\<close>

definition dir_synced :: "('h call \<times> 'h answer) list \<Rightarrow> path \<Rightarrow> bool" where
  "dir_synced evs p \<longleftrightarrow> (OpenRead p, Failed NotFound) \<in> set evs \<or>
     (\<exists>h a. (OpenRead p, Ready (Opened h)) \<in> set evs \<and> (SyncAll h, a) \<in> set evs \<and>
        (a = Ready Unit \<or> a = Failed NotFound))"

lemma dir_synced_append: "dir_synced evs p \<or> dir_synced evs' p \<Longrightarrow> dir_synced (evs @ evs') p"
  unfolding dir_synced_def by fastforce

lemma sync_directory_trace:
  assumes "sync_directory p e = (r, e')"
  shows "\<exists>evs. trace e' = trace e @ evs \<and> (\<forall>ev\<in>set evs. fst ev = OpenRead p \<or> (\<exists>h. fst ev = SyncAll h)) \<and>
    (\<forall>q. (r = Ok () \<or> r = Err (StorageIo q NotFound)) \<longrightarrow> dir_synced evs p)"
proof -
  obtain q1 e1 where c1: "open_call (OpenRead p) e = (q1, e1)" by fastforce
  show ?thesis
  proof (cases q1)
    case (Ok h)
    obtain q2 e2 where c2: "unit_call (SyncAll h) e1 = (q2, e2)" by fastforce
    have eq: "r = map_err (StorageIo p) q2" "e' = e2" using assms c1 Ok c2 by (simp_all add: sync_directory_def at_path_def)
    have t1: "trace e1 = trace e @ [(OpenRead p, Ready (Opened h))]" using typed_call_Ok [OF c1 [unfolded Ok]] by simp
    obtain a where a: "trace e2 = trace e1 @ [(SyncAll h, a)]" using typed_call_trace [OF c2] by blast
    have "a = Ready Unit \<or> a = Failed NotFound" if "r = Ok () \<or> r = Err (StorageIo q NotFound)" for q
      using that eq a typed_call_Ok [of as_unit "SyncAll h" e1 "()" e2] typed_call_Err [of as_unit "SyncAll h" e1 NotFound e2] c2
      by (cases q2) auto
    then show ?thesis using t1 a eq(2)
      by (intro exI [of _ "[(OpenRead p, Ready (Opened h)), (SyncAll h, a)]"]) (auto simp: dir_synced_def)
  next
    case (Err x)
    then show ?thesis using assms c1 typed_call_Err [OF c1 [unfolded Err]]
      by (intro exI [of _ "[(OpenRead p, Failed x)]"]) (auto simp: sync_directory_def dir_synced_def)
  next
    case (Stop x)
    then show ?thesis using assms c1 typed_call_trace [OF c1] by (auto simp: sync_directory_def)
  qed
qed

lemma sync_directory_Ok:
  assumes "sync_directory p e = (Ok u, e')"
  shows "\<exists>h. trace e' = trace e @ [(OpenRead p, Ready (Opened h)), (SyncAll h, Ready Unit)]"
proof -
  obtain h e1 where c: "open_call (OpenRead p) e = (Ok h, e1)" "unit_call (SyncAll h) e1 = (Ok u, e')"
    using assms by (auto simp: sync_directory_def try_io_eq_Ok at_path_eq_Ok)
  then show ?thesis using typed_call_Ok [OF c(1)] typed_call_Ok [OF c(2)] by auto
qed

lemma sync_directories_trace:
  "sync_directories ps e = (r, e') \<Longrightarrow> \<exists>evs. trace e' = trace e @ evs \<and>
     (\<forall>ev\<in>set evs. (\<exists>p\<in>set ps. fst ev = OpenRead p) \<or> (\<exists>h. fst ev = SyncAll h)) \<and>
     (r = Ok () \<longrightarrow> (\<forall>p\<in>set ps. dir_synced evs p))"
proof (induction ps arbitrary: e)
  case (Cons p ps)
  obtain q e1 where c: "sync_directory p e = (q, e1)" by fastforce
  obtain evs where evs: "trace e1 = trace e @ evs"
      "\<forall>ev\<in>set evs. fst ev = OpenRead p \<or> (\<exists>h. fst ev = SyncAll h)"
      "\<forall>x. (q = Ok () \<or> q = Err (StorageIo x NotFound)) \<longrightarrow> dir_synced evs p"
    using sync_directory_trace [OF c] by blast
  show ?case
  proof (cases "q = Ok () \<or> (\<exists>x. q = Err (StorageIo x NotFound))")
    case True
    then have "sync_directories ps e1 = (r, e')" using Cons.prems c by auto
    from Cons.IH [OF this] obtain evs' where evs': "trace e' = trace e1 @ evs'"
      "\<forall>ev\<in>set evs'. (\<exists>p\<in>set ps. fst ev = OpenRead p) \<or> (\<exists>h. fst ev = SyncAll h)"
      "r = Ok () \<longrightarrow> (\<forall>p\<in>set ps. dir_synced evs' p)" by blast
    have "dir_synced evs p" using True evs(3) by blast
    then have "r = Ok () \<longrightarrow> (\<forall>p\<in>set (p # ps). dir_synced (evs @ evs') p)"
      using evs'(3) dir_synced_append by auto
    moreover have "\<forall>ev\<in>set (evs @ evs'). (\<exists>p\<in>set (p # ps). fst ev = OpenRead p) \<or> (\<exists>h. fst ev = SyncAll h)"
      using evs(2) evs'(2) by auto
    moreover have "trace e' = trace e @ evs @ evs'" using evs(1) evs'(1) by simp
    ultimately show ?thesis by blast
  next
    case False
    then have "e' = e1 \<and> r \<noteq> Ok ()" using Cons.prems c
      by (cases q) (auto split: StorageError.splits if_splits)
    then show ?thesis using evs(1,2) by auto
  qed
qed simp

text \<open>
  C22. Cleanup removes exactly the requested range, in order, on every run: the removals made are a
  prefix of log and index of each file from the first to the last; only when all of them are done
  are the directories synchronized. On success every file is gone and the directory of every file
  is synchronized or does not exist.
\<close>

theorem removal_in_order_then_sync:
  assumes "valid_log_file first" and "valid_log_file final"
    and "remove_log_and_index sp first final (start_env answers) = (r, e')"
  shows "let files = map (file_at (file_stream first))
        [file_nat (file_number first)..<Suc (file_nat (file_number final))] in
    \<exists>evs syncs. trace e' = evs @ syncs \<and> prefix (map fst evs) (removals sp files) \<and>
      (\<forall>ev\<in>set syncs. (\<exists>f\<in>set files. fst ev = OpenRead (parent (log_file_path sp f))) \<or> (\<exists>h. fst ev = SyncAll h)) \<and>
      (syncs \<noteq> [] \<longrightarrow> map fst evs = removals sp files \<and> list_all gone evs) \<and>
      (r = Ok () \<longrightarrow> file_stream final = file_stream first \<and> map fst evs = removals sp files \<and>
        list_all gone evs \<and> (\<forall>f\<in>set files. dir_synced syncs (parent (log_file_path sp f))))"
proof (cases "\<exists>files. iter_to first final = Ok (Some files)")
  case True
  then obtain files where it: "iter_to first final = Ok (Some files)" by blast
  note files = iter_to_files [OF it assms(1,2)]
  obtain q e1 where c: "remove_files sp files [] (start_env answers) = (q, e1)" by fastforce
  obtain evs where evs: "trace e1 = evs" "prefix (map fst evs) (removals sp files)"
     "is_ok q \<longrightarrow> map fst evs = removals sp files \<and> list_all gone evs"
    using remove_files_trace [OF c] by (auto simp: start_env_def)
  show ?thesis
  proof (cases q)
    case (Ok ds)
    then have ds: "set ds = (\<lambda>f. parent (log_file_path sp f)) ` set files" and
      s: "sync_directories ds e1 = (r, e')"
      using remove_files_dirs [OF c [unfolded Ok]] assms(3) it c by (simp_all add: remove_log_and_index_def)
    obtain syncs where "trace e' = trace e1 @ syncs"
        "\<forall>ev\<in>set syncs. (\<exists>p\<in>set ds. fst ev = OpenRead p) \<or> (\<exists>h. fst ev = SyncAll h)"
        "r = Ok () \<longrightarrow> (\<forall>p\<in>set ds. dir_synced syncs p)"
      using sync_directories_trace [OF s] by blast
    then show ?thesis using evs Ok ds files unfolding Let_def
      by (intro exI [of _ evs] exI [of _ syncs]) (auto simp del: upt_Suc)
  next
    case (Err x)
    then show ?thesis using assms(3) it c evs files unfolding Let_def
      by (intro exI [of _ evs] exI [of _ "[]"]) (auto simp: remove_log_and_index_def simp del: upt_Suc)
  next
    case (Stop x)
    then show ?thesis using assms(3) it c evs files unfolding Let_def
      by (intro exI [of _ evs] exI [of _ "[]"]) (auto simp: remove_log_and_index_def simp del: upt_Suc)
  qed
next
  case False
  then have "trace e' = []" "r \<noteq> Ok ()" using assms(3)
    by (auto simp: remove_log_and_index_def start_env_def split: outcome.splits option.splits)
  then show ?thesis by (simp add: Let_def)
qed

lemma example_removal:
  assumes "valid_log_file f"
  shows "remove_log_and_index sp f f
      (start_env [Ready Unit, Failed NotFound, Ready (Opened (3::nat)), Ready Unit]) =
    (Ok (), \<lparr>script = [], trace =
       [(RemoveFile (log_file_path sp f), Ready Unit), (RemoveFile (index_file_path sp f), Failed NotFound),
        (OpenRead (parent (log_file_path sp f)), Ready (Opened 3)), (SyncAll 3, Ready Unit)]\<rparr>)"
  by (simp add: remove_log_and_index_def iter_to_def file_successors.simps [of f f] Let_def start_env_def
      typed_call_def sync_directory_def insort_insert_key_def)

theorem removal_in_order_then_sync_witness:
  "let f = file_at (StreamId 5) 7; sp = \<lparr>sp_config = \<lparr>root_directory = [''data'']\<rparr>\<rparr>;
       e = snd (remove_log_and_index sp f f
         (start_env [Ready Unit, Failed NotFound, Ready (Opened (3::nat)), Ready Unit])) in
   \<exists>evs syncs. trace e = evs @ syncs \<and>
     map fst evs = [RemoveFile (log_file_path sp f), RemoveFile (index_file_path sp f)] \<and>
     dir_synced syncs (parent (log_file_path sp f))"
proof -
  define f where "f = file_at (StreamId 5) 7"
  define sp where "sp = \<lparr>sp_config = \<lparr>root_directory = [''data'']\<rparr>\<rparr>"
  have v: "valid_log_file f" by (simp add: f_def valid_file_at max_file_def)
  have single: "map (file_at (file_stream f)) [file_nat (file_number f)..<Suc (file_nat (file_number f))] = [f]"
    using file_at_eq [OF v] by simp
  note run = example_removal [OF v, of sp]
  have "\<exists>evs syncs. trace (snd (remove_log_and_index sp f f
         (start_env [Ready Unit, Failed NotFound, Ready (Opened (3::nat)), Ready Unit]))) = evs @ syncs \<and>
     map fst evs = [RemoveFile (log_file_path sp f), RemoveFile (index_file_path sp f)] \<and>
     dir_synced syncs (parent (log_file_path sp f))"
    using removal_in_order_then_sync [OF v v run] unfolding single Let_def run snd_conv removals_simps
    by (elim exE conjE) (intro exI conjI, assumption, simp_all)
  then show ?thesis unfolding Let_def f_def sp_def .
qed

end
