(* ===== verification/LogSearch.thy ===== *)
theory LogSearch
  imports Storage
begin

text \<open>
  \<^verbatim>\<open>StorageProvider::maximum_log_file\<close>: the depth-first search for the highest log of a stream
  through its range directories, and its correctness on a directory tree. A file name that is
  valid UTF-8 is the list of its bytes.
\<close>

subsection \<open>Enumerating a directory\<close>

record PendingDirectory =
  pd_path :: path
  pd_depth :: nat
  pd_prefix :: u64

lemma typed_call_less: "typed_call f c e = (Ok x, e') \<Longrightarrow> length (script e') < length (script e)"
  by (rule typed_call_shrinks [of f c e "Ok x" e' x undefined]) simp_all

text \<open>
  The body of both enumeration loops: each entry with a UTF-8 name that is a candidate is asked for
  its type, and added when it has the wanted one.
\<close>

function enumerate_entries ::
    "path \<Rightarrow> (string \<Rightarrow> ('c option, StorageError) outcome) \<Rightarrow> file_kind \<Rightarrow> ('c \<Rightarrow> 'a \<Rightarrow> 'a) \<Rightarrow> 'a \<Rightarrow>
     'h env \<Rightarrow> ('a, StorageError) outcome \<times> 'h env" where
  "enumerate_entries path candidate wanted add acc e =
     (case typed_call as_entry (NextEntry path) e of
        (Err x, e) \<Rightarrow> (Err (StorageIo path x), e)
      | (Stop s, e) \<Rightarrow> (Stop s, e)
      | (Ok None, e) \<Rightarrow> (Ok acc, e)
      | (Ok (Some None), e) \<Rightarrow> enumerate_entries path candidate wanted add acc e
      | (Ok (Some (Some name)), e) \<Rightarrow>
          (case candidate name of
             Err x \<Rightarrow> (Err x, e)
           | Stop s \<Rightarrow> (Stop s, e)
           | Ok None \<Rightarrow> enumerate_entries path candidate wanted add acc e
           | Ok (Some c) \<Rightarrow>
               (case typed_call as_kind (FileType (path @ [name])) e of
                  (Err x, e) \<Rightarrow> (Err (StorageIo (path @ [name]) x), e)
                | (Stop s, e) \<Rightarrow> (Stop s, e)
                | (Ok kind, e) \<Rightarrow>
                    enumerate_entries path candidate wanted add
                      (if kind = wanted then add c acc else acc) e)))"
  by pat_completeness auto

termination enumerate_entries
  by (relation "measure (\<lambda>(path, candidate, wanted, add, acc, e). length (script e))")
     (auto dest!: typed_call_less [OF sym])

declare enumerate_entries.simps [simp del]

subsection \<open>The search\<close>

definition range_candidate :: "PendingDirectory \<Rightarrow> string \<Rightarrow> (PendingDirectory option, StorageError) outcome" where
  "range_candidate directory name =
     (if length name \<noteq> 3 \<or> \<not> list_all is_digit name then Ok None
      else
        (case parse_u64 name of
           None \<Rightarrow> Stop Panic
         | Some n \<Rightarrow>
             (let range_prefix = pd_prefix directory * 1000 + n;
                  first_file = range_prefix * 1000 ^ (4 - pd_depth directory) in
              if first_file > LogFileNumber_get LogFileNumber_MAX then Ok None
              else Ok (Some \<lparr>pd_path = pd_path directory @ [name], pd_depth = pd_depth directory + 1,
                             pd_prefix = range_prefix\<rparr>))))"

definition range_directories ::
    "PendingDirectory \<Rightarrow> 'h env \<Rightarrow> (PendingDirectory list, StorageError) outcome \<times> 'h env" where
  "range_directories directory e =
     (case unit_call (ReadDir (pd_path directory)) e of
        (Err x, e) \<Rightarrow>
          if pd_depth directory = 0 \<and> x = NotFound then (Ok [], e)
          else (Err (StorageIo (pd_path directory) x), e)
      | (Stop s, e) \<Rightarrow> (Stop s, e)
      | (Ok _, e) \<Rightarrow>
          try_io (enumerate_entries (pd_path directory) (range_candidate directory) IsDir
                   (\<lambda>child children. children @ [child]) [] e)
            (\<lambda>children e. (Ok (sort_key (\<lambda>d. - uint (pd_prefix d)) children), e)))"

definition log_candidate ::
    "StorageProvider \<Rightarrow> StreamId \<Rightarrow> path \<Rightarrow> string \<Rightarrow> (LogFileId option, StorageError) outcome" where
  "log_candidate provider sid path name =
     (case strip_suffix name ''.log'' of
        None \<Rightarrow> Ok None
      | Some number \<Rightarrow>
          if length number \<noteq> 15 \<or> \<not> list_all is_digit number then Ok None
          else
            (case parse_u64 number of
               None \<Rightarrow> Stop Panic
             | Some n \<Rightarrow>
                 (case LogFileNumber_new n of
                    Ok number \<Rightarrow>
                      (let fid = LogFileId_new sid number in
                       if log_file_path provider fid \<noteq> path @ [name] then Ok None else Ok (Some fid))
                  | _ \<Rightarrow> Ok None)))"

definition maximum_log_in_directory ::
    "StorageProvider \<Rightarrow> StreamId \<Rightarrow> path \<Rightarrow> 'h env \<Rightarrow> (LogFileId option, StorageError) outcome \<times> 'h env" where
  "maximum_log_in_directory provider sid path e =
     try_io (at_path path (unit_call (ReadDir path) e)) (\<lambda>_.
       enumerate_entries path (log_candidate provider sid path) IsFile
         (\<lambda>fid maximum.
            case maximum of
              None \<Rightarrow> Some fid
            | Some previous \<Rightarrow> if file_number fid > file_number previous then Some fid else maximum)
         None)"

text \<open>Every iteration of the search consumes an answer.\<close>

lemma enumerate_entries_step:
  assumes "enumerate_entries path candidate wanted add acc e = (Ok x, e')"
  obtains (finished) "trace e' = trace e @ [(NextEntry path, Ready (Entry None))]"
      "length (script e') < length (script e)" "x = acc"
  | (next_entry) evs e1 acc' entry where "trace e1 = trace e @ (NextEntry path, Ready (Entry (Some entry))) # evs"
      "length (script e1) < length (script e)"
      "enumerate_entries path candidate wanted add acc' e1 = (Ok x, e')"
      "case entry of None \<Rightarrow> evs = [] \<and> acc' = acc
       | Some name \<Rightarrow> (case candidate name of
           Ok None \<Rightarrow> evs = [] \<and> acc' = acc
         | Ok (Some c) \<Rightarrow> \<exists>k. evs = [(FileType (path @ [name]), Ready (Kind k))] \<and>
             acc' = (if k = wanted then add c acc else acc)
         | _ \<Rightarrow> False)"
proof -
  obtain r e1 where c: "typed_call as_entry (NextEntry path) e = (r, e1)" by fastforce
  note eq = assms [unfolded enumerate_entries.simps [of path candidate wanted add acc e] c prod.case]
  obtain y where r: "r = Ok y" using eq by (cases r) auto
  have t1: "trace e1 = trace e @ [(NextEntry path, Ready (Entry y))]" "length (script e1) < length (script e)"
    using typed_call_Ok [OF c [unfolded r]] typed_call_less [OF c [unfolded r]] by auto
  consider "y = None" | "y = Some None" | name where "y = Some (Some name)" by (cases y) auto
  then show thesis
  proof cases
    case 1
    then show thesis using finished eq r t1 by auto
  next
    case 2
    then show thesis using next_entry [of e1 None "[]" acc] eq r t1 by simp
  next
    case 3
    show thesis
    proof (cases "\<exists>d. candidate name = Ok (Some d)")
      case False
      then have "candidate name = Ok None" using eq r 3 by (auto split: outcome.splits option.splits)
      then show thesis using next_entry [of e1 "Some name" "[]" acc] eq r t1 3 by simp
    next
      case True
      then obtain d where d: "candidate name = Ok (Some d)" by blast
      obtain q e2 where c2: "typed_call as_kind (FileType (path @ [name])) e1 = (q, e2)" by fastforce
      obtain k where q: "q = Ok k" using eq r 3 d c2 by (cases q) auto
      then show thesis
        using next_entry [of e2 "Some name" "[(FileType (path @ [name]), Ready (Kind k))]" "if k = wanted then add d acc else acc"]
          eq r t1 3 d c2 typed_call_Ok [OF c2 [unfolded q]] typed_call_less [OF c2 [unfolded q]] by simp
    qed
  qed
qed

lemma enumerate_entries_shrinks:
  "enumerate_entries path candidate wanted add acc e = (Ok x, e') \<Longrightarrow>
   length (script e') < length (script e) \<and> (\<exists>evs. trace e' = trace e @ evs)"
proof (induction "length (script e)" arbitrary: acc e rule: less_induct)
  case less
  from less.prems show ?case
  proof (cases rule: enumerate_entries_step)
    case finished
    then show ?thesis by simp
  next
    case (next_entry evs e1 acc' entry)
    from less.hyps [OF next_entry(2,3)] next_entry(1,2) show ?thesis by auto
  qed
qed

lemma range_directories_shrinks:
  "range_directories d e = (Ok x, e') \<Longrightarrow> length (script e') < length (script e)"
proof -
  assume a: "range_directories d e = (Ok x, e')"
  obtain r e1 where c: "unit_call (ReadDir (pd_path d)) e = (r, e1)" by fastforce
  have le: "length (script e1) < length (script e)" if "r = Ok y \<or> r = Err z" for y z
    using typed_call_shrinks [OF c that] .
  show ?thesis
  proof (cases r)
    case (Ok u)
    then obtain cs where "enumerate_entries (pd_path d) (range_candidate d) IsDir
        (\<lambda>child children. children @ [child]) [] e1 = (Ok cs, e')"
      using a c by (auto simp: range_directories_def try_io_eq_Ok)
    then show ?thesis using enumerate_entries_shrinks [of _ _ _ _ _ e1 cs e'] le Ok by fastforce
  qed (use a c le in \<open>auto simp: range_directories_def split: if_splits\<close>)
qed

lemma maximum_log_in_directory_shrinks:
  "maximum_log_in_directory sp s p e = (Ok x, e') \<Longrightarrow> length (script e') < length (script e)"
proof -
  assume "maximum_log_in_directory sp s p e = (Ok x, e')"
  then obtain u e1 acc cand where c: "unit_call (ReadDir p) e = (Ok u, e1)"
      "enumerate_entries p (log_candidate sp s p) IsFile cand acc e1 = (Ok x, e')"
    by (auto simp: maximum_log_in_directory_def try_io_eq_Ok at_path_eq_Ok)
  show ?thesis using typed_call_shrinks [OF c(1)] enumerate_entries_shrinks [OF c(2)] by fastforce
qed

text \<open>\<open>pending\<close> is the vector of the source: its top is the last element.\<close>

function search_loop ::
    "StorageProvider \<Rightarrow> StreamId \<Rightarrow> PendingDirectory list \<Rightarrow> 'h env \<Rightarrow>
     (LogFileId option, StorageError) outcome \<times> 'h env" where
  "search_loop provider sid pending e =
     (if pending = [] then (Ok None, e)
      else
        (let directory = last pending; pending = butlast pending in
         if pd_depth directory = 4
         then
           (case maximum_log_in_directory provider sid (pd_path directory) e of
              (Err x, e) \<Rightarrow> (Err x, e)
            | (Stop s, e) \<Rightarrow> (Stop s, e)
            | (Ok (Some fid), e) \<Rightarrow> (Ok (Some fid), e)
            | (Ok None, e) \<Rightarrow> search_loop provider sid pending e)
         else
           (case range_directories directory e of
              (Err x, e) \<Rightarrow> (Err x, e)
            | (Stop s, e) \<Rightarrow> (Stop s, e)
            | (Ok children, e) \<Rightarrow> search_loop provider sid (pending @ rev children) e)))"
  by pat_completeness auto

termination search_loop
  by (relation "measure (\<lambda>(provider, sid, pending, e). length (script e))")
     (auto dest!: sym [of "(Ok _, _)"] range_directories_shrinks maximum_log_in_directory_shrinks)

declare search_loop.simps [simp del]

definition maximum_log_file ::
    "StorageProvider \<Rightarrow> StreamId \<Rightarrow> 'h env \<Rightarrow> (LogFileId option, StorageError) outcome \<times> 'h env" where
  "maximum_log_file self sid e =
     search_loop self sid [\<lparr>pd_path = stream_directory self sid, pd_depth = 0, pd_prefix = 0\<rparr>] e"

subsection \<open>The calls of the search\<close>

text \<open>The search only reads directories and types of entries, all below the stream's directory.\<close>

fun browses :: "path \<Rightarrow> 'h call \<Rightarrow> bool" where
  "browses base (ReadDir p) = prefix base p"
| "browses base (NextEntry p) = prefix base p"
| "browses base (FileType p) = prefix base p"
| "browses base _ = False"

definition extends :: "('h call \<Rightarrow> bool) \<Rightarrow> 'h env \<Rightarrow> 'h env \<Rightarrow> bool" where
  "extends Q e e' \<longleftrightarrow> (\<exists>evs. trace e' = trace e @ evs \<and> (\<forall>ev\<in>set evs. Q (fst ev)))"

lemma extends_refl [simp]: "extends Q e e"
  by (simp add: extends_def)

lemma extends_trans [trans]: "extends Q e e1 \<Longrightarrow> extends Q e1 e2 \<Longrightarrow> extends Q e e2"
  by (fastforce simp: extends_def)

lemma extends_typed: "typed_call f c e = (r, e') \<Longrightarrow> Q c \<Longrightarrow> extends Q e e'"
  by (auto simp: extends_def dest: typed_call_trace)

lemma only_calls_extends: "only_calls Q m \<longleftrightarrow> (\<forall>e r e'. m e = (r, e') \<longrightarrow> extends Q e e')"
  by (simp add: only_calls_def extends_def prod_eq_iff)

lemma enumerate_entries_calls:
  assumes "prefix base path"
  shows "only_calls (browses base) (enumerate_entries path candidate wanted add acc)"
  unfolding only_calls_extends
proof (intro allI impI)
  fix e r e'
  assume "enumerate_entries path candidate wanted add acc e = (r, e')"
  then show "extends (browses base) e e'"
  proof (induction "length (script e)" arbitrary: acc e rule: less_induct)
    case less
    obtain u e1 where c: "typed_call as_entry (NextEntry path) e = (u, e1)" by fastforce
    note run = less.prems [unfolded enumerate_entries.simps [of path candidate wanted add acc e] c prod.case]
    have 1: "extends (browses base) e e1" by (rule extends_typed [OF c]) (simp add: assms)
    have again: "extends (browses base) e e'" if "enumerate_entries path candidate wanted add acc' e2 = (r, e')" and
        e2: "length (script e2) < length (script e)" "extends (browses base) e e2" for acc' e2
      by (rule extends_trans [OF e2(2) less.hyps [OF e2(1) that(1)]])
    show ?case
    proof (cases "\<exists>name d. u = Ok (Some (Some name)) \<and> candidate name = Ok (Some d)")
      case True
      then obtain name d where d: "u = Ok (Some (Some name))" "candidate name = Ok (Some d)" by blast
      obtain q e2 where c2: "typed_call as_kind (FileType (path @ [name])) e1 = (q, e2)" by fastforce
      have 2: "extends (browses base) e e2" using extends_typed [OF c2, of "browses base"] 1 extends_trans assms by fastforce
      have "length (script e2) < length (script e)" if "q = Ok k" for k
        using typed_call_less [OF c [unfolded d(1)]] typed_call_less [OF c2 [unfolded that]] by simp
      then show ?thesis using run d c2 2 again by (cases q) simp_all
    next
      case False
      then consider "r = r" "e' = e1" | x where "u = Ok x" "enumerate_entries path candidate wanted add acc e1 = (r, e')"
        using run by (auto split: outcome.splits option.splits)
      then show ?thesis using 1 again [OF _ _ 1] typed_call_less [of as_entry _ e] c by cases auto
    qed
  qed
qed

text \<open>What every accepted candidate preserves holds of the result.\<close>

lemma enumerate_entries_inv:
  assumes "\<And>name c a. candidate name = Ok (Some c) \<Longrightarrow> P a \<Longrightarrow> P (add c a)"
  shows "enumerate_entries path candidate wanted add acc e = (Ok x, e') \<Longrightarrow> P acc \<Longrightarrow> P x"
proof (induction "length (script e)" arbitrary: acc e rule: less_induct)
  case less
  from less.prems(1) show ?case
  proof (cases rule: enumerate_entries_step)
    case finished
    then show ?thesis using less.prems(2) by simp
  next
    case (next_entry evs e1 acc' entry)
    have "P acc'" using next_entry(4) less.prems(2) assms by (auto split: option.splits outcome.splits if_splits)
    with less.hyps [OF next_entry(2,3)] show ?thesis .
  qed
qed

lemma range_candidate_path: "range_candidate d name = Ok (Some c) \<Longrightarrow> pd_path c = pd_path d @ [name]"
  by (auto simp: range_candidate_def Let_def split: if_splits option.splits)

lemma range_directories_below:
  assumes "range_directories d e = (Ok cs, e')" and "prefix base (pd_path d)" and "c \<in> set cs"
  shows "prefix base (pd_path c)"
proof -
  define P where "P cs \<longleftrightarrow> (\<forall>c\<in>set cs. prefix base (pd_path c))" for cs :: "PendingDirectory list"
  obtain r e1 where c: "unit_call (ReadDir (pd_path d)) e = (r, e1)" by fastforce
  then obtain xs where en: "enumerate_entries (pd_path d) (range_candidate d) IsDir
      (\<lambda>child children. children @ [child]) [] e1 = (Ok xs, e')" "set cs = set xs"
    using assms(1,3) by (cases r) (auto simp: range_directories_def try_io_eq_Ok split: if_splits)
  have "P (a @ [c])" if "range_candidate d name = Ok (Some c)" "P a" for name c a
    using range_candidate_path [OF that(1)] that(2) assms(2) by (simp add: P_def)
  then have "P xs" by (rule enumerate_entries_inv [OF _ en(1)]) (simp_all add: P_def)
  then show ?thesis using assms(3) en(2) by (simp add: P_def)
qed

lemma range_directories_calls:
  assumes "prefix base (pd_path d)"
  shows "only_calls (browses base) (range_directories d)"
proof -
  have "only_calls (browses base) (\<lambda>e. try_io (enumerate_entries (pd_path d) (range_candidate d) IsDir
      (\<lambda>child children. children @ [child]) [] e) (\<lambda>children e. (Ok (sort_key (\<lambda>d. - uint (pd_prefix d)) children), e)))"
    by (intro only_calls_try enumerate_entries_calls only_calls_pure assms)
  then show ?thesis unfolding range_directories_def [abs_def]
    by (intro only_calls_case only_calls_typed only_calls_if only_calls_pure) (simp_all add: assms)
qed

lemma maximum_log_in_directory_calls:
  assumes "prefix base p"
  shows "only_calls (browses base) (maximum_log_in_directory sp s p)"
  unfolding maximum_log_in_directory_def
  by (intro only_calls_try only_calls_at_path only_calls_typed enumerate_entries_calls) (simp_all add: assms)

lemma search_loop_calls:
  "search_loop sp s pending e = (r, e') \<Longrightarrow> \<forall>d\<in>set pending. prefix base (pd_path d) \<Longrightarrow> extends (browses base) e e'"
proof (induction "length (script e)" arbitrary: pending e rule: less_induct)
  case less
  let ?d = "last pending"
  note run = less.prems(1) [unfolded search_loop.simps [of sp s pending e]]
  show ?case
  proof (cases "pending = []")
    case False
    then have d: "prefix base (pd_path ?d)" "\<forall>d\<in>set (butlast pending). prefix base (pd_path d)"
      using less.prems(2) by (auto dest: in_set_butlastD)
    obtain u e1 where c: "maximum_log_in_directory sp s (pd_path ?d) e = (u, e1)" by fastforce
    obtain v e2 where c2: "range_directories ?d e = (v, e2)" by fastforce
    have 1: "extends (browses base) e e1" "extends (browses base) e e2"
      using c c2 maximum_log_in_directory_calls [OF d(1)] range_directories_calls [OF d(1)]
      unfolding only_calls_extends by blast+
    show ?thesis
    proof (cases "pd_depth ?d = 4")
      case True
      have "extends (browses base) e e'" if "u = Ok x" "search_loop sp s (butlast pending) e1 = (r, e')" for x
        using less.hyps [OF maximum_log_in_directory_shrinks [OF c [unfolded that(1)]] that(2) d(2)] 1(1) extends_trans by blast
      then show ?thesis using run False True c 1(1) by (cases u) (auto simp: Let_def split: option.splits)
    next
      case deep: False
      have "extends (browses base) e e'" if "v = Ok cs" "search_loop sp s (butlast pending @ rev cs) e2 = (r, e')" for cs
      proof -
        have "\<forall>d\<in>set (butlast pending @ rev cs). prefix base (pd_path d)"
          using d(2) range_directories_below [OF c2 [unfolded that(1)] d(1)] by auto
        from less.hyps [OF range_directories_shrinks [OF c2 [unfolded that(1)]] that(2) this] show ?thesis
          by (rule extends_trans [OF 1(2)])
      qed
      then show ?thesis using run False deep c2 1(2) by (cases v) (auto simp: Let_def)
    qed
  qed (use less.prems(1) run in simp)
qed

lemma maximum_log_file_calls: "only_calls (browses (stream_directory sp s)) (maximum_log_file sp s)"
  unfolding only_calls_extends maximum_log_file_def using search_loop_calls by fastforce

text \<open>A log that is found belongs to the stream.\<close>

lemma log_candidate_valid: "log_candidate sp s p name = Ok (Some f) \<Longrightarrow> file_stream f = s \<and> valid_log_file f"
  by (auto simp: log_candidate_def Let_def valid_log_file_def LogFileNumber_new_eq_Ok split: option.splits if_splits outcome.splits)

lemma maximum_log_in_directory_valid:
  assumes "maximum_log_in_directory sp s p e = (Ok (Some f), e')"
  shows "file_stream f = s \<and> valid_log_file f"
proof -
  define P where "P m \<longleftrightarrow> (\<forall>f. m = Some f \<longrightarrow> file_stream f = s \<and> valid_log_file f)" for m
  define add where "add fid maximum = (case maximum of None \<Rightarrow> Some fid
         | Some previous \<Rightarrow> if file_number fid > file_number previous then Some fid else maximum)" for fid :: LogFileId and maximum
  obtain e1 where en: "enumerate_entries p (log_candidate sp s p) IsFile add None e1 = (Ok (Some f), e')"
    using assms by (auto simp: maximum_log_in_directory_def try_io_eq_Ok add_def [abs_def])
  have "P (add c a)" if "log_candidate sp s p name = Ok (Some c)" "P a" for name c a
    using log_candidate_valid [OF that(1)] that(2) by (auto simp: P_def add_def split: option.splits)
  then have "P (Some f)" by (rule enumerate_entries_inv [OF _ en]) (simp_all add: P_def)
  then show ?thesis by (simp add: P_def)
qed

lemma search_loop_valid:
  "search_loop sp s pending e = (Ok (Some f), e') \<Longrightarrow> file_stream f = s \<and> valid_log_file f"
proof (induction "length (script e)" arbitrary: pending e rule: less_induct)
  case less
  note run = less.prems [unfolded search_loop.simps [of sp s pending e]]
  have ne: "pending \<noteq> []" using run by auto
  show ?case
  proof (cases "pd_depth (last pending) = 4")
    case True
    obtain u e1 where c: "maximum_log_in_directory sp s (pd_path (last pending)) e = (u, e1)" by fastforce
    obtain m where u: "u = Ok m" using run ne True c by (cases u) (auto simp: Let_def)
    show ?thesis using run ne True c u maximum_log_in_directory_valid [of sp s _ e f]
        less.hyps [OF maximum_log_in_directory_shrinks [OF c [unfolded u]]]
      by (cases m) (auto simp: Let_def)
  next
    case False
    obtain v e2 where c: "range_directories (last pending) e = (v, e2)" by fastforce
    obtain cs where v: "v = Ok cs" using run ne False c by (cases v) (auto simp: Let_def)
    show ?thesis using run ne False c v less.hyps [OF range_directories_shrinks [OF c [unfolded v]]]
      by (auto simp: Let_def)
  qed
qed

lemma maximum_log_file_valid:
  "maximum_log_file sp s e = (Ok (Some f), e') \<Longrightarrow> file_stream f = s \<and> valid_log_file f"
  unfolding maximum_log_file_def by (rule search_loop_valid)

subsection \<open>Directory trees\<close>

text \<open>
  A tree gives the entries of each directory, \<open>None\<close> for a path that is not there; it does not
  change during the search. \<open>walk\<close> replays a trace on it: \<open>rest p\<close> are the entries that the
  enumeration of \<open>p\<close> has still to return.
\<close>

type_synonym tree = "path \<Rightarrow> (string option \<times> file_kind) list option"

definition listing :: "tree \<Rightarrow> path \<Rightarrow> (string option \<times> file_kind) list" where
  "listing t p = (case t p of None \<Rightarrow> [] | Some es \<Rightarrow> es)"

definition walk_step ::
    "tree \<Rightarrow> 'h call \<times> 'h answer \<Rightarrow> (path \<Rightarrow> string option list) \<Rightarrow> (path \<Rightarrow> string option list) option" where
  "walk_step t ev rest =
     (case ev of
        (ReadDir p, Ready Unit) \<Rightarrow> map_option (\<lambda>es. rest(p := map fst es)) (t p)
      | (ReadDir p, Failed x) \<Rightarrow> if x = NotFound \<and> t p = None then Some rest else None
      | (NextEntry p, Ready (Entry x)) \<Rightarrow>
          (case rest p of
             [] \<Rightarrow> if x = None then Some rest else None
           | n # ns \<Rightarrow> if x = Some n then Some (rest(p := ns)) else None)
      | (FileType p, Ready (Kind k)) \<Rightarrow>
          if (Some (last p), k) \<in> set (listing t (butlast p)) then Some rest else None
      | _ \<Rightarrow> None)"

lemma walk_step_simps [simp]:
  "walk_step t (ReadDir p, Ready Unit) rest = map_option (\<lambda>es. rest(p := map fst es)) (t p)"
  "walk_step t (ReadDir p, Failed e) rest = (if e = NotFound \<and> t p = None then Some rest else None)"
  "walk_step t (NextEntry p, Ready (Entry x)) rest =
     (case rest p of [] \<Rightarrow> if x = None then Some rest else None
      | n # ns \<Rightarrow> if x = Some n then Some (rest(p := ns)) else None)"
  "walk_step t (FileType p, Ready (Kind k)) rest =
     (if (Some (last p), k) \<in> set (listing t (butlast p)) then Some rest else None)"
  by (simp_all add: walk_step_def)

primrec walk ::
    "tree \<Rightarrow> ('h call \<times> 'h answer) list \<Rightarrow> (path \<Rightarrow> string option list) \<Rightarrow>
     (path \<Rightarrow> string option list) option" where
  "walk t [] rest = Some rest"
| "walk t (ev # tr) rest = (case walk_step t ev rest of None \<Rightarrow> None | Some rest' \<Rightarrow> walk t tr rest')"

lemma walk_append:
  "walk t (tr @ tr') rest = (case walk t tr rest of None \<Rightarrow> None | Some rest' \<Rightarrow> walk t tr' rest')"
  by (induction tr arbitrary: rest) (auto split: option.splits)

text \<open>Names are unique within a directory.\<close>

definition names :: "(string option \<times> file_kind) list \<Rightarrow> string option list" where
  "names es = filter (\<lambda>n. n \<noteq> None) (map fst es)"

definition tree_ok :: "tree \<Rightarrow> bool" where
  "tree_ok t \<longleftrightarrow> (\<forall>p. distinct (names (listing t p)))"

lemma names_unique:
  "distinct (names es) \<Longrightarrow> (Some n, k) \<in> set es \<Longrightarrow> (Some n, k') \<in> set es \<Longrightarrow> k = k'"
  by (induction es) (auto simp: names_def image_iff split: if_splits)

lemma tree_ok_unique:
  "tree_ok t \<Longrightarrow> (Some n, k) \<in> set (listing t p) \<Longrightarrow> (Some n, k') \<in> set (listing t p) \<Longrightarrow> k = k'"
  using names_unique unfolding tree_ok_def by blast

text \<open>The candidates that an enumeration of the entries \<open>es\<close> accepts.\<close>

definition selected ::
    "(string \<Rightarrow> ('c option, StorageError) outcome) \<Rightarrow> file_kind \<Rightarrow> (string option \<times> file_kind) list \<Rightarrow> 'c list" where
  "selected candidate wanted es =
     List.map_filter (\<lambda>(n, k).
       case n of None \<Rightarrow> None
       | Some name \<Rightarrow> (case candidate name of Ok c \<Rightarrow> if k = wanted then c else None | _ \<Rightarrow> None)) es"

lemma selected_simps [simp]:
  "selected candidate wanted [] = []"
  "selected candidate wanted ((None, k) # es) = selected candidate wanted es"
  "candidate name = Ok None \<Longrightarrow>
     selected candidate wanted ((Some name, k) # es) = selected candidate wanted es"
  "candidate name = Ok (Some c) \<Longrightarrow>
     selected candidate wanted ((Some name, k) # es) =
       (if k = wanted then c # selected candidate wanted es else selected candidate wanted es)"
  by (simp_all add: selected_def List.map_filter_simps)

lemma in_selected:
  "c \<in> set (selected candidate wanted es) \<longleftrightarrow>
     (\<exists>name. (Some name, wanted) \<in> set es \<and> candidate name = Ok (Some c))"
  by (induction es) (auto simp: selected_def List.map_filter_simps split: option.splits outcome.splits if_splits)

lemma enumerate_entries_selects:
  "enumerate_entries path candidate wanted add acc e = (Ok x, e') \<Longrightarrow>
   trace e' = trace e @ evs \<Longrightarrow> walk t evs rest = Some rest' \<Longrightarrow> tree_ok t \<Longrightarrow>
   rest path = map fst es \<Longrightarrow> set es \<subseteq> set (listing t path) \<Longrightarrow>
   x = foldl (\<lambda>a c. add c a) acc (selected candidate wanted es)"
proof (induction "length (script e)" arbitrary: acc e evs rest es rule: less_induct)
  case less
  note tr = less.prems(2) and wk = less.prems(3) and ok = less.prems(4) and names = less.prems(5)
    and sub = less.prems(6)
  from less.prems(1) show ?case
  proof (cases rule: enumerate_entries_step)
    case finished
    then have "evs = [(NextEntry path, Ready (Entry None))]" using tr by simp
    then have "es = []" using wk names by (cases es) (auto split: if_splits)
    then show ?thesis using finished by simp
  next
    case (next_entry evs1 e1 acc' entry)
    obtain evs2 where evs2: "trace e' = trace e1 @ evs2"
      using enumerate_entries_shrinks [OF next_entry(3)] by blast
    then have evs: "evs = (NextEntry path, Ready (Entry (Some entry))) # evs1 @ evs2"
      using tr next_entry(1) by simp
    obtain k es' where es: "es = (entry, k) # es'" using wk evs names by (cases es) (auto split: if_splits)
    let ?rest = "rest(path := map fst es')"
    have wk1: "walk t (evs1 @ evs2) ?rest = Some rest'" using wk evs names es by simp
    have sub': "set es' \<subseteq> set (listing t path)" and k: "(entry, k) \<in> set (listing t path)" using sub es by auto
    have ih: "x = foldl (\<lambda>a c. add c a) acc' (selected candidate wanted es')" if "walk t evs2 ?rest = Some rest'"
      by (rule less.hyps [OF next_entry(2,3) evs2 that ok _ sub']) simp
    consider (skip) "evs1 = []" "acc' = acc" "entry = None \<or> (\<exists>name. entry = Some name \<and> candidate name = Ok None)"
      | (ask) name c k' where "entry = Some name" "candidate name = Ok (Some c)"
          "evs1 = [(FileType (path @ [name]), Ready (Kind k'))]" "acc' = (if k' = wanted then add c acc else acc)"
      using next_entry(4) by (auto split: option.splits outcome.splits)
    then show ?thesis
    proof cases
      case skip
      then show ?thesis using ih wk1 es by auto
    next
      case ask
      then have "(Some name, k') \<in> set (listing t path)" "walk t evs2 ?rest = Some rest'"
        using wk1 by (auto split: if_splits)
      moreover have "k' = k" using tree_ok_unique [OF ok calculation(1)] k ask(1) by blast
      ultimately show ?thesis using ih ask es by simp
    qed
  qed
qed

lemma distinct_selected:
  assumes "\<And>n m c. candidate n = Ok (Some c) \<Longrightarrow> candidate m = Ok (Some c) \<Longrightarrow> n = m"
  shows "distinct (names es) \<Longrightarrow> distinct (selected candidate wanted es)"
proof (induction es)
  case (Cons en es)
  obtain n k where en: "en = (n, k)" by fastforce
  have rest: "distinct (selected candidate wanted es)" using Cons en by (auto simp: names_def split: if_splits)
  show ?case
  proof (cases "\<exists>name c. n = Some name \<and> candidate name = Ok (Some c)")
    case True
    then obtain name c where nc: "n = Some name" "candidate name = Ok (Some c)" by blast
    have notin: "Some name \<notin> set (names es)" using Cons.prems en nc(1) by (simp add: names_def)
    have "c \<notin> set (selected candidate wanted es)"
    proof
      assume "c \<in> set (selected candidate wanted es)"
      then obtain m where m: "(Some m, wanted) \<in> set es" "candidate m = Ok (Some c)" by (auto simp: in_selected)
      then have "Some m \<in> set (names es)" by (force simp: names_def)
      then show False using notin assms [OF nc(2) m(2)] by simp
    qed
    then show ?thesis using rest en nc by simp
  next
    case False
    then have "selected candidate wanted (en # es) = selected candidate wanted es"
      using en by (auto simp: selected_def List.map_filter_simps split: option.splits outcome.splits)
    then show ?thesis using rest by simp
  qed
qed simp

lemma range_directories_tree:
  assumes "range_directories d e = (Ok cs, e')" and "tree_ok t"
  shows "\<exists>evs. trace e' = trace e @ evs \<and> (\<forall>rest rest'. walk t evs rest = Some rest' \<longrightarrow>
    cs = sort_key (\<lambda>d. - uint (pd_prefix d)) (selected (range_candidate d) IsDir (listing t (pd_path d))))"
proof -
  obtain r e1 where c: "unit_call (ReadDir (pd_path d)) e = (r, e1)" by fastforce
  show ?thesis
  proof (cases r)
    case (Ok u)
    then obtain xs where xs: "enumerate_entries (pd_path d) (range_candidate d) IsDir
        (\<lambda>child children. children @ [child]) [] e1 = (Ok xs, e')"
        "cs = sort_key (\<lambda>d. - uint (pd_prefix d)) xs"
      using assms(1) c by (auto simp: range_directories_def try_io_eq_Ok)
    obtain evs where evs: "trace e' = trace e1 @ evs" using enumerate_entries_shrinks [OF xs(1)] by blast
    have t1: "trace e1 = trace e @ [(ReadDir (pd_path d), Ready Unit)]" using typed_call_Ok [OF c [unfolded Ok]] by auto
    have app: "foldl (\<lambda>a c. a @ [c]) ys zs = ys @ zs" for ys zs :: "PendingDirectory list"
      by (induction zs arbitrary: ys) simp_all
    have "xs = selected (range_candidate d) IsDir (listing t (pd_path d))"
      if w: "walk t ((ReadDir (pd_path d), Ready Unit) # evs) rest = Some rest'" for rest rest'
    proof -
      obtain es where es: "t (pd_path d) = Some es" "walk t evs (rest(pd_path d := map fst es)) = Some rest'"
        using w by (auto split: option.splits)
      show ?thesis
        using enumerate_entries_selects [OF xs(1) evs es(2) assms(2), of es] es(1) app by (simp add: listing_def)
    qed
    then show ?thesis using evs t1 xs(2) by (intro exI [of _ "(ReadDir (pd_path d), Ready Unit) # evs"]) auto
  next
    case (Err x)
    then show ?thesis using assms(1) c typed_call_Err [OF c [unfolded Err]]
      by (auto simp: range_directories_def listing_def split: if_splits)
  next
    case (Stop x)
    then show ?thesis using assms(1) c by (auto simp: range_directories_def)
  qed
qed

definition later :: "LogFileId \<Rightarrow> LogFileId option \<Rightarrow> LogFileId option" where
  "later fid maximum =
     (case maximum of None \<Rightarrow> Some fid
      | Some previous \<Rightarrow> if file_number fid > file_number previous then Some fid else maximum)"

lemma foldl_later:
  "case foldl (\<lambda>a c. later c a) m fs of
     None \<Rightarrow> m = None \<and> fs = []
   | Some f \<Rightarrow> (f \<in> set fs \<or> m = Some f) \<and> (\<forall>g\<in>set fs. file_number g \<le> file_number f) \<and>
       (\<forall>g. m = Some g \<longrightarrow> file_number g \<le> file_number f)"
proof (induction fs arbitrary: m)
  case Nil
  then show ?case by (simp split: option.splits)
next
  case (Cons f fs)
  show ?case using Cons.IH [of "later f m"] by (auto simp: later_def split: option.splits if_splits)
qed

lemma maximum_log_tree:
  assumes "maximum_log_in_directory sp s p e = (Ok r, e')" and "tree_ok t"
  shows "\<exists>evs. trace e' = trace e @ evs \<and> (\<forall>rest rest'. walk t evs rest = Some rest' \<longrightarrow>
    r = foldl (\<lambda>a c. later c a) None (selected (log_candidate sp s p) IsFile (listing t p)))"
proof -
  obtain u e1 where c: "unit_call (ReadDir p) e = (Ok u, e1)"
      and en: "enumerate_entries p (log_candidate sp s p) IsFile later None e1 = (Ok r, e')"
    using assms(1) by (auto simp: maximum_log_in_directory_def try_io_eq_Ok at_path_eq_Ok later_def [abs_def])
  obtain evs where evs: "trace e' = trace e1 @ evs" using enumerate_entries_shrinks [OF en] by blast
  have t1: "trace e1 = trace e @ [(ReadDir p, Ready Unit)]" using typed_call_Ok [OF c] by auto
  have "r = foldl (\<lambda>a c. later c a) None (selected (log_candidate sp s p) IsFile (listing t p))"
    if w: "walk t ((ReadDir p, Ready Unit) # evs) rest = Some rest'" for rest rest'
  proof -
    obtain es where es: "t p = Some es" "walk t evs (rest(p := map fst es)) = Some rest'"
      using w by (auto split: option.splits)
    show ?thesis using enumerate_entries_selects [OF en evs es(2) assms(2), of es] es(1) by (simp add: listing_def)
  qed
  then show ?thesis using evs t1 by (intro exI [of _ "(ReadDir p, Ready Unit) # evs"]) auto
qed

subsection \<open>The nodes of the search\<close>

text \<open>
  The directory at depth \<open>d\<close> whose range components form the number \<open>p\<close>; it covers the file
  numbers \<open>n\<close> with \<open>n div 1000 ^ (5 - d) = p\<close>.
\<close>

primrec dir_path :: "path \<Rightarrow> nat \<Rightarrow> nat \<Rightarrow> path" where
  "dir_path base 0 p = base"
| "dir_path base (Suc d) p = dir_path base d (p div 1000) @ [digits 3 p]"

definition node :: "path \<Rightarrow> nat \<Rightarrow> nat \<Rightarrow> PendingDirectory" where
  "node base d p = \<lparr>pd_path = dir_path base d p, pd_depth = d, pd_prefix = of_nat p\<rparr>"

lemma node_sel [simp]:
  "pd_path (node base d p) = dir_path base d p" "pd_depth (node base d p) = d"
  "pd_prefix (node base d p) = of_nat p"
  by (simp_all add: node_def)

lemma length_dir_path [simp]: "length (dir_path base d p) = length base + d"
  by (induction d arbitrary: p) simp_all

lemma dir_path_4: "dir_path base 4 (n div 1000) = base @ range_names n"
proof -
  have "dir_path base (Suc (Suc (Suc (Suc 0)))) (n div 1000) = base @ range_names n"
    by (simp add: range_names_def flip: div_mult2_eq)
  moreover have "4 = Suc (Suc (Suc (Suc 0)))" by simp
  ultimately show ?thesis by (simp only:)
qed

lemma dir_path_inject:
  "p < 1000 ^ d \<Longrightarrow> q < 1000 ^ d \<Longrightarrow> dir_path base d p = dir_path base d q \<longleftrightarrow> p = q"
proof (induction d arbitrary: p q)
  case (Suc d)
  have "p div 1000 < 1000 ^ d" "q div 1000 < 1000 ^ d" using Suc.prems by (simp_all add: less_mult_imp_div_less mult.commute)
  note ih = Suc.IH [OF this]
  have "digits 3 p = digits 3 q \<longleftrightarrow> p mod 1000 = q mod 1000"
  proof -
    have "digits 3 p = digits 3 q \<longleftrightarrow> p mod 10 ^ 3 = q mod 10 ^ 3" by (metis digits_mod digits_value_digits)
    then show ?thesis by simp
  qed
  moreover have "p = q \<longleftrightarrow> p div 1000 = q div 1000 \<and> p mod 1000 = q mod 1000"
    by (metis div_mult_mod_eq)
  ultimately show ?case using ih by simp
qed simp

lemma range_candidate_node:
  assumes "d < 4" and "p < 1000 ^ d"
  shows "range_candidate (node base d p) name = Ok (Some c) \<longleftrightarrow>
    (\<exists>q. name = digits 3 q \<and> q div 1000 = p \<and> q * 1000 ^ (4 - d) \<le> max_file \<and> c = node base (Suc d) q)"
proof (cases "length name = 3 \<and> list_all is_digit name")
  case False
  then have "name \<noteq> digits 3 q" for q by auto
  with False show ?thesis by (auto simp: range_candidate_def)
next
  case True
  define v where "v = digits_value name"
  have v: "v < 1000" "name = digits 3 v"
    using digits_value_bound [of name] digits_digits_value [of name] True by (simp_all add: v_def)
  let ?q = "p * 1000 + v"
  have name: "name = digits 3 q \<and> q div 1000 = p \<longleftrightarrow> q = ?q" for q
  proof
    assume a: "name = digits 3 q \<and> q div 1000 = p"
    then have "v = q mod 1000" using digits_value_digits [of 3 q] by (simp add: v_def)
    then show "q = ?q" using a div_mult_mod_eq [of q 1000] by simp
  next
    assume q: "q = ?q"
    then have "q mod 1000 = v" "q div 1000 = p" using v(1) by simp_all
    then show "name = digits 3 q \<and> q div 1000 = p" using v(2) digits_mod [of 3 q] by simp
  qed
  have bound: "?q * 1000 ^ (4 - d) < 10 ^ 15"
  proof -
    have "Suc p \<le> 1000 ^ d" using assms(2) by simp
    then have "Suc p * 1000 \<le> 1000 ^ d * 1000" by (rule mult_le_mono1)
    then have "?q < 1000 ^ Suc d" using v(1) by simp
    then have "?q * 1000 ^ (4 - d) < 1000 ^ Suc d * 1000 ^ (4 - d)" by simp
    also have "\<dots> = (1000 :: nat) ^ (Suc d + (4 - d))" by (rule power_add [symmetric])
    also have "Suc d + (4 - d) = 5" using assms(1) by simp
    finally show ?thesis by simp
  qed
  have w: "(of_nat p * 1000 + of_nat v :: u64) * 1000 ^ (4 - d) = of_nat (?q * 1000 ^ (4 - d))" by simp
  have u: "unat (of_nat (?q * 1000 ^ (4 - d)) :: u64) = ?q * 1000 ^ (4 - d)"
    using bound by (simp only: unat_of_nat) simp
  have "parse_u64 name = Some (of_nat v)" using parse_u64_digits [of v 3] v by simp
  then have "range_candidate (node base d p) name =
      (if max_file < ?q * 1000 ^ (4 - d) then Ok None
       else Ok (Some \<lparr>pd_path = dir_path base d p @ [name], pd_depth = d + 1, pd_prefix = of_nat p * 1000 + of_nat v\<rparr>))"
    using True unfolding range_candidate_def
    by (simp add: Let_def w word_less_nat_alt u file_nat_MAX [unfolded file_nat_def] del: of_nat_add of_nat_mult of_nat_power)
  moreover have "\<lparr>pd_path = dir_path base d p @ [name], pd_depth = d + 1, pd_prefix = of_nat p * 1000 + of_nat v\<rparr> =
      node base (Suc d) ?q"
    using name [of ?q] by (simp add: node_def)
  moreover have "(\<exists>q. name = digits 3 q \<and> q div 1000 = p \<and> q * 1000 ^ (4 - d) \<le> max_file \<and> c = node base (Suc d) q) \<longleftrightarrow>
      ?q * 1000 ^ (4 - d) \<le> max_file \<and> c = node base (Suc d) ?q"
    unfolding conj_assoc [symmetric] name by simp
  ultimately show ?thesis by (simp add: not_less eq_commute [of c])
qed

lemma log_candidate_node:
  assumes s: "valid_stream s" and p: "p < 1000 ^ 4"
  shows "log_candidate sp s (dir_path (stream_directory sp s) 4 p) name = Ok (Some f) \<longleftrightarrow>
    (\<exists>n. name = digits 15 n @ ''.log'' \<and> n \<le> max_file \<and> n div 1000 = p \<and> f = file_at s n)"
proof -
  let ?path = "dir_path (stream_directory sp s) 4 p"
  have path: "log_file_path sp (file_at s n) = ?path @ [name] \<longleftrightarrow> n div 1000 = p \<and> name = digits 15 n @ ''.log''"
    if "n \<le> max_file" for n name
  proof -
    have "n div 1000 < 1000 ^ 4" using that by (simp add: max_file_def less_mult_imp_div_less)
    then show ?thesis using dir_path_inject [OF _ p, of "n div 1000" "stream_directory sp s"] that
      by (simp add: log_file_path_def log_or_index_file_path_eq valid_file_at flip: dir_path_4) blast
  qed
  show ?thesis
  proof (cases "\<exists>number. name = number @ ''.log'' \<and> length number = 15 \<and> list_all is_digit number")
    case False
    have "strip_suffix name ''.log'' = Some number \<Longrightarrow> name = number @ ''.log''" for number
      by (auto simp: strip_suffix_def split: if_splits) (metis append_take_drop_id)
    with False show ?thesis by (fastforce simp: log_candidate_def split: option.splits)
  next
    case True
    then obtain number where number: "name = number @ ''.log''" "length number = 15" "list_all is_digit number" by blast
    define n where "n = digits_value number"
    have n: "n < 10 ^ 15" "number = digits 15 n"
      using digits_value_bound [OF number(3)] digits_digits_value [OF number(3)] number(2) by (simp_all add: n_def)
    have u: "unat (of_nat n :: u64) = n" using n(1) by (simp add: unat_of_nat)
    have strip: "strip_suffix name ''.log'' = Some number" by (simp add: strip_suffix_def number(1))
    have parse: "parse_u64 number = Some (of_nat n)" using parse_u64_digits [OF n(1)] n(2) by simp
    have new: "LogFileNumber_new (of_nat n) = (if n \<le> max_file then Ok (LogFileNumber (of_nat n)) else Err (LogFileNumberError (of_nat n)))"
      using file_nat_MAX by (simp add: LogFileNumber_new_def word_less_nat_alt u file_nat_def)
    have pathn: "n \<le> max_file \<Longrightarrow> log_file_path sp (file_at s n) = ?path @ [name] \<longleftrightarrow> n div 1000 = p"
      using path [of n name] number(1) n(2) by simp
    have "log_candidate sp s ?path name =
        (if n \<le> max_file \<and> n div 1000 = p then Ok (Some (file_at s n)) else Ok None)"
      using pathn [unfolded file_at_def]
      by (simp add: log_candidate_def strip parse new Let_def number(2,3) file_at_def)
    then have "log_candidate sp s ?path name = Ok (Some f) \<longleftrightarrow> n \<le> max_file \<and> n div 1000 = p \<and> f = file_at s n"
      by auto
    moreover have "name = digits 15 m @ ''.log'' \<longleftrightarrow> m = n" if "m \<le> max_file" for m
      using digits_inject [of m 15 n] n number(1) that by (auto simp: max_file_def)
    ultimately show ?thesis by auto
  qed
qed

text \<open>
  \<open>below t base k n\<close>: the log numbered \<open>n\<close> and the last \<open>k\<close> of its range directories are in the tree.
\<close>

primrec below :: "tree \<Rightarrow> path \<Rightarrow> nat \<Rightarrow> nat \<Rightarrow> bool" where
  "below t base 0 n \<longleftrightarrow>
     (Some (digits 15 n @ ''.log''), IsFile) \<in> set (listing t (dir_path base 4 (n div 1000)))"
| "below t base (Suc k) n \<longleftrightarrow>
     (Some (digits 3 (n div 1000 ^ Suc k)), IsDir) \<in> set (listing t (dir_path base (3 - k) (n div 1000 ^ (k + 2)))) \<and>
     below t base k n"

text \<open>The file numbers of the logs that the tree has below the directory \<open>p\<close> of depth \<open>d\<close>.\<close>

definition members :: "tree \<Rightarrow> path \<Rightarrow> nat \<Rightarrow> nat \<Rightarrow> nat set" where
  "members t base d p = {n. n \<le> max_file \<and> n div 1000 ^ (5 - d) = p \<and> below t base (4 - d) n}"

definition children :: "tree \<Rightarrow> path \<Rightarrow> nat \<Rightarrow> nat \<Rightarrow> nat set" where
  "children t base d p =
     {q. (Some (digits 3 q), IsDir) \<in> set (listing t (dir_path base d p)) \<and> q div 1000 = p \<and>
         q * 1000 ^ (4 - d) \<le> max_file}"

lemma members_children:
  assumes "d < 4"
  shows "members t base d p = (\<Union>q\<in>children t base d p. members t base (Suc d) q)"
proof -
  define k where "k = 3 - d"
  then have k: "4 - d = Suc k" "5 - d = k + 2" "4 - Suc d = k" "5 - Suc d = Suc k" and d: "3 - k = d"
    using assms by simp_all
  have "n div 1000 ^ Suc k * 1000 ^ Suc k \<le> max_file" if "n \<le> max_file" for n
    using div_times_less_eq_dividend [of n "1000 ^ Suc k"] that by linarith
  moreover have "n div 1000 ^ (k + 2) = n div 1000 ^ Suc k div 1000" for n :: nat
    by (simp add: div_mult2_eq [symmetric] mult.commute)
  ultimately show ?thesis unfolding members_def children_def k below.simps d by auto
qed

lemma children_bound:
  assumes "q \<in> children t base d p" and "d < 4" and "p < 1000 ^ d"
  shows "q < 1000 ^ Suc d"
  using assms by (auto simp: children_def)

lemma sort_children:
  fixes cs :: "PendingDirectory list"
  assumes "distinct cs" and "\<And>c. c \<in> set cs \<Longrightarrow> \<exists>q<1000 ^ 5. c = node base d q"
  shows "\<exists>qs. rev (sort_key (\<lambda>c. - uint (pd_prefix c)) cs) = map (node base d) qs \<and> sorted_wrt (<) qs \<and>
    set qs = {q. q < 1000 ^ 5 \<and> node base d q \<in> set cs}"
proof -
  let ?cs = "rev (sort_key (\<lambda>c. - uint (pd_prefix c)) cs)" and ?num = "\<lambda>c. unat (pd_prefix c)"
  have num: "?num (node base d q) = q" if "q < 1000 ^ 5" for q
    using that by (simp add: unat_of_nat)
  have inv: "node base d (?num c) = c \<and> ?num c < 1000 ^ 5" if "c \<in> set cs" for c
    using assms(2) [OF that] num by fastforce
  have nodes: "?cs = map (node base d) (map ?num ?cs)"
  proof -
    have "map (\<lambda>c. node base d (?num c)) ?cs = ?cs" by (rule map_idI) (use inv in simp)
    then show ?thesis by (simp add: comp_def)
  qed
  have dist: "distinct (map ?num ?cs)"
    unfolding distinct_map by (auto simp: assms(1) inj_on_def) (metis inv)
  have "sorted (rev (map (\<lambda>c. - uint (pd_prefix c)) ?cs))" by (simp add: rev_map)
  then have "sorted_wrt (\<lambda>x y. uint (pd_prefix x) \<le> uint (pd_prefix y)) ?cs"
    by (simp add: sorted_wrt_rev sorted_wrt_map del: sorted_sort_key sorted_map)
  then have "sorted (map ?num ?cs)"
    by (simp add: sorted_wrt_map word_le_nat_alt [symmetric] word_le_def)
  then have "sorted_wrt (<) (map ?num ?cs)" using dist strict_sorted_iff by blast
  moreover have "set (map ?num ?cs) = {q. q < 1000 ^ 5 \<and> node base d q \<in> set cs}"
    using inv num by (force simp: image_iff)
  ultimately show ?thesis using nodes by blast
qed

lemma range_directories_children:
  assumes "range_directories (node base d p) e = (Ok cs, e')" and "tree_ok t" and "d < 4" and "p < 1000 ^ d"
  shows "\<exists>evs. trace e' = trace e @ evs \<and> (\<forall>rest rest'. walk t evs rest = Some rest' \<longrightarrow>
    (\<exists>qs. rev cs = map (node base (Suc d)) qs \<and> sorted_wrt (<) qs \<and> set qs = children t base d p))"
proof -
  let ?sel = "selected (range_candidate (node base d p)) IsDir (listing t (dir_path base d p))"
  have node: "range_candidate (node base d p) name = Ok (Some c) \<longleftrightarrow>
      (\<exists>q. name = digits 3 q \<and> q div 1000 = p \<and> q * 1000 ^ (4 - d) \<le> max_file \<and> c = node base (Suc d) q)" for name c
    by (rule range_candidate_node [OF assms(3,4)])
  have "1000 ^ Suc d \<le> (1000 :: nat) ^ 5" using assms(3) by (intro power_increasing) simp_all
  then have small: "q < 1000 ^ 5" if "q div 1000 = p" for q
    using that assms(4) by (auto intro: less_le_trans)
  have inj: "node base (Suc d) q = node base (Suc d) q' \<longleftrightarrow> q = q'" if "q < 1000 ^ 5" "q' < 1000 ^ 5" for q q'
  proof -
    have "unat (of_nat q :: u64) = q" "unat (of_nat q' :: u64) = q'" using that by (simp_all add: unat_of_nat)
    then show ?thesis by (metis node_sel(3))
  qed
  have "distinct ?sel"
  proof (rule distinct_selected)
    show "distinct (names (listing t (dir_path base d p)))" using assms(2) by (simp add: tree_ok_def)
    show "n = m" if "range_candidate (node base d p) n = Ok (Some c)" "range_candidate (node base d p) m = Ok (Some c)" for n m c
      using that unfolding node using inj small by blast
  qed
  moreover have "\<exists>q<1000 ^ 5. c = node base (Suc d) q" if "c \<in> set ?sel" for c
    using that small unfolding in_selected node by blast
  ultimately obtain qs where qs: "rev (sort_key (\<lambda>c. - uint (pd_prefix c)) ?sel) = map (node base (Suc d)) qs"
      "sorted_wrt (<) qs" "set qs = {q. q < 1000 ^ 5 \<and> node base (Suc d) q \<in> set ?sel}"
    using sort_children by blast
  have "set qs = children t base d p"
    unfolding qs(3) in_selected node children_def using inj small by blast
  then show ?thesis
    using range_directories_tree [OF assms(1,2)] qs(1,2) by fastforce
qed

lemma maximum_log_members:
  assumes "maximum_log_in_directory sp s (dir_path (stream_directory sp s) 4 p) e = (Ok r, e')"
    and "tree_ok t" and "valid_stream s" and "p < 1000 ^ 4"
  shows "\<exists>evs. trace e' = trace e @ evs \<and> (\<forall>rest rest'. walk t evs rest = Some rest' \<longrightarrow>
    (case r of None \<Rightarrow> members t (stream_directory sp s) 4 p = {}
     | Some f \<Rightarrow> \<exists>n\<in>members t (stream_directory sp s) 4 p. f = file_at s n \<and>
         (\<forall>m\<in>members t (stream_directory sp s) 4 p. m \<le> n)))"
proof -
  let ?base = "stream_directory sp s"
  let ?fs = "selected (log_candidate sp s (dir_path ?base 4 p)) IsFile (listing t (dir_path ?base 4 p))"
  have fs: "f \<in> set ?fs \<longleftrightarrow> (\<exists>n\<in>members t ?base 4 p. f = file_at s n)" for f
    unfolding in_selected log_candidate_node [OF assms(3,4)] members_def by auto
  have le: "file_number (file_at s m) \<le> file_number (file_at s n) \<longleftrightarrow> m \<le> n" if "m \<le> max_file" "n \<le> max_file" for m n
    using that by (simp add: file_le_iff)
  obtain evs where evs: "trace e' = trace e @ evs"
      "\<And>rest rest'. walk t evs rest = Some rest' \<Longrightarrow> r = foldl (\<lambda>a c. later c a) None ?fs"
    using maximum_log_tree [OF assms(1,2)] by blast
  have "case r of None \<Rightarrow> members t ?base 4 p = {}
     | Some f \<Rightarrow> \<exists>n\<in>members t ?base 4 p. f = file_at s n \<and> (\<forall>m\<in>members t ?base 4 p. m \<le> n)"
    if r: "r = foldl (\<lambda>a c. later c a) None ?fs"
  proof (cases r)
    case None
    then have "?fs = []" using foldl_later [of None ?fs] r by simp
    then show ?thesis using fs None by fastforce
  next
    case (Some f)
    then have "f \<in> set ?fs" and ge: "\<And>g. g \<in> set ?fs \<Longrightarrow> file_number g \<le> file_number f"
      using foldl_later [of None ?fs] r by simp_all
    then obtain n where n: "n \<in> members t ?base 4 p" "f = file_at s n" using fs by blast
    have "m \<le> n" if "m \<in> members t ?base 4 p" for m
      using ge [of "file_at s m"] fs that n le by (auto simp: members_def)
    then show ?thesis using Some n by auto
  qed
  then show ?thesis using evs by blast
qed

subsection \<open>The search is correct\<close>

text \<open>
  The pending nodes are pairs of a depth and a prefix; the numbers covered by one that was pushed
  earlier are all less than those covered by one pushed later.
\<close>

definition before :: "nat \<times> nat \<Rightarrow> nat \<times> nat \<Rightarrow> bool" where
  "before x y \<longleftrightarrow> Suc (snd x) * 1000 ^ (5 - fst x) \<le> snd y * 1000 ^ (5 - fst y)"

definition pending_ok :: "(nat \<times> nat) list \<Rightarrow> bool" where
  "pending_ok xs \<longleftrightarrow> sorted_wrt before xs \<and> (\<forall>(d, p)\<in>set xs. d \<le> 4 \<and> p < 1000 ^ d)"

lemma before_members:
  assumes "before (d, p) (d', p')" and "n \<in> members t base d p" and "m \<in> members t base d' p'"
  shows "n < m"
proof -
  have "n div 1000 ^ (5 - d) < Suc p" using assms(2) by (simp add: members_def)
  then have "n < Suc p * 1000 ^ (5 - d)" by (simp only: div_less_iff_less_mult zero_less_power zero_less_numeral)
  also have "\<dots> \<le> p' * 1000 ^ (5 - d')" using assms(1) by (simp only: before_def fst_conv snd_conv)
  also have "\<dots> \<le> m" using assms(3) by (auto simp: members_def simp del: mult.commute)
  finally show ?thesis .
qed

lemma pending_push:
  assumes ok: "pending_ok (xs @ [(d, p)])" and d: "d < 4" and qs: "sorted_wrt (<) qs" "set qs = children t base d p"
  shows "pending_ok (xs @ map (Pair (Suc d)) qs)"
proof -
  have p: "p < 1000 ^ d" using ok by (auto simp: pending_ok_def)
  obtain k where k: "5 - d = Suc k" "5 - Suc d = k" using d by (intro that [of "4 - d"]) arith+
  have child: "before x (Suc d, q)" if "before x (d, p)" "q \<in> set qs" for x q
  proof -
    have "p * 1000 \<le> q" using that(2) qs(2) div_times_less_eq_dividend [of q 1000] by (auto simp: children_def)
    then have "p * 1000 ^ (5 - d) \<le> q * 1000 ^ (5 - Suc d)"
      unfolding k power_Suc mult.assoc [symmetric] by (rule mult_le_mono1)
    with that(1) show ?thesis unfolding before_def fst_conv snd_conv by (rule le_trans)
  qed
  have "before (Suc d, q) (Suc d, q')" if "q < q'" for q q'
    unfolding before_def fst_conv snd_conv using that by (intro mult_le_mono1) simp
  then have "sorted_wrt before (map (Pair (Suc d)) qs)"
    unfolding sorted_wrt_map using qs(1) by (auto intro: sorted_wrt_mono_rel)
  then show ?thesis
    using ok child children_bound [OF _ d p, of _ t base] d qs(2) by (auto simp: pending_ok_def sorted_wrt_append)
qed

text \<open>The logs below the pending directories, and what the search must return for them.\<close>

definition pending_members :: "tree \<Rightarrow> path \<Rightarrow> (nat \<times> nat) list \<Rightarrow> nat set" where
  "pending_members t base xs = (\<Union>(d, p)\<in>set xs. members t base d p)"

definition found :: "StreamId \<Rightarrow> nat set \<Rightarrow> LogFileId option \<Rightarrow> bool" where
  "found s ns r = (case r of None \<Rightarrow> ns = {} | Some f \<Rightarrow> \<exists>n\<in>ns. f = file_at s n \<and> (\<forall>m\<in>ns. m \<le> n))"

lemma pending_members_simps:
  "pending_members t base [] = {}"
  "pending_members t base (xs @ [(d, p)]) = pending_members t base xs \<union> members t base d p"
  "d < 4 \<Longrightarrow> set qs = children t base d p \<Longrightarrow>
     pending_members t base (xs @ map (Pair (Suc d)) qs) = pending_members t base xs \<union> members t base d p"
  by (auto simp: pending_members_def members_children)

lemma found_last:
  assumes "pending_ok (xs @ [(d, p)])" and "found s (members t base d p) r" and "r \<noteq> None"
  shows "found s (pending_members t base (xs @ [(d, p)])) r"
proof -
  obtain n where n: "n \<in> members t base d p" "r = Some (file_at s n)" "\<forall>m\<in>members t base d p. m \<le> n"
    using assms(2,3) by (auto simp: found_def)
  have "m \<le> n" if "m \<in> pending_members t base xs" for m
    using that assms(1) before_members [OF _ _ n(1)]
    by (fastforce simp: pending_members_def pending_ok_def sorted_wrt_append)
  then show ?thesis using n by (auto simp: found_def pending_members_simps)
qed

text \<open>The calls from \<open>e\<close> to \<open>e'\<close>, answered from the tree \<open>t\<close>, justify the answer \<open>r\<close> for \<open>xs\<close>.\<close>

definition finds ::
    "tree \<Rightarrow> StorageProvider \<Rightarrow> StreamId \<Rightarrow> (nat \<times> nat) list \<Rightarrow> 'h env \<Rightarrow> LogFileId option \<Rightarrow> 'h env \<Rightarrow> bool" where
  "finds t sp s xs e r e' \<longleftrightarrow>
     (\<exists>evs. trace e' = trace e @ evs \<and> (\<forall>rest rest'. walk t evs rest = Some rest' \<longrightarrow>
        found s (pending_members t (stream_directory sp s) xs) r))"

lemma finds_nothing_here:
  assumes "tree_ok t" "valid_stream s" "p < 10 ^ 12"
    and c: "maximum_log_in_directory sp s (dir_path (stream_directory sp s) 4 p) e = (Ok None, e1)"
    and later: "finds t sp s ys e1 r e'"
  shows "finds t sp s (ys @ [(4, p)]) e r e'"
proof -
  let ?base = "stream_directory sp s"
  have p: "p < 1000 ^ 4" using assms(3) by simp
  obtain evs where evs: "trace e1 = trace e @ evs"
      "\<And>rest rest'. walk t evs rest = Some rest' \<Longrightarrow> found s (members t ?base 4 p) None"
    using maximum_log_members [OF c assms(1,2)] p unfolding found_def by blast
  obtain evs' where evs': "trace e' = trace e1 @ evs'"
      "\<And>rest rest'. walk t evs' rest = Some rest' \<Longrightarrow> found s (pending_members t ?base ys) r"
    using later unfolding finds_def by blast
  have "found s (pending_members t ?base (ys @ [(4, p)])) r" if "walk t (evs @ evs') rest = Some rest'" for rest rest'
    using that evs(2) evs'(2)
    by (auto simp: walk_append pending_members_simps found_def split: option.splits)
  then show ?thesis unfolding finds_def using evs(1) evs'(1) by (intro exI [of _ "evs @ evs'"]) simp
qed

lemma finds_here:
  assumes "tree_ok t" "valid_stream s" and ok: "pending_ok (ys @ [(4, p)])"
    and c: "maximum_log_in_directory sp s (dir_path (stream_directory sp s) 4 p) e = (Ok (Some f), e1)"
  shows "finds t sp s (ys @ [(4, p)]) e (Some f) e1"
proof -
  have p: "p < 1000 ^ 4" using ok by (simp add: pending_ok_def)
  obtain evs where "trace e1 = trace e @ evs"
      "\<And>rest rest'. walk t evs rest = Some rest' \<Longrightarrow> found s (members t (stream_directory sp s) 4 p) (Some f)"
    using maximum_log_members [OF c assms(1,2)] p unfolding found_def by blast
  then show ?thesis unfolding finds_def using found_last [OF ok] by blast
qed

text \<open>The children of a directory take its place; what they are is only known once the calls are.\<close>

lemma finds_below:
  assumes "tree_ok t" and ok: "pending_ok (ys @ [(d, p)])" and d: "d < 4"
    and c: "range_directories (node (stream_directory sp s) d p) e = (Ok cs, e1)"
    and run: "search_loop sp s (map (case_prod (node (stream_directory sp s))) ys @ rev cs) e1 = (Ok r, e')"
    and later: "\<And>qs. rev cs = map (node (stream_directory sp s) (Suc d)) qs \<Longrightarrow>
      pending_ok (ys @ map (Pair (Suc d)) qs) \<Longrightarrow> finds t sp s (ys @ map (Pair (Suc d)) qs) e1 r e'"
  shows "finds t sp s (ys @ [(d, p)]) e r e'"
proof -
  let ?base = "stream_directory sp s"
  have p: "p < 1000 ^ d" using ok by (simp add: pending_ok_def)
  obtain evs where evs: "trace e1 = trace e @ evs" "\<And>rest rest'. walk t evs rest = Some rest' \<Longrightarrow>
      \<exists>qs. rev cs = map (node ?base (Suc d)) qs \<and> sorted_wrt (<) qs \<and> set qs = children t ?base d p"
    using range_directories_children [OF c assms(1) d p] by blast
  obtain evs' where evs': "trace e' = trace e1 @ evs'"
    using search_loop_calls [OF run, of "[]"] unfolding extends_def by auto
  have "found s (pending_members t ?base (ys @ [(d, p)])) r" if w: "walk t (evs @ evs') rest = Some rest'" for rest rest'
  proof -
    obtain rest1 where w1: "walk t evs rest = Some rest1" "walk t evs' rest1 = Some rest'"
      using w by (auto simp: walk_append split: option.splits)
    then obtain qs where qs: "rev cs = map (node ?base (Suc d)) qs" "sorted_wrt (<) qs" "set qs = children t ?base d p"
      using evs(2) by blast
    have "finds t sp s (ys @ map (Pair (Suc d)) qs) e1 r e'"
      using qs(1) pending_push [OF ok d qs(2,3)] by (rule later)
    then show ?thesis using evs' w1(2) pending_members_simps(3) [OF d qs(3)]
      by (auto simp: finds_def pending_members_simps)
  qed
  then show ?thesis unfolding finds_def using evs(1) evs' by (intro exI [of _ "evs @ evs'"]) simp
qed

lemma search_loop_finds:
  assumes "tree_ok t" and "valid_stream s"
  shows "search_loop sp s (map (case_prod (node (stream_directory sp s))) xs) e = (Ok r, e') \<Longrightarrow> pending_ok xs \<Longrightarrow>
    finds t sp s xs e r e'"
proof (induction "length (script e)" arbitrary: e xs rule: less_induct)
  case less
  let ?base = "stream_directory sp s"
  note run = less.prems(1) [unfolded search_loop.simps [of sp s _ e]]
  consider (empty) "xs = []" | (leaf) ys p where "xs = ys @ [(4, p)]" | (inner) ys d p where "xs = ys @ [(d, p)]" "d < 4"
  proof (cases xs rule: rev_cases)
    case (snoc ys y)
    obtain d p where "y = (d, p)" by fastforce
    moreover then have "d \<le> 4" using less.prems(2) snoc by (simp add: pending_ok_def)
    ultimately show ?thesis using snoc that(2) [of ys p] that(3) [of ys d p] by (cases "d = 4") simp_all
  qed (rule that(1))
  then show ?case
  proof cases
    case empty
    then show ?thesis using run by (auto simp: finds_def found_def pending_members_simps)
  next
    case leaf
    obtain u e1 where c: "maximum_log_in_directory sp s (dir_path ?base 4 p) e = (u, e1)" by fastforce
    obtain r1 where u: "u = Ok r1" using run leaf c by (cases u) (auto simp: Let_def)
    show ?thesis
    proof (cases r1)
      case None
      have "search_loop sp s (map (case_prod (node ?base)) ys) e1 = (Ok r, e')"
        using run leaf c u None by (simp add: Let_def)
      moreover have "pending_ok ys" "p < 10 ^ 12" using less.prems(2) leaf by (simp_all add: pending_ok_def sorted_wrt_append)
      ultimately show ?thesis unfolding leaf
        using less.hyps [OF maximum_log_in_directory_shrinks [OF c [unfolded u]]]
        by (intro finds_nothing_here [OF assms _ c [unfolded u None]]) simp_all
    next
      case (Some f)
      then have "r = Some f" "e' = e1" using run leaf c u by (simp_all add: Let_def)
      then show ?thesis using finds_here [OF assms less.prems(2) [unfolded leaf] c [unfolded u Some]] leaf by simp
    qed
  next
    case inner
    obtain u e1 where c: "range_directories (node ?base d p) e = (u, e1)" by fastforce
    obtain cs where u: "u = Ok cs" using run inner c by (cases u) (auto simp: Let_def)
    have next_run: "search_loop sp s (map (case_prod (node ?base)) ys @ rev cs) e1 = (Ok r, e')"
      using run inner c u by (simp add: Let_def)
    show ?thesis unfolding inner(1)
    proof (rule finds_below [OF assms(1) less.prems(2) [unfolded inner(1)] inner(2) c [unfolded u] next_run])
      fix qs assume "rev cs = map (node ?base (Suc d)) qs" and ok: "pending_ok (ys @ map (Pair (Suc d)) qs)"
      then have "search_loop sp s (map (case_prod (node ?base)) (ys @ map (Pair (Suc d)) qs)) e1 = (Ok r, e')"
        using next_run by (simp add: comp_def)
      then show "finds t sp s (ys @ map (Pair (Suc d)) qs) e1 r e'"
        using ok by (rule less.hyps [OF range_directories_shrinks [OF c [unfolded u]]])
    qed
  qed
qed

lemma search_loop_found:
  assumes "tree_ok t" and "valid_stream s"
    and "search_loop sp s (map (case_prod (node (stream_directory sp s))) xs) e = (Ok r, e')" and "pending_ok xs"
  shows "\<exists>evs. trace e' = trace e @ evs \<and> (\<forall>rest rest'. walk t evs rest = Some rest' \<longrightarrow>
      found s (pending_members t (stream_directory sp s) xs) r)"
  using search_loop_finds [OF assms] by (simp add: finds_def)

text \<open>
  A log is present when its file and every directory between the stream's directory and it are in
  the tree.
\<close>

definition has :: "tree \<Rightarrow> path \<Rightarrow> file_kind \<Rightarrow> bool" where
  "has t p k \<longleftrightarrow> (Some (last p), k) \<in> set (listing t (butlast p))"

definition log_present :: "tree \<Rightarrow> StorageProvider \<Rightarrow> LogFileId \<Rightarrow> bool" where
  "log_present t sp f \<longleftrightarrow>
     has t (log_file_path sp f) IsFile \<and>
     (\<forall>q. strict_prefix (stream_directory sp (file_stream f)) q \<and> strict_prefix q (log_file_path sp f) \<longrightarrow> has t q IsDir)"

lemma has_dir_path:
  "(\<forall>q. strict_prefix base q \<and> prefix q (dir_path base (Suc d) p) \<longrightarrow> has t q IsDir) \<longleftrightarrow>
     (Some (digits 3 p), IsDir) \<in> set (listing t (dir_path base d (p div 1000))) \<and>
     (\<forall>q. strict_prefix base q \<and> prefix q (dir_path base d (p div 1000)) \<longrightarrow> has t q IsDir)"
proof -
  have "prefix base (dir_path base d p)" for p by (induction d arbitrary: p) (auto intro: prefix_order.trans)
  moreover have "dir_path base d (p div 1000) @ [digits 3 p] \<noteq> base" by (rule notI, drule arg_cong [of _ _ length]) simp
  ultimately have "strict_prefix base (dir_path base (Suc d) p)" by (auto simp: strict_prefix_def)
  then show ?thesis by (auto simp: has_def)
qed

lemma log_present_below:
  assumes "valid_stream s" and "n \<le> max_file"
  shows "log_present t sp (file_at s n) \<longleftrightarrow> below t (stream_directory sp s) 4 n"
proof -
  let ?base = "stream_directory sp s"
  have path: "log_file_path sp (file_at s n) = dir_path ?base 4 (n div 1000) @ [digits 15 n @ ''.log'']"
    using assms by (simp add: log_file_path_def log_or_index_file_path_eq valid_file_at flip: dir_path_4)
  have four: "4 = Suc (Suc (Suc (Suc 0)))" by simp
  have no: "\<not> (strict_prefix ?base q \<and> prefix q ?base)" for q by (auto simp: strict_prefix_def)
  have strict: "strict_prefix q (p @ [x]) \<longleftrightarrow> prefix q p" for q p and x :: string
    by (auto simp: strict_prefix_def)
  have "log_present t sp (file_at s n) \<longleftrightarrow>
      (Some (digits 15 n @ ''.log''), IsFile) \<in> set (listing t (dir_path ?base 4 (n div 1000))) \<and>
      (\<forall>q. strict_prefix ?base q \<and> prefix q (dir_path ?base (Suc (Suc (Suc (Suc 0)))) (n div 1000)) \<longrightarrow> has t q IsDir)"
    unfolding log_present_def path four [symmetric] by (simp add: strict has_def)
  also have "\<dots> \<longleftrightarrow> below t ?base (Suc (Suc (Suc (Suc 0)))) n"
    unfolding has_dir_path dir_path.simps(1) using no
    by (auto simp: div_mult2_eq [symmetric] numeral_3_eq_3)
  finally show ?thesis by (simp only: four)
qed

text \<open>
  C13. On a directory tree that does not change during the search, a search of the storage for the
  last log of a stream is exact: it reports none only when the tree has no log of the stream, and
  otherwise a log of that stream that is in the tree and whose number is the largest of all. Stray
  entries (names that are not UTF-8, of another shape or type, or beyond the largest file number)
  change nothing.
\<close>

theorem maximum_log_file_is_maximum:
  assumes "maximum_log_file sp s e = (Ok r, e')" and "valid_stream s" and "tree_ok t"
    and "trace e' = trace e @ evs" and "walk t evs (\<lambda>_. []) \<noteq> None"
  shows "case r of
      None \<Rightarrow> \<forall>n\<le>max_file. \<not> log_present t sp (file_at s n)
    | Some f \<Rightarrow> valid_log_file f \<and> file_stream f = s \<and> log_present t sp f \<and>
        (\<forall>n\<le>max_file. log_present t sp (file_at s n) \<longrightarrow> n \<le> file_nat (file_number f))"
proof -
  let ?base = "stream_directory sp s"
  have "search_loop sp s (map (case_prod (node ?base)) [(0, 0)]) e = (Ok r, e')"
    using assms(1) by (simp add: maximum_log_file_def node_def)
  moreover have "pending_ok [(0, 0)]" by (simp add: pending_ok_def)
  ultimately have "found s (pending_members t ?base [(0, 0)]) r"
    using search_loop_found [OF assms(3,2), of sp "[(0, 0)]" e r e'] assms(4,5) by auto
  moreover have "n \<in> pending_members t ?base [(0, 0)] \<longleftrightarrow> n \<le> max_file \<and> log_present t sp (file_at s n)" for n
    using log_present_below [OF assms(2), of n t sp]
    by (auto simp: pending_members_def members_def max_file_def)
  ultimately show ?thesis
    using assms(2) valid_file_at by (auto simp: found_def split: option.splits)
qed

text \<open>A tree with stray entries and two logs, in the second range directory of the deepest level.\<close>

definition example_tree :: tree where
  "example_tree p = (
    if p = [''d'',''streams'',''0005''] then Some [(Some ''checkpoint.json'', IsFile), (None, IsFile), (Some ''000'', IsDir)]
    else if p = [''d'',''streams'',''0005'',''000''] then Some [(Some ''000'', IsDir)]
    else if p = [''d'',''streams'',''0005'',''000'',''000''] then Some [(Some ''000'', IsDir)]
    else if p = [''d'',''streams'',''0005'',''000'',''000'',''000''] then Some [(Some ''000'', IsDir),(Some ''001'', IsDir)]
    else if p = [''d'',''streams'',''0005'',''000'',''000'',''000'',''000''] then Some []
    else if p = [''d'',''streams'',''0005'',''000'',''000'',''000'',''001''] then Some [(Some ''000000000001006.log'', IsFile),(Some ''000000000001007.log'', IsFile)]
    else None)"

definition example_search :: "nat answer list" where
  "example_search = [
    Ready Unit, Ready (Entry (Some (Some ''checkpoint.json''))), Ready (Entry (Some None)), Ready (Entry (Some (Some ''000''))), Ready (Kind IsDir), Ready (Entry None),
    Ready Unit, Ready (Entry (Some (Some ''000''))), Ready (Kind IsDir), Ready (Entry None),
    Ready Unit, Ready (Entry (Some (Some ''000''))), Ready (Kind IsDir), Ready (Entry None),
    Ready Unit, Ready (Entry (Some (Some ''000''))), Ready (Kind IsDir), Ready (Entry (Some (Some ''001''))), Ready (Kind IsDir), Ready (Entry None),
    Ready Unit, Ready (Entry (Some (Some ''000000000001006.log''))), Ready (Kind IsFile), Ready (Entry (Some (Some ''000000000001007.log''))), Ready (Kind IsFile), Ready (Entry None)]"

theorem maximum_log_file_is_maximum_witness:
  "let sp = \<lparr>sp_config = \<lparr>root_directory = [''d'']\<rparr>\<rparr>; s = StreamId 5 in
   fst (maximum_log_file sp s (start_env example_search)) = Ok (Some (file_at s 1007)) \<and>
   log_present example_tree sp (file_at s 1007) \<and>
   (\<forall>n\<le>max_file. log_present example_tree sp (file_at s n) \<longrightarrow> n \<le> 1007)"
proof -
  let ?sp = "\<lparr>sp_config = \<lparr>root_directory = [''d'']\<rparr>\<rparr>" and ?s = "StreamId 5"
  obtain r e where run: "maximum_log_file ?sp ?s (start_env example_search) = (r, e)" by fastforce
  have r: "fst (maximum_log_file ?sp ?s (start_env example_search)) = Ok (Some (file_at ?s 1007))" by code_simp
  have w: "walk example_tree (trace (snd (maximum_log_file ?sp ?s (start_env example_search)))) (\<lambda>_. []) \<noteq> None"
    by code_simp
  have ok: "tree_ok example_tree" by (simp add: tree_ok_def listing_def example_tree_def names_def)
  have s: "valid_stream ?s" by (simp add: valid_stream_iff)
  have "1007 \<le> max_file" by (simp add: max_file_def)
  then show ?thesis
    using maximum_log_file_is_maximum [OF _ s ok, of ?sp "start_env example_search" "Some (file_at ?s 1007)" e "trace e"] run r w
    by (simp add: start_env_def Let_def)
qed

end
