(* ===== verification/IndexWriter.thy ===== *)
theory IndexWriter
  imports Output Location
begin

text \<open>
  \<^verbatim>\<open>index_writer.rs\<close>: the buffered writer of dense index entries, and the index format: entry
  \<open>n\<close> of a file's index is the exclusive end of its record \<open>n\<close>, as eight little-endian bytes.
\<close>

subsection \<open>The index format\<close>

definition INDEX_ENTRY_LEN :: nat where
  "INDEX_ENTRY_LEN = 8"

lemma INDEX_ENTRY_LEN_value [layout]: "INDEX_ENTRY_LEN = 8"
  by (simp add: INDEX_ENTRY_LEN_def)

definition encode_position :: "LogFilePosition \<Rightarrow> bytes" where
  "encode_position p = to_le_bytes64 (LogFilePosition_get p)"

definition decode_position :: "bytes \<Rightarrow> LogFilePosition" where
  "decode_position bs = LogFilePosition_new (from_le_bytes64 bs)"

interpretation position_codec: fixed_codec encode_position decode_position 8
proof unfold_locales
  show "decode_position (encode_position p) = p" for p
    by (cases p) (simp add: decode_position_def encode_position_def LogFilePosition_new_def)
  show "length bs = 8 \<Longrightarrow> encode_position (decode_position bs) = bs" for bs
    by (simp add: decode_position_def encode_position_def LogFilePosition_new_def le64.enc_dec)
qed (simp_all add: encode_position_def)

text \<open>
  The ends of consecutive frames, the first of which starts at \<open>p\<close>, and the index they have.
\<close>

primrec frame_ends :: "nat \<Rightarrow> bytes list \<Rightarrow> nat list" where
  "frame_ends p [] = []"
| "frame_ends p (f # fs) = (p + length f) # frame_ends (p + length f) fs"

definition index_of :: "nat \<Rightarrow> bytes list \<Rightarrow> bytes" where
  "index_of p fs = concat (map (\<lambda>n. encode_position (LogFilePosition (of_nat n))) (frame_ends p fs))"

lemma length_frame_ends [simp]: "length (frame_ends p fs) = length fs"
  by (induction fs arbitrary: p) auto

lemma frame_ends_append:
  "frame_ends p (fs @ gs) = frame_ends p fs @ frame_ends (p + length (concat fs)) gs"
  by (induction fs arbitrary: p) (auto simp: add.assoc)

lemma index_of_Nil [simp]: "index_of p [] = []"
  by (simp add: index_of_def)

lemma index_of_append: "index_of p (fs @ gs) = index_of p fs @ index_of (p + length (concat fs)) gs"
  by (simp add: index_of_def frame_ends_append)

lemma index_of_single: "index_of p [f] = encode_position (LogFilePosition (of_nat (p + length f)))"
  by (simp add: index_of_def)

lemma length_index_of: "length (index_of p fs) = length fs * 8"
  using position_codec.length_table [of "map (\<lambda>n. LogFilePosition (of_nat n)) (frame_ends p fs)"]
  by (simp add: index_of_def comp_def)

lemma frame_ends_nth: "i < length fs \<Longrightarrow> frame_ends p fs ! i = p + length (concat (take (Suc i) fs))"
proof (induction fs arbitrary: p i)
  case (Cons f fs)
  then show ?case by (cases i) auto
qed simp

lemma index_entry:
  assumes "i < length fs"
  shows "decode_position (take 8 (drop (i * 8) (index_of p fs))) =
    LogFilePosition (of_nat (p + length (concat (take (Suc i) fs))))"
  using position_codec.table_entry [of i "map (\<lambda>n. LogFilePosition (of_nat n)) (frame_ends p fs)"] assms
  by (simp add: index_of_def comp_def frame_ends_nth)

subsection \<open>The writer\<close>

datatype IndexWriteError = IndexIo io_error | IndexUnusable

record 'h IndexWriter =
  iw_file :: 'h
  iw_buffer :: bytes
  iw_usable :: bool

definition iw_with_file :: "'h \<Rightarrow> 'h IndexWriter" where
  "iw_with_file file = \<lparr>iw_file = file, iw_buffer = [], iw_usable = True\<rparr>"

definition IndexWriter_new :: "'h \<Rightarrow> 'h IndexWriter" where
  "IndexWriter_new file = iw_with_file file"

definition iw_check_usable :: "'h IndexWriter \<Rightarrow> (unit, IndexWriteError) outcome" where
  "iw_check_usable self = (if iw_usable self then Ok () else Err IndexUnusable)"

definition iw_write ::
    "LogFilePosition \<Rightarrow> 'h IndexWriter \<Rightarrow> (unit, IndexWriteError) outcome \<times> 'h IndexWriter" where
  "iw_write position self =
     (case iw_check_usable self of
        Err x \<Rightarrow> (Err x, self)
      | Stop s \<Rightarrow> (Stop s, self)
      | Ok _ \<Rightarrow> (Ok (), self\<lparr>iw_buffer := iw_buffer self @ encode_position position\<rparr>))"

definition iw_into_inner :: "'h IndexWriter \<Rightarrow> 'h" where
  "iw_into_inner self = iw_file self"

definition iw_flush_buffer ::
    "'h IndexWriter \<Rightarrow> 'h env \<Rightarrow> (unit, IndexWriteError) outcome \<times> 'h IndexWriter \<times> 'h env" where
  "iw_flush_buffer self e =
     (case iw_check_usable self of
        Err x \<Rightarrow> (Err x, self, e)
      | Stop s \<Rightarrow> (Stop s, self, e)
      | Ok _ \<Rightarrow>
          if iw_buffer self = [] then (Ok (), self, e)
          else
            (let armed = self\<lparr>iw_usable := False\<rparr> in
             case send_loop (iw_file self) (iw_buffer self) e of
               (Ok _, e') \<Rightarrow> (Ok (), armed\<lparr>iw_buffer := [], iw_usable := True\<rparr>, e')
             | (Err x, e') \<Rightarrow> (Err (IndexIo x), armed, e')
             | (Stop s, e') \<Rightarrow> (Stop s, armed, e')))"

definition iw_flush ::
    "'h IndexWriter \<Rightarrow> 'h env \<Rightarrow> (unit, IndexWriteError) outcome \<times> 'h IndexWriter \<times> 'h env" where
  "iw_flush self e =
     (case iw_check_usable self of
        Err x \<Rightarrow> (Err x, self, e)
      | Stop s \<Rightarrow> (Stop s, self, e)
      | Ok _ \<Rightarrow>
          (let armed = self\<lparr>iw_usable := False\<rparr> in
           case unit_call (Flush (iw_file self)) e of
             (Ok _, e') \<Rightarrow> (Ok (), armed\<lparr>iw_usable := True\<rparr>, e')
           | (Err x, e') \<Rightarrow> (Err (IndexIo x), armed, e')
           | (Stop s, e') \<Rightarrow> (Stop s, armed, e')))"

definition iw_sync_data ::
    "'h IndexWriter \<Rightarrow> 'h env \<Rightarrow> (unit, IndexWriteError) outcome \<times> 'h IndexWriter \<times> 'h env" where
  "iw_sync_data self e =
     (case iw_check_usable self of
        Err x \<Rightarrow> (Err x, self, e)
      | Stop s \<Rightarrow> (Stop s, self, e)
      | Ok _ \<Rightarrow>
          (let armed = self\<lparr>iw_usable := False\<rparr> in
           case unit_call (SyncData (iw_file self)) e of
             (Ok _, e') \<Rightarrow> (Ok (), armed\<lparr>iw_usable := True\<rparr>, e')
           | (Err x, e') \<Rightarrow> (Err (IndexIo x), armed, e')
           | (Stop s, e') \<Rightarrow> (Stop s, armed, e')))"

lemma iw_flush_eq:
  "iw_usable w \<Longrightarrow> iw_flush w e =
     (case unit_call (Flush (iw_file w)) e of
        (r, e') \<Rightarrow> (map_err IndexIo r, w\<lparr>iw_usable := is_ok r\<rparr>, e'))"
  by (auto simp: iw_flush_def iw_check_usable_def Let_def split: prod.splits outcome.splits)

lemma iw_sync_data_eq:
  "iw_usable w \<Longrightarrow> iw_sync_data w e =
     (case unit_call (SyncData (iw_file w)) e of
        (r, e') \<Rightarrow> (map_err IndexIo r, w\<lparr>iw_usable := is_ok r\<rparr>, e'))"
  by (auto simp: iw_sync_data_def iw_check_usable_def Let_def split: prod.splits outcome.splits)

lemma iw_flush_buffer_eq:
  "iw_usable w \<Longrightarrow> iw_buffer w \<noteq> [] \<Longrightarrow> iw_flush_buffer w e =
     (case send_loop (iw_file w) (iw_buffer w) e of
        (r, e') \<Rightarrow> (map_err IndexIo r,
          w\<lparr>iw_buffer := if is_ok r then [] else iw_buffer w, iw_usable := is_ok r\<rparr>, e'))"
  by (auto simp: iw_flush_buffer_def iw_check_usable_def Let_def split: prod.splits outcome.splits)

lemma iw_flush_buffer_sends:
  assumes u: "iw_usable w" and f: "iw_flush_buffer w e = (r, w', e')"
  shows "\<exists>evs n. trace e' = trace e @ evs \<and> writes_on (iw_file w) evs \<and>
        accepted (iw_file w) evs = take n (iw_buffer w) \<and>
        iw_file w' = iw_file w \<and> iw_usable w' = is_ok r \<and>
        (is_ok r \<longrightarrow> iw_buffer w' = [] \<and> n = length (iw_buffer w)) \<and>
        (\<not> is_ok r \<longrightarrow> iw_buffer w' = iw_buffer w)"
proof (cases "iw_buffer w = []")
  case True
  then show ?thesis using u f
    by (intro exI [of _ "[]"] exI [of _ 0]) (auto simp: iw_flush_buffer_def iw_check_usable_def)
next
  case False
  obtain q e1 where s: "send_loop (iw_file w) (iw_buffer w) e = (q, e1)" by fastforce
  then obtain evs n where evs: "trace e1 = trace e @ evs" "writes_on (iw_file w) evs"
      "accepted (iw_file w) evs = take n (iw_buffer w)" "is_ok q \<longrightarrow> n = length (iw_buffer w)"
    using send_loop_sends [OF s] by auto
  with f show ?thesis unfolding iw_flush_buffer_eq [OF u False] s
    by (intro exI [of _ evs] exI [of _ n]) auto
qed

interpretation index_output: output_writer iw_file iw_buffer iw_usable IndexUnusable
    iw_flush_buffer iw_flush iw_sync_data
proof unfold_locales
  fix w w' :: "'h IndexWriter" and e e' :: "'h env" and r
  assume "iw_usable w" and "iw_flush_buffer w e = (r, w', e')"
  then show "\<exists>evs n. trace e' = trace e @ evs \<and> writes_on (iw_file w) evs \<and>
        accepted (iw_file w) evs = take n (iw_buffer w) \<and>
        iw_file w' = iw_file w \<and> iw_usable w' = is_ok r \<and>
        (is_ok r \<longrightarrow> iw_buffer w' = [] \<and> n = length (iw_buffer w)) \<and>
        (\<not> is_ok r \<longrightarrow> iw_buffer w' = iw_buffer w)"
    by (rule iw_flush_buffer_sends)
next
  fix w w' :: "'h IndexWriter" and e e' :: "'h env" and r
  assume "iw_usable w" and "iw_flush w e = (r, w', e')"
  then show "\<exists>a. trace e' = trace e @ [(Flush (iw_file w), a)] \<and> (is_ok r \<longrightarrow> a = Ready Unit) \<and>
        iw_file w' = iw_file w \<and> iw_buffer w' = iw_buffer w \<and> iw_usable w' = is_ok r"
    using unit_call_trace [of "Flush (iw_file w)" e] by (auto simp: iw_flush_eq split: prod.splits)
next
  fix w w' :: "'h IndexWriter" and e e' :: "'h env" and r
  assume "iw_usable w" and "iw_sync_data w e = (r, w', e')"
  then show "\<exists>a. trace e' = trace e @ [(SyncData (iw_file w), a)] \<and> (is_ok r \<longrightarrow> a = Ready Unit) \<and>
        iw_file w' = iw_file w \<and> iw_buffer w' = iw_buffer w \<and> iw_usable w' = is_ok r"
    using unit_call_trace [of "SyncData (iw_file w)" e]
    by (auto simp: iw_sync_data_eq split: prod.splits)
next
  fix w :: "'h IndexWriter" and e :: "'h env"
  assume "\<not> iw_usable w"
  then show "iw_flush_buffer w e = (Err IndexUnusable, w, e) \<and>
      iw_flush w e = (Err IndexUnusable, w, e) \<and> iw_sync_data w e = (Err IndexUnusable, w, e)"
    by (simp add: iw_flush_buffer_def iw_flush_def iw_sync_data_def iw_check_usable_def)
qed

end
