(* ===== verification/IndexedLog.thy ===== *)
theory IndexedLog
  imports Writer IndexWriter
begin

text \<open>
  \<^verbatim>\<open>indexed_log_writer.rs\<close>: the writer that owns a log and its index as one pair. The two
  writers below it are used through the interface \<open>output_writer\<close>.
\<close>

subsection \<open>The pair, its state and its errors\<close>

datatype IndexedLogWriterState = PairOpen | PairUnusable | PairFinalized

datatype IndexedLogWriteError =
    UnexpectedRecordId RecordId RecordId
  | PairFull
  | NotFull u64
  | NotSynchronized
  | FinalizedError
  | UnusableError
  | LogFailed RecordOutputError
  | IndexFailed IndexWriteError

record AppendOutcome =
  outcome_end :: RecordEndLocation
  outcome_file_full :: bool

record 'h InitializedStream =
  init_file_id :: LogFileId
  init_log :: 'h
  init_index :: 'h
  init_end :: "RecordEndLocation option"

record 'h IndexedLogWriter =
  ilw_file_id :: LogFileId
  ilw_expected :: RecordId
  ilw_record_count :: u64
  ilw_buffered_end :: "RecordEndLocation option"
  ilw_flushed_end :: "RecordEndLocation option"
  ilw_synced_end :: "RecordEndLocation option"
  ilw_log :: "'h RecordWriter"
  ilw_index :: "'h IndexWriter"
  ilw_state :: IndexedLogWriterState

definition IndexedLogWriter_new :: "LogFileId \<Rightarrow> 'h \<Rightarrow> 'h \<Rightarrow> 'h IndexedLogWriter" where
  "IndexedLogWriter_new file_id log index =
     \<lparr>ilw_file_id = file_id, ilw_expected = first_record_id file_id, ilw_record_count = 0,
      ilw_buffered_end = None, ilw_flushed_end = None, ilw_synced_end = None,
      ilw_log = for_records log, ilw_index = IndexWriter_new index, ilw_state = PairOpen\<rparr>"

text \<open>\<open>None\<close> is the panic of \<^verbatim>\<open>RecordId::next\<close> on a recovered end at the last sequence number.\<close>

definition IndexedLogWriter_from :: "'h InitializedStream \<Rightarrow> 'h IndexedLogWriter option" where
  "IndexedLogWriter_from initialized =
     (let file_id = init_file_id initialized; end = init_end initialized in
      case (case end of None \<Rightarrow> Some (first_record_id file_id)
                      | Some end \<Rightarrow> RecordId_next (end_record_id end)) of
        None \<Rightarrow> None
      | Some expected \<Rightarrow>
          Some \<lparr>ilw_file_id = file_id, ilw_expected = expected,
                ilw_record_count = (case end of None \<Rightarrow> 0
                                    | Some end \<Rightarrow> record_count_through (end_record_id end)),
                ilw_buffered_end = end, ilw_flushed_end = end, ilw_synced_end = end,
                ilw_log = for_records (init_log initialized),
                ilw_index = IndexWriter_new (init_index initialized), ilw_state = PairOpen\<rparr>)"

definition is_full :: "'h IndexedLogWriter \<Rightarrow> bool" where
  "is_full self = (ilw_record_count self = RECORDS_PER_FILE)"

definition check_open :: "'h IndexedLogWriter \<Rightarrow> (unit, IndexedLogWriteError) outcome" where
  "check_open self =
     (case ilw_state self of
        PairOpen \<Rightarrow> Ok ()
      | PairUnusable \<Rightarrow> Err UnusableError
      | PairFinalized \<Rightarrow> Err FinalizedError)"

subsection \<open>Appending\<close>

text \<open>
  The panics (the successor of the last sequence number, a byte position beyond \<open>u64\<close>) happen
  before the state is armed, so they leave the writer as it was.
\<close>

definition append_start :: "'h IndexedLogWriter \<Rightarrow> RecordStartLocation option" where
  "append_start self =
     (case ilw_buffered_end self of
        Some end \<Rightarrow> next_record_start end
      | None \<Rightarrow> Some (RecordStartLocation_new (first_record_id (ilw_file_id self))
                       LogFilePosition_START))"

definition pair_write_record ::
    "Record \<Rightarrow> 'h IndexedLogWriter \<Rightarrow>
     (AppendOutcome, IndexedLogWriteError) outcome \<times> 'h IndexedLogWriter" where
  "pair_write_record rec self =
     (case check_open self of
        Err x \<Rightarrow> (Err x, self)
      | Stop s \<Rightarrow> (Stop s, self)
      | Ok _ \<Rightarrow>
          if is_full self then (Err PairFull, self)
          else
            (let expected = ilw_expected self; actual = Record_id rec in
             if actual \<noteq> expected then (Err (UnexpectedRecordId expected actual), self)
             else
               (case append_start self of
                  None \<Rightarrow> (Stop Panic, self)
                | Some start \<Rightarrow>
               (case to_end start (Record_length rec) of
                  None \<Rightarrow> (Stop Panic, self)
                | Some end \<Rightarrow>
               (case RecordId_next expected of
                  None \<Rightarrow> (Stop Panic, self)
                | Some next_expected_record_id \<Rightarrow>
                    (let self = self\<lparr>ilw_state := PairUnusable\<rparr> in
                     case rw_write_record rec (ilw_log self) of
                       (Stop s, log) \<Rightarrow> (Stop s, self\<lparr>ilw_log := log\<rparr>)
                     | (Err x, log) \<Rightarrow> (Err (LogFailed x), self\<lparr>ilw_log := log\<rparr>)
                     | (Ok _, log) \<Rightarrow>
                         (let self = self\<lparr>ilw_log := log\<rparr> in
                          case iw_write (end_position end) (ilw_index self) of
                            (Stop s, index) \<Rightarrow> (Stop s, self\<lparr>ilw_index := index\<rparr>)
                          | (Err x, index) \<Rightarrow> (Err (IndexFailed x), self\<lparr>ilw_index := index\<rparr>)
                          | (Ok _, index) \<Rightarrow>
                              (let self = self\<lparr>ilw_index := index,
                                              ilw_record_count := ilw_record_count self + 1,
                                              ilw_buffered_end := Some end,
                                              ilw_expected := next_expected_record_id,
                                              ilw_state := PairOpen\<rparr> in
                               (Ok \<lparr>outcome_end = end, outcome_file_full = is_full self\<rparr>,
                                self)))))))))"

definition pair_finalize ::
    "'h IndexedLogWriter \<Rightarrow> (RecordEndLocation, IndexedLogWriteError) outcome \<times> 'h IndexedLogWriter" where
  "pair_finalize self =
     (case check_open self of
        Err x \<Rightarrow> (Err x, self)
      | Stop s \<Rightarrow> (Stop s, self)
      | Ok _ \<Rightarrow>
          if \<not> is_full self then (Err (NotFull (ilw_record_count self)), self)
          else if ilw_synced_end self \<noteq> ilw_buffered_end self then (Err NotSynchronized, self)
          else
            (case ilw_buffered_end self of
               None \<Rightarrow> (Stop Panic, self)
             | Some end \<Rightarrow> (Ok end, self\<lparr>ilw_state := PairFinalized\<rparr>)))"

definition pair_into_inner :: "'h IndexedLogWriter \<Rightarrow> 'h \<times> 'h" where
  "pair_into_inner self = (rw_into_inner (ilw_log self), iw_into_inner (ilw_index self))"

subsection \<open>Output\<close>

definition pair_flush ::
    "'h IndexedLogWriter \<Rightarrow> 'h env \<Rightarrow>
     (unit, IndexedLogWriteError) outcome \<times> 'h IndexedLogWriter \<times> 'h env" where
  "pair_flush self e =
     (case check_open self of
        Err x \<Rightarrow> (Err x, self, e)
      | Stop s \<Rightarrow> (Stop s, self, e)
      | Ok _ \<Rightarrow>
          if ilw_buffered_end self = ilw_flushed_end self then (Ok (), self, e)
          else
            (let self = self\<lparr>ilw_state := PairUnusable\<rparr> in
             case rw_flush_buffer (ilw_log self) e of
               (Stop s, log, e) \<Rightarrow> (Stop s, self\<lparr>ilw_log := log\<rparr>, e)
             | (Err x, log, e) \<Rightarrow> (Err (LogFailed x), self\<lparr>ilw_log := log\<rparr>, e)
             | (Ok _, log, e) \<Rightarrow>
             (case rw_flush log e of
               (Stop s, log, e) \<Rightarrow> (Stop s, self\<lparr>ilw_log := log\<rparr>, e)
             | (Err x, log, e) \<Rightarrow> (Err (LogFailed x), self\<lparr>ilw_log := log\<rparr>, e)
             | (Ok _, log, e) \<Rightarrow>
             (let self = self\<lparr>ilw_log := log\<rparr> in
             case iw_flush_buffer (ilw_index self) e of
               (Stop s, index, e) \<Rightarrow> (Stop s, self\<lparr>ilw_index := index\<rparr>, e)
             | (Err x, index, e) \<Rightarrow> (Err (IndexFailed x), self\<lparr>ilw_index := index\<rparr>, e)
             | (Ok _, index, e) \<Rightarrow>
             (case iw_flush index e of
               (Stop s, index, e) \<Rightarrow> (Stop s, self\<lparr>ilw_index := index\<rparr>, e)
             | (Err x, index, e) \<Rightarrow> (Err (IndexFailed x), self\<lparr>ilw_index := index\<rparr>, e)
             | (Ok _, index, e) \<Rightarrow>
                 (Ok (), self\<lparr>ilw_index := index, ilw_flushed_end := ilw_buffered_end self,
                             ilw_state := PairOpen\<rparr>, e))))))"

definition pair_sync_data ::
    "'h IndexedLogWriter \<Rightarrow> 'h env \<Rightarrow>
     (unit, IndexedLogWriteError) outcome \<times> 'h IndexedLogWriter \<times> 'h env" where
  "pair_sync_data self e =
     (case pair_flush self e of
        (Stop s, self, e) \<Rightarrow> (Stop s, self, e)
      | (Err x, self, e) \<Rightarrow> (Err x, self, e)
      | (Ok _, self, e) \<Rightarrow>
          (let self = self\<lparr>ilw_state := PairUnusable\<rparr> in
           case rw_sync_data (ilw_log self) e of
             (Stop s, log, e) \<Rightarrow> (Stop s, self\<lparr>ilw_log := log\<rparr>, e)
           | (Err x, log, e) \<Rightarrow> (Err (LogFailed x), self\<lparr>ilw_log := log\<rparr>, e)
           | (Ok _, log, e) \<Rightarrow>
           (let self = self\<lparr>ilw_log := log\<rparr> in
           case iw_sync_data (ilw_index self) e of
             (Stop s, index, e) \<Rightarrow> (Stop s, self\<lparr>ilw_index := index\<rparr>, e)
           | (Err x, index, e) \<Rightarrow> (Err (IndexFailed x), self\<lparr>ilw_index := index\<rparr>, e)
           | (Ok _, index, e) \<Rightarrow>
               (Ok (), self\<lparr>ilw_index := index, ilw_synced_end := ilw_flushed_end self,
                           ilw_state := PairOpen\<rparr>, e))))"

subsection \<open>The index never runs ahead of the log\<close>

text \<open>
  \<open>covered lh ih p fs tr\<close>: what the index destination \<open>ih\<close> has accepted are (a part of) the
  entries of the first \<open>k\<close> frames, and those frames are part of what a completed flush of the
  log \<open>lh\<close> covers. \<open>always_covered\<close> says so at every moment of a run.
\<close>

definition covered ::
    "'h \<Rightarrow> 'h \<Rightarrow> nat \<Rightarrow> bytes list \<Rightarrow> ('h call \<times> 'h answer) list \<Rightarrow> bool" where
  "covered lh ih p fs tr \<longleftrightarrow>
     (\<exists>k \<le> length fs. prefix (accepted ih tr) (index_of p (take k fs)) \<and>
        prefix (concat (take k fs)) (settled (Flush lh) lh tr))"

definition always_covered ::
    "'h \<Rightarrow> 'h \<Rightarrow> nat \<Rightarrow> bytes list \<Rightarrow> ('h call \<times> 'h answer) list \<Rightarrow> bool" where
  "always_covered lh ih p fs tr \<longleftrightarrow> (\<forall>tr'. prefix tr' tr \<longrightarrow> covered lh ih p fs tr')"

lemma covered_more: "covered lh ih p fs tr \<Longrightarrow> covered lh ih p (fs @ gs) tr"
  unfolding covered_def by (metis append.right_neutral diff_is_0_eq length_append take0 take_append trans_le_add1)

lemma always_covered_more: "always_covered lh ih p fs tr \<Longrightarrow> always_covered lh ih p (fs @ gs) tr"
  by (auto simp: always_covered_def intro: covered_more)

lemma always_covered_start [simp]: "always_covered lh ih p fs []"
  by (auto simp: always_covered_def covered_def intro: exI [of _ 0])

lemma always_covered_append:
  assumes "always_covered lh ih p fs tr" and "\<And>xs. prefix xs evs \<Longrightarrow> covered lh ih p fs (tr @ xs)"
  shows "always_covered lh ih p fs (tr @ evs)"
  using assms by (auto simp: always_covered_def prefix_append)

lemma always_coveredD: "always_covered lh ih p fs tr \<Longrightarrow> covered lh ih p fs tr"
  by (simp add: always_covered_def)

lemma accepted_quiet: "\<forall>ev\<in>set evs. accepted_by h ev = [] \<Longrightarrow> accepted h evs = []"
  by (simp add: accepted_def)

lemma covered_quiet:
  assumes a: "always_covered lh ih p fs tr" and q: "\<forall>ev\<in>set evs. accepted_by ih ev = []"
  shows "always_covered lh ih p fs (tr @ evs)"
proof (rule always_covered_append [OF a])
  fix xs assume "prefix xs evs"
  then have "accepted ih xs = []" using q by (intro accepted_quiet) (auto dest: set_mono_prefix)
  moreover have "prefix (settled (Flush lh) lh tr) (settled (Flush lh) lh (tr @ xs))"
    by (rule settled_mono)
  ultimately show "covered lh ih p fs (tr @ xs)"
    using always_coveredD [OF a] by (auto simp: covered_def intro: prefix_order.trans)
qed

lemma accepted_prefix: "prefix xs ys \<Longrightarrow> prefix (accepted h xs) (accepted h ys)"
  by (auto simp: prefix_def)

lemma covered_index:
  assumes a: "always_covered lh ih p fs tr" and i: "prefix (accepted ih (tr @ evs)) (index_of p fs)"
    and l: "prefix (concat fs) (settled (Flush lh) lh tr)"
  shows "always_covered lh ih p fs (tr @ evs)"
proof (rule always_covered_append [OF a])
  fix xs assume x: "prefix xs evs"
  have "prefix (accepted ih (tr @ xs)) (accepted ih (tr @ evs))"
    using x by (intro accepted_prefix) simp
  then have "prefix (accepted ih (tr @ xs)) (index_of p fs)" using i by (rule prefix_order.trans)
  moreover have "prefix (concat fs) (settled (Flush lh) lh (tr @ xs))"
    using l settled_mono by (rule prefix_order.trans)
  ultimately show "covered lh ih p fs (tr @ xs)"
    by (auto simp: covered_def intro!: exI [of _ "length fs"])
qed

lemma writes_quiet: "writes_on h evs \<Longrightarrow> h \<noteq> h' \<Longrightarrow> \<forall>ev\<in>set evs. accepted_by h' ev = []"
  by (auto simp: writes_on_def intro!: accepted_by_other)

subsection \<open>The invariant of the pair\<close>

text \<open>
  \<open>recs\<close> are the records accepted since the pair was taken over with the end \<open>b\<close>. \<open>end_after\<close> is
  the end they have; \<open>chain\<close> checks that their ids are consecutive and gives the next one.
\<close>

definition frames :: "Record list \<Rightarrow> bytes list" where
  "frames recs = map record_bytes recs"

definition end_after :: "RecordEndLocation option \<Rightarrow> Record list \<Rightarrow> RecordEndLocation option" where
  "end_after b recs =
     (if recs = [] then b
      else Some (RecordEndLocation_new (Record_id (last recs))
             (LogFilePosition (of_nat (base_pos b + length (concat (frames recs)))))))"

primrec chain :: "RecordId \<Rightarrow> Record list \<Rightarrow> RecordId option" where
  "chain rid [] = Some rid"
| "chain rid (r # rs) =
     (if Record_id r = rid
      then (case RecordId_next rid of None \<Rightarrow> None | Some n \<Rightarrow> chain n rs) else None)"

lemma chain_snoc:
  "chain rid (rs @ [r]) =
     (case chain rid rs of
        None \<Rightarrow> None | Some x \<Rightarrow> if Record_id r = x then RecordId_next x else None)"
  by (induction rs arbitrary: rid) (auto split: option.splits)

lemma chain_Some:
  "chain rid rs = Some x \<Longrightarrow>
     stream_id x = stream_id rid \<and> seq_nat (sequence_number x) = seq_nat (sequence_number rid) + length rs"
  by (induction rs arbitrary: rid)
     (auto simp: RecordId_next_eq_Some split: option.splits if_splits)

lemma chain_ids:
  "chain rid rs = Some x \<Longrightarrow> r \<in> set rs \<Longrightarrow>
     seq_nat (sequence_number (Record_id r)) < seq_nat (sequence_number x)"
proof (induction rs arbitrary: rid)
  case (Cons a rs)
  from Cons.prems(1) obtain n where n: "Record_id a = rid" "RecordId_next rid = Some n" "chain n rs = Some x"
    by (auto split: if_splits option.splits)
  then show ?case using Cons.IH [OF n(3)] Cons.prems(2) chain_Some [OF n(3)]
    by (auto simp: RecordId_next_eq_Some)
qed simp

text \<open>The published ends and what backs them; this holds also after a failure.\<close>

definition backed ::
    "'h \<Rightarrow> 'h \<Rightarrow> RecordEndLocation option \<Rightarrow> 'h IndexedLogWriter \<Rightarrow> Record list \<Rightarrow>
     ('h call \<times> 'h answer) list \<Rightarrow> bool" where
  "backed lh ih b w recs tr \<longleftrightarrow>
     (\<exists>i j. i \<le> j \<and> j \<le> length recs \<and>
        ilw_synced_end w = end_after b (take i recs) \<and>
        prefix (concat (take i (frames recs))) (settled (SyncData lh) lh tr) \<and>
        prefix (index_of (base_pos b) (take i (frames recs))) (settled (SyncData ih) ih tr) \<and>
        ilw_flushed_end w = end_after b (take j recs) \<and>
        prefix (concat (take j (frames recs))) (settled (Flush lh) lh tr) \<and>
        prefix (index_of (base_pos b) (take j (frames recs))) (settled (Flush ih) ih tr))"

definition pair_core ::
    "'h \<Rightarrow> 'h \<Rightarrow> RecordEndLocation option \<Rightarrow> 'h IndexedLogWriter \<Rightarrow> Record list \<Rightarrow>
     ('h call \<times> 'h answer) list \<Rightarrow> bool" where
  "pair_core lh ih b w recs tr \<longleftrightarrow>
     lh \<noteq> ih \<and> rw_destination (ilw_log w) = lh \<and> iw_file (ilw_index w) = ih \<and>
     always_covered lh ih (base_pos b) (frames recs) tr \<and> backed lh ih b w recs tr"

definition flush_complete ::
    "RecordEndLocation option \<Rightarrow> 'h IndexedLogWriter \<Rightarrow> Record list \<Rightarrow>
     ('h call \<times> 'h answer) list \<Rightarrow> bool" where
  "flush_complete b w recs tr \<longleftrightarrow>
     (let lh = rw_destination (ilw_log w); ih = iw_file (ilw_index w) in
      settled (Flush lh) lh tr = concat (frames recs) \<and>
      settled (Flush ih) ih tr = index_of (base_pos b) (frames recs))"

definition pair_live ::
    "LogFileId \<Rightarrow> RecordEndLocation option \<Rightarrow> RecordId \<Rightarrow> nat \<Rightarrow>
     'h IndexedLogWriter \<Rightarrow> Record list \<Rightarrow> ('h call \<times> 'h answer) list \<Rightarrow> bool" where
  "pair_live f b first n0 w recs tr \<longleftrightarrow>
     rw_usable (ilw_log w) \<and> iw_usable (ilw_index w) \<and> ilw_file_id w = f \<and>
     accepted (rw_destination (ilw_log w)) tr @ rw_buffer (ilw_log w) = concat (frames recs) \<and>
     accepted (iw_file (ilw_index w)) tr @ iw_buffer (ilw_index w) =
       index_of (base_pos b) (frames recs) \<and>
     ilw_buffered_end w = end_after b recs \<and>
     chain first recs = Some (ilw_expected w) \<and>
     unat (ilw_record_count w) = n0 + length recs \<and> n0 + length recs \<le> 100000 \<and>
     base_pos b + length (concat (frames recs)) < 2 ^ 64 \<and>
     (ilw_buffered_end w = ilw_flushed_end w \<longrightarrow> flush_complete b w recs tr)"

text \<open>The accepted records are consecutive and fit the file.\<close>

definition recs_ok :: "RecordId \<Rightarrow> nat \<Rightarrow> Record list \<Rightarrow> bool" where
  "recs_ok first n0 recs \<longleftrightarrow> chain first recs \<noteq> None \<and> n0 + length recs \<le> 100000"

definition pair_inv ::
    "'h \<Rightarrow> 'h \<Rightarrow> LogFileId \<Rightarrow> RecordEndLocation option \<Rightarrow> RecordId \<Rightarrow> nat \<Rightarrow>
     'h IndexedLogWriter \<times> 'h env \<times> Record list \<Rightarrow> bool" where
  "pair_inv lh ih f b first n0 s \<longleftrightarrow>
     (case s of (w, e, recs) \<Rightarrow>
        recs_ok first n0 recs \<and> pair_core lh ih b w recs (trace e) \<and>
        (ilw_state w \<noteq> PairUnusable \<longrightarrow> pair_live f b first n0 w recs (trace e)))"

lemma settled_all:
  assumes "settled c h tr = xs" and "accepted h tr @ buf = xs"
  shows "buf = [] \<and> accepted h tr = xs"
  using settled_accepted [of c h tr] assms by (auto simp: prefix_def)

lemma settled_stable:
  assumes "settled c h tr = accepted h tr" and "accepted h evs = []"
  shows "settled c h (tr @ evs) = settled c h tr"
proof -
  have "prefix (settled c h (tr @ evs)) (accepted h tr)"
    using settled_accepted [of c h "tr @ evs"] assms(2) by simp
  with settled_mono [of c h tr evs] assms(1) show ?thesis by (metis prefix_order.antisym)
qed

lemma flush_complete_quiet:
  assumes f: "flush_complete b w recs tr"
    and same: "rw_destination (ilw_log w') = rw_destination (ilw_log w)"
      "iw_file (ilw_index w') = iw_file (ilw_index w)"
    and acc: "accepted (rw_destination (ilw_log w)) tr = concat (frames recs)"
      "accepted (iw_file (ilw_index w)) tr = index_of (base_pos b) (frames recs)"
    and q: "accepted (rw_destination (ilw_log w)) evs = []" "accepted (iw_file (ilw_index w)) evs = []"
  shows "flush_complete b w' recs (tr @ evs)"
  using f acc q settled_stable [of _ _ tr evs] unfolding flush_complete_def same Let_def by simp

lemma live_complete:
  assumes "pair_live f b first n0 w recs tr" and "ilw_buffered_end w = ilw_flushed_end w"
  shows "rw_buffer (ilw_log w) = []" "iw_buffer (ilw_index w) = []"
    "accepted (rw_destination (ilw_log w)) tr = concat (frames recs)"
    "accepted (iw_file (ilw_index w)) tr = index_of (base_pos b) (frames recs)"
    "flush_complete b w recs tr"
proof -
  let ?lh = "rw_destination (ilw_log w)" and ?ih = "iw_file (ilw_index w)"
  have a: "accepted ?lh tr @ rw_buffer (ilw_log w) = concat (frames recs)"
      "accepted ?ih tr @ iw_buffer (ilw_index w) = index_of (base_pos b) (frames recs)"
    and fc: "flush_complete b w recs tr"
    using assms by (simp_all add: pair_live_def)
  then have st: "settled (Flush ?lh) ?lh tr = concat (frames recs)"
      "settled (Flush ?ih) ?ih tr = index_of (base_pos b) (frames recs)"
    by (simp_all add: flush_complete_def Let_def)
  show "rw_buffer (ilw_log w) = []" "accepted ?lh tr = concat (frames recs)"
    using settled_all [OF st(1) a(1)] by simp_all
  show "iw_buffer (ilw_index w) = []" "accepted ?ih tr = index_of (base_pos b) (frames recs)"
    using settled_all [OF st(2) a(2)] by simp_all
  show "flush_complete b w recs tr" by (rule fc)
qed

text \<open>More calls keep published ends backed.\<close>

lemma backed_extend:
  assumes b: "backed lh ih b w recs tr"
    and ends: "ilw_synced_end w' = ilw_synced_end w" "ilw_flushed_end w' = ilw_flushed_end w"
  shows "backed lh ih b w' recs (tr @ evs)"
proof -
  have up: "prefix xs (settled c h tr) \<Longrightarrow> prefix xs (settled c h (tr @ evs))"
    for xs c and h :: 'a
    by (rule prefix_order.trans [OF _ settled_mono])
  obtain i j where "i \<le> j" "j \<le> length recs"
        "ilw_synced_end w = end_after b (take i recs)"
        "prefix (concat (take i (frames recs))) (settled (SyncData lh) lh tr)"
        "prefix (index_of (base_pos b) (take i (frames recs))) (settled (SyncData ih) ih tr)"
        "ilw_flushed_end w = end_after b (take j recs)"
        "prefix (concat (take j (frames recs))) (settled (Flush lh) lh tr)"
        "prefix (index_of (base_pos b) (take j (frames recs))) (settled (Flush ih) ih tr)"
    using b unfolding backed_def by blast
  then show ?thesis unfolding backed_def ends
    by (intro exI [of _ i] exI [of _ j]) (simp add: up)
qed

lemma frames_append [simp]: "frames (xs @ ys) = frames xs @ frames ys"
  by (simp add: frames_def)

lemma length_frames [simp]: "length (frames recs) = length recs"
  by (simp add: frames_def)

lemma backed_more:
  assumes "backed lh ih b w recs tr"
    and "ilw_synced_end w' = ilw_synced_end w" "ilw_flushed_end w' = ilw_flushed_end w"
  shows "backed lh ih b w' (recs @ more_recs) tr"
proof -
  obtain i j where "i \<le> j" "j \<le> length recs" and rest:
        "ilw_synced_end w = end_after b (take i recs)"
        "prefix (concat (take i (frames recs))) (settled (SyncData lh) lh tr)"
        "prefix (index_of (base_pos b) (take i (frames recs))) (settled (SyncData ih) ih tr)"
        "ilw_flushed_end w = end_after b (take j recs)"
        "prefix (concat (take j (frames recs))) (settled (Flush lh) lh tr)"
        "prefix (index_of (base_pos b) (take j (frames recs))) (settled (Flush ih) ih tr)"
    using assms(1) unfolding backed_def by blast
  then show ?thesis unfolding backed_def assms(2,3)
    by (intro exI [of _ i] exI [of _ j]) simp
qed

subsection \<open>Output keeps the invariant\<close>

lemma pair_core_extend:
  assumes c: "pair_core lh ih b w recs tr" and a: "always_covered lh ih (base_pos b) (frames recs) (tr @ evs)"
    and ends: "ilw_synced_end w' = ilw_synced_end w" "ilw_flushed_end w' = ilw_flushed_end w"
    and hs: "rw_destination (ilw_log w') = lh" "iw_file (ilw_index w') = ih"
  shows "pair_core lh ih b w' recs (tr @ evs)"
  using c a hs backed_extend [OF _ ends] by (auto simp: pair_core_def)

lemma pair_core_quiet:
  assumes c: "pair_core lh ih b w recs tr" and q: "\<forall>ev\<in>set evs. accepted_by ih ev = []"
    and ends: "ilw_synced_end w' = ilw_synced_end w" "ilw_flushed_end w' = ilw_flushed_end w"
    and hs: "rw_destination (ilw_log w') = lh" "iw_file (ilw_index w') = ih"
  shows "pair_core lh ih b w' recs (tr @ evs)"
  using c covered_quiet [OF _ q] by (intro pair_core_extend [OF c _ ends hs]) (auto simp: pair_core_def)

text \<open>The log's half of a flush: the batch is sent, then the destination's flush completes.\<close>

definition log_half ::
    "'h IndexedLogWriter \<Rightarrow> 'h env \<Rightarrow> (unit, RecordOutputError) outcome \<times> 'h RecordWriter \<times> 'h env" where
  "log_half w e =
     (case rw_flush_buffer (ilw_log w) e of
        (Ok _, log, e) \<Rightarrow> rw_flush log e | (r, log, e) \<Rightarrow> (r, log, e))"

definition index_half ::
    "'h IndexedLogWriter \<Rightarrow> 'h env \<Rightarrow> (unit, IndexWriteError) outcome \<times> 'h IndexWriter \<times> 'h env" where
  "index_half w e =
     (case iw_flush_buffer (ilw_index w) e of
        (Ok _, index, e) \<Rightarrow> iw_flush index e | (r, index, e) \<Rightarrow> (r, index, e))"

lemma pair_flush_halves:
  assumes "ilw_state w = PairOpen" and "ilw_buffered_end w \<noteq> ilw_flushed_end w"
  shows "pair_flush w e =
    (let w0 = w\<lparr>ilw_state := PairUnusable\<rparr> in
     case log_half w e of
       (Stop s, log, e) \<Rightarrow> (Stop s, w0\<lparr>ilw_log := log\<rparr>, e)
     | (Err x, log, e) \<Rightarrow> (Err (LogFailed x), w0\<lparr>ilw_log := log\<rparr>, e)
     | (Ok _, log, e) \<Rightarrow>
         (case index_half w e of
            (Stop s, index, e) \<Rightarrow> (Stop s, w0\<lparr>ilw_log := log, ilw_index := index\<rparr>, e)
          | (Err x, index, e) \<Rightarrow> (Err (IndexFailed x), w0\<lparr>ilw_log := log, ilw_index := index\<rparr>, e)
          | (Ok _, index, e) \<Rightarrow>
              (Ok (), w\<lparr>ilw_log := log, ilw_index := index,
                        ilw_flushed_end := ilw_buffered_end w\<rparr>, e)))"
  using assms
  by (cases "rw_flush_buffer (ilw_log w) e" rule: prod_cases3)
     (auto simp: pair_flush_def check_open_def log_half_def index_half_def Let_def
       split: outcome.splits prod.splits)

lemma log_half_trace:
  assumes u: "rw_usable (ilw_log w)" and h: "log_half w e = (r, log, e')"
  defines "lh \<equiv> rw_destination (ilw_log w)"
  shows "rw_destination log = lh \<and>
    (\<exists>evs. trace e' = trace e @ evs \<and> (\<forall>ev\<in>set evs. on_handle lh (fst ev)) \<and>
       (is_ok r \<longrightarrow> rw_usable log \<and> rw_buffer log = [] \<and> accepted lh evs = rw_buffer (ilw_log w) \<and>
          settled (Flush lh) lh (trace e') = accepted lh (trace e')))"
proof -
  obtain r1 l1 e1 where s: "rw_flush_buffer (ilw_log w) e = (r1, l1, e1)" by (metis surj_pair)
  obtain evs n where 1: "trace e1 = trace e @ evs" "writes_on lh evs" "accepted lh evs = take n (rw_buffer (ilw_log w))"
      "rw_destination l1 = lh" "rw_usable l1 = is_ok r1"
      "is_ok r1 \<longrightarrow> rw_buffer l1 = [] \<and> n = length (rw_buffer (ilw_log w))"
    using record_output.send_sends [OF u s] unfolding lh_def by blast
  have on: "\<forall>ev\<in>set evs. on_handle lh (fst ev)" using writes_on_handle [OF 1(2)] by simp
  show ?thesis
  proof (cases "is_ok r1")
    case False
    then have "r = r1" "log = l1" "e' = e1" using h s by (auto simp: log_half_def split: outcome.splits)
    then show ?thesis using 1 on False by auto
  next
    case True
    then have f: "rw_flush l1 e1 = (r, log, e')" using h s by (auto simp: log_half_def is_ok_iff)
    obtain a where a: "trace e' = trace e1 @ [(Flush lh, a)]" "is_ok r \<longrightarrow> a = Ready Unit"
        "rw_destination log = lh" "rw_buffer log = []" "rw_usable log = is_ok r"
      using record_output.flush_calls [OF _ f] True 1 by auto
    have "is_ok r \<longrightarrow> settled (Flush lh) lh (trace e') = accepted lh (trace e')"
      using a(1,2) by auto
    then show ?thesis using 1 a on True
      by (intro conjI exI [of _ "evs @ [(Flush lh, a)]"]) auto
  qed
qed

lemma index_half_trace:
  assumes u: "iw_usable (ilw_index w)" and h: "index_half w e = (r, index, e')"
  defines "ih \<equiv> iw_file (ilw_index w)"
  shows "iw_file index = ih \<and>
    (\<exists>evs n. trace e' = trace e @ evs \<and> (\<forall>ev\<in>set evs. on_handle ih (fst ev)) \<and>
       accepted ih evs = take n (iw_buffer (ilw_index w)) \<and>
       (is_ok r \<longrightarrow> iw_usable index \<and> iw_buffer index = [] \<and> accepted ih evs = iw_buffer (ilw_index w) \<and>
          settled (Flush ih) ih (trace e') = accepted ih (trace e')))"
proof -
  obtain r1 l1 e1 where s: "iw_flush_buffer (ilw_index w) e = (r1, l1, e1)" by (metis surj_pair)
  obtain evs n where 1: "trace e1 = trace e @ evs" "writes_on ih evs" "accepted ih evs = take n (iw_buffer (ilw_index w))"
      "iw_file l1 = ih" "iw_usable l1 = is_ok r1"
      "is_ok r1 \<longrightarrow> iw_buffer l1 = [] \<and> n = length (iw_buffer (ilw_index w))"
    using index_output.send_sends [OF u s] unfolding ih_def by blast
  have on: "\<forall>ev\<in>set evs. on_handle ih (fst ev)" using writes_on_handle [OF 1(2)] by simp
  show ?thesis
  proof (cases "is_ok r1")
    case False
    then have "r = r1" "index = l1" "e' = e1" using h s by (auto simp: index_half_def split: outcome.splits)
    then show ?thesis using 1 on False by auto
  next
    case True
    then have f: "iw_flush l1 e1 = (r, index, e')" using h s by (auto simp: index_half_def is_ok_iff)
    obtain a where a: "trace e' = trace e1 @ [(Flush ih, a)]" "is_ok r \<longrightarrow> a = Ready Unit"
        "iw_file index = ih" "iw_buffer index = []" "iw_usable index = is_ok r"
      using index_output.flush_calls [OF _ f] True 1 by auto
    have "is_ok r \<longrightarrow> settled (Flush ih) ih (trace e') = accepted ih (trace e')"
      using a(1,2) by auto
    then show ?thesis using 1 a on True
      by (intro conjI exI [of _ "evs @ [(Flush ih, a)]"] exI [of _ n]) auto
  qed
qed

text \<open>What holds after a flush or synchronization has succeeded.\<close>

definition all_flushed ::
    "RecordEndLocation option \<Rightarrow> 'h IndexedLogWriter \<Rightarrow> Record list \<Rightarrow> 'h env \<Rightarrow> bool" where
  "all_flushed b w recs e \<longleftrightarrow>
     ilw_state w = PairOpen \<and> ilw_flushed_end w = ilw_buffered_end w \<and>
     flush_complete b w recs (trace e) \<and>
     accepted (rw_destination (ilw_log w)) (trace e) = concat (frames recs) \<and>
     accepted (iw_file (ilw_index w)) (trace e) = index_of (base_pos b) (frames recs)"

lemma quiet_other: "\<forall>ev\<in>set evs. on_handle h (fst ev) \<Longrightarrow> h \<noteq> h' \<Longrightarrow> \<forall>ev\<in>set evs. accepted_by h' ev = []"
  by (auto intro!: accepted_by_other dest: on_handle_unique)

lemma backed_all:
  assumes core: "backed lh ih b w recs tr"
    and s: "ilw_synced_end w' = ilw_synced_end w" and f: "ilw_flushed_end w' = end_after b recs"
    and l: "settled (Flush lh) lh tr = concat (frames recs)"
    and i: "settled (Flush ih) ih tr = index_of (base_pos b) (frames recs)"
  shows "backed lh ih b w' recs tr"
proof -
  obtain i j where "i \<le> j" "j \<le> length recs" "ilw_synced_end w = end_after b (take i recs)"
        "prefix (concat (take i (frames recs))) (settled (SyncData lh) lh tr)"
        "prefix (index_of (base_pos b) (take i (frames recs))) (settled (SyncData ih) ih tr)"
    using core unfolding backed_def by blast
  then show ?thesis unfolding backed_def s f
    by (intro exI [of _ i] exI [of _ "length recs"]) (simp add: l i)
qed

lemma backed_synced:
  assumes l: "settled (SyncData lh) lh tr = concat (frames recs)"
    and i: "settled (SyncData ih) ih tr = index_of (base_pos b) (frames recs)"
    and w': "ilw_synced_end w' = end_after b recs" "ilw_flushed_end w' = end_after b recs"
    and lf: "settled (Flush lh) lh tr = concat (frames recs)"
    and fi: "settled (Flush ih) ih tr = index_of (base_pos b) (frames recs)"
  shows "backed lh ih b w' recs tr"
  unfolding backed_def w'
  by (intro exI [of _ "length recs"]) (simp add: l i lf fi)

text \<open>The log's half succeeds with the whole log accepted and flushed; a failure leaves the core.\<close>

lemma log_half_core:
  assumes core: "pair_core lh ih b w recs (trace e)" and live: "pair_live f b first n0 w recs (trace e)"
    and h: "log_half w e = (r, log, e')"
  shows "pair_core lh ih b (w\<lparr>ilw_state := PairUnusable, ilw_log := log\<rparr>) recs (trace e')"
    and "\<exists>evs. trace e' = trace e @ evs" and "rw_destination log = lh"
    and "accepted ih (trace e') = accepted ih (trace e)"
    and "is_ok r \<Longrightarrow> rw_usable log \<and> rw_buffer log = [] \<and> accepted lh (trace e') = concat (frames recs) \<and>
      settled (Flush lh) lh (trace e') = concat (frames recs)"
proof -
  have ne: "lh \<noteq> ih" and hl: "rw_destination (ilw_log w) = lh" and hi: "iw_file (ilw_index w) = ih"
    using core by (simp_all add: pair_core_def)
  have u: "rw_usable (ilw_log w)" using live by (simp add: pair_live_def)
  obtain evs where l: "rw_destination log = lh" "trace e' = trace e @ evs"
      "\<forall>ev\<in>set evs. on_handle lh (fst ev)"
      "is_ok r \<longrightarrow> rw_usable log \<and> rw_buffer log = [] \<and> accepted lh evs = rw_buffer (ilw_log w) \<and>
         settled (Flush lh) lh (trace e') = accepted lh (trace e')"
    using log_half_trace [OF u h] hl by blast
  have q: "\<forall>ev\<in>set evs. accepted_by ih ev = []" using quiet_other [OF l(3) ne] .
  show "pair_core lh ih b (w\<lparr>ilw_state := PairUnusable, ilw_log := log\<rparr>) recs (trace e')"
    unfolding l(2) using l(1) hi by (intro pair_core_quiet [OF core q]) simp_all
  show "\<exists>evs. trace e' = trace e @ evs" "rw_destination log = lh" using l by blast+
  show "accepted ih (trace e') = accepted ih (trace e)" by (simp add: l(2) accepted_quiet [OF q])
  show "rw_usable log \<and> rw_buffer log = [] \<and> accepted lh (trace e') = concat (frames recs) \<and>
      settled (Flush lh) lh (trace e') = concat (frames recs)" if "is_ok r"
    using that l(2,4) live hl by (simp add: pair_live_def)
qed

text \<open>The index's half starts behind a flushed log, so no entry gets ahead of it.\<close>

lemma index_half_core:
  assumes core: "pair_core lh ih b w recs (trace e)" and u: "iw_usable (ilw_index w)"
    and acc: "accepted ih (trace e) @ iw_buffer (ilw_index w) = index_of (base_pos b) (frames recs)"
    and log: "accepted lh (trace e) = concat (frames recs)"
      "settled (Flush lh) lh (trace e) = concat (frames recs)"
    and h: "index_half w e = (r, index, e')"
  shows "pair_core lh ih b (w\<lparr>ilw_index := index\<rparr>) recs (trace e')"
    and "\<exists>evs. trace e' = trace e @ evs" and "iw_file index = ih"
    and "accepted lh (trace e') = concat (frames recs)"
    and "settled (Flush lh) lh (trace e') = concat (frames recs)"
    and "is_ok r \<Longrightarrow> iw_usable index \<and> iw_buffer index = [] \<and>
      accepted ih (trace e') = index_of (base_pos b) (frames recs) \<and>
      settled (Flush ih) ih (trace e') = index_of (base_pos b) (frames recs)"
proof -
  have ne: "lh \<noteq> ih" and hl: "rw_destination (ilw_log w) = lh" and hi: "iw_file (ilw_index w) = ih"
    using core by (simp_all add: pair_core_def)
  obtain evs n where i: "iw_file index = ih" "trace e' = trace e @ evs"
      "\<forall>ev\<in>set evs. on_handle ih (fst ev)" "accepted ih evs = take n (iw_buffer (ilw_index w))"
      "is_ok r \<longrightarrow> iw_usable index \<and> iw_buffer index = [] \<and> accepted ih evs = iw_buffer (ilw_index w) \<and>
         settled (Flush ih) ih (trace e') = accepted ih (trace e')"
    using index_half_trace [OF u h] hi by blast
  have "accepted ih (trace e @ evs) = accepted ih (trace e) @ take n (iw_buffer (ilw_index w))" by (simp add: i(4))
  then have pre: "prefix (accepted ih (trace e @ evs)) (index_of (base_pos b) (frames recs))"
    using acc by (metis take_is_prefix same_prefix_prefix)
  have cov: "always_covered lh ih (base_pos b) (frames recs) (trace e @ evs)"
    using core log(2) by (intro covered_index [OF _ pre]) (simp_all add: pair_core_def)
  show "pair_core lh ih b (w\<lparr>ilw_index := index\<rparr>) recs (trace e')"
    unfolding i(2) using i(1) hl by (intro pair_core_extend [OF core cov]) simp_all
  have "\<forall>ev\<in>set evs. accepted_by lh ev = []" using quiet_other [OF i(3)] ne by auto
  from accepted_quiet [OF this] have q: "accepted lh evs = []" .
  then show "accepted lh (trace e') = concat (frames recs)" by (simp add: i(2) log(1))
  show "settled (Flush lh) lh (trace e') = concat (frames recs)"
    unfolding i(2) using settled_stable [OF _ q, of "Flush lh" "trace e"] log by simp
  show "\<exists>evs. trace e' = trace e @ evs" "iw_file index = ih" using i by blast+
  show "iw_usable index \<and> iw_buffer index = [] \<and>
      accepted ih (trace e') = index_of (base_pos b) (frames recs) \<and>
      settled (Flush ih) ih (trace e') = index_of (base_pos b) (frames recs)" if "is_ok r"
    using that i(2,5) acc by simp
qed

lemma pair_flush_complete:
  assumes core: "pair_core lh ih b w2 recs tr" and live: "pair_live f b first n0 w recs tr0"
    and w2: "ilw_synced_end w2 = ilw_synced_end w" "ilw_log w2 = log" "ilw_index w2 = index"
    and log: "rw_usable log" "rw_buffer log = []" "accepted lh tr = concat (frames recs)"
      "settled (Flush lh) lh tr = concat (frames recs)"
    and index: "iw_usable index" "iw_buffer index = []" "accepted ih tr = index_of (base_pos b) (frames recs)"
      "settled (Flush ih) ih tr = index_of (base_pos b) (frames recs)"
  defines "w' \<equiv> w\<lparr>ilw_log := log, ilw_index := index, ilw_flushed_end := ilw_buffered_end w\<rparr>"
  shows "pair_core lh ih b w' recs tr" "pair_live f b first n0 w' recs tr" "flush_complete b w' recs tr"
proof -
  have h: "rw_destination log = lh" "iw_file index = ih" using core w2 by (simp_all add: pair_core_def)
  have bk: "backed lh ih b w2 recs tr" using core by (simp add: pair_core_def)
  have fe: "ilw_flushed_end w' = end_after b recs" using live by (simp add: w'_def pair_live_def)
  have "backed lh ih b w' recs tr"
    by (rule backed_all [OF bk _ fe log(4) index(4)]) (simp add: w'_def w2)
  then show "pair_core lh ih b w' recs tr" using core h by (simp add: pair_core_def w'_def)
  show fc: "flush_complete b w' recs tr" using log(4) index(4) h by (simp add: flush_complete_def w'_def)
  show "pair_live f b first n0 w' recs tr"
    using live h log index fc by (simp add: pair_live_def w'_def)
qed

lemma pair_flush_sends:
  assumes core: "pair_core lh ih b w recs (trace e)" and live: "pair_live f b first n0 w recs (trace e)"
    and open_w: "ilw_state w = PairOpen" "ilw_buffered_end w \<noteq> ilw_flushed_end w"
    and fl: "pair_flush w e = (r, w', e')"
  shows "pair_core lh ih b w' recs (trace e')" and "\<exists>evs. trace e' = trace e @ evs"
    and "is_ok r \<Longrightarrow> pair_live f b first n0 w' recs (trace e') \<and> all_flushed b w' recs e'"
    and "\<not> is_ok r \<Longrightarrow> ilw_state w' = PairUnusable"
proof -
  obtain r1 log e1 where h1: "log_half w e = (r1, log, e1)" by (metis surj_pair)
  obtain r2 index e2 where h2: "index_half w e1 = (r2, index, e2)" by (metis surj_pair)
  note flush = fl [unfolded pair_flush_halves [OF open_w] h1 Let_def] and l = log_half_core [OF core live h1]
  let ?w1 = "w\<lparr>ilw_state := PairUnusable, ilw_log := log\<rparr>"
  have "iw_usable (ilw_index ?w1)"
      "accepted ih (trace e1) @ iw_buffer (ilw_index ?w1) = index_of (base_pos b) (frames recs)"
      "index_half ?w1 e1 = (r2, index, e2)"
    using live core l(4) h2 by (simp_all add: pair_live_def pair_core_def index_half_def)
  note i = index_half_core [OF l(1) this(1,2) _ _ this(3)]
  have failed1: "w' = ?w1" "e' = e1" "\<not> is_ok r" if "\<not> is_ok r1"
    using flush that by (auto split: outcome.splits)
  have failed2: "w' = ?w1\<lparr>ilw_index := index\<rparr>" "e' = e2" "\<not> is_ok r" if "is_ok r1" "\<not> is_ok r2"
    using flush h2 that by (auto split: outcome.splits)
  have sent: "w' = w\<lparr>ilw_log := log, ilw_index := index, ilw_flushed_end := ilw_buffered_end w\<rparr>" "e' = e2" "is_ok r"
    if "is_ok r1" "is_ok r2"
    using flush h2 that by (auto simp: is_ok_iff)
  have complete: "pair_core lh ih b w' recs (trace e2)" "pair_live f b first n0 w' recs (trace e2)"
      "flush_complete b w' recs (trace e2)" if ok: "is_ok r1" "is_ok r2"
    unfolding sent(1) [OF ok] using l(5) [OF ok(1)] i(4,5) i(6) [OF _ _ ok(2)]
    by (auto intro!: pair_flush_complete [OF i(1) live])
  show "pair_core lh ih b w' recs (trace e')"
    using failed1 failed2 sent(2) complete(1) l(1,5) i(1) by metis
  show "\<exists>evs. trace e' = trace e @ evs"
    using failed1 failed2 sent(2) l(2,5) i(2) by (metis append_assoc)
  show "pair_live f b first n0 w' recs (trace e') \<and> all_flushed b w' recs e'" if "is_ok r"
  proof -
    have ok: "is_ok r1" "is_ok r2" using that failed1(3) failed2(3) by blast+
    show ?thesis using complete [OF ok] sent(1,2) [OF ok] l(3) l(5) [OF ok(1)] i(3,4) i(6) [OF _ _ ok(2)] open_w(1)
      by (simp add: all_flushed_def)
  qed
  show "ilw_state w' = PairUnusable" if "\<not> is_ok r" using that failed1(1) failed2(1) sent(3) by fastforce
qed

lemma pair_flush_inv:
  assumes inv: "pair_inv lh ih f b first n0 (w, e, recs)" and fl: "pair_flush w e = (r, w', e')"
  shows "pair_inv lh ih f b first n0 (w', e', recs) \<and> (is_ok r \<longrightarrow> all_flushed b w' recs e') \<and>
    (\<exists>evs. trace e' = trace e @ evs)"
proof -
  have core: "pair_core lh ih b w recs (trace e)" and rk: "recs_ok first n0 recs"
    using inv by (simp_all add: pair_inv_def)
  consider (closed) "ilw_state w \<noteq> PairOpen" | (idle) "ilw_state w = PairOpen" "ilw_buffered_end w = ilw_flushed_end w"
    | (sending) "ilw_state w = PairOpen" "ilw_buffered_end w \<noteq> ilw_flushed_end w" by blast
  then show ?thesis
  proof cases
    case closed
    then have "w' = w" "e' = e" "\<not> is_ok r"
      using fl by (auto simp: pair_flush_def check_open_def split: IndexedLogWriterState.splits)
    then show ?thesis using inv by auto
  next
    case idle
    then have "w' = w" "e' = e" using fl by (auto simp: pair_flush_def check_open_def)
    moreover have "pair_live f b first n0 w recs (trace e)" using inv idle(1) by (simp add: pair_inv_def)
    note live_complete [OF this idle(2)]
    ultimately show ?thesis using inv idle by (simp add: all_flushed_def)
  next
    case sending
    then have live: "pair_live f b first n0 w recs (trace e)" using inv by (simp add: pair_inv_def)
    note s = pair_flush_sends [OF core live sending fl]
    show ?thesis using s rk by (cases "is_ok r") (simp_all add: pair_inv_def)
  qed
qed

lemma settled_two:
  "settled c h (tr @ [x, y]) =
     (if y = (c, Ready Unit) then accepted h (tr @ [x])
      else if x = (c, Ready Unit) then accepted h tr else settled c h tr)"
  using settled_snoc [of c h "tr @ [x]" y] by (simp add: settled_snoc)

lemma pair_live_quiet:
  assumes live: "pair_live f b first n0 w recs tr"
    and same: "ilw_file_id w' = ilw_file_id w" "ilw_expected w' = ilw_expected w"
      "ilw_record_count w' = ilw_record_count w" "ilw_buffered_end w' = ilw_buffered_end w"
      "ilw_flushed_end w' = ilw_flushed_end w"
      "rw_destination (ilw_log w') = rw_destination (ilw_log w)"
      "rw_buffer (ilw_log w') = rw_buffer (ilw_log w)" "rw_usable (ilw_log w')"
      "iw_file (ilw_index w') = iw_file (ilw_index w)"
      "iw_buffer (ilw_index w') = iw_buffer (ilw_index w)" "iw_usable (ilw_index w')"
    and q: "accepted (rw_destination (ilw_log w)) evs = []" "accepted (iw_file (ilw_index w)) evs = []"
  shows "pair_live f b first n0 w' recs (tr @ evs)"
  using live q flush_complete_quiet [OF _ same(6,9), of b recs tr evs] live_complete [OF live]
  by (simp add: pair_live_def same)

text \<open>What a flushed pair holds once both files have been synchronized, the log first.\<close>

definition all_synced ::
    "RecordEndLocation option \<Rightarrow> 'h IndexedLogWriter \<Rightarrow> Record list \<Rightarrow> 'h env \<Rightarrow> bool" where
  "all_synced b w recs e \<longleftrightarrow>
     all_flushed b w recs e \<and> ilw_synced_end w = ilw_buffered_end w \<and>
     settled (SyncData (rw_destination (ilw_log w))) (rw_destination (ilw_log w)) (trace e) = concat (frames recs) \<and>
     settled (SyncData (iw_file (ilw_index w))) (iw_file (ilw_index w)) (trace e) = index_of (base_pos b) (frames recs)"

lemma pair_sync_complete:
  assumes core: "pair_core lh ih b w recs (trace e)" and live: "pair_live f b first n0 w recs (trace e)"
    and af: "all_flushed b w recs e"
    and tr: "trace e' = trace e @ [(SyncData lh, Ready Unit), (SyncData ih, Ready Unit)]"
    and log: "rw_destination log = lh" "rw_buffer log = rw_buffer (ilw_log w)" "rw_usable log"
    and index: "iw_file index = ih" "iw_buffer index = iw_buffer (ilw_index w)" "iw_usable index"
  defines "w' \<equiv> w\<lparr>ilw_log := log, ilw_index := index, ilw_synced_end := ilw_flushed_end w\<rparr>"
  shows "pair_core lh ih b w' recs (trace e')" "pair_live f b first n0 w' recs (trace e')" "all_synced b w' recs e'"
proof -
  have ne: "lh \<noteq> ih" and hl: "rw_destination (ilw_log w) = lh" and hi: "iw_file (ilw_index w) = ih"
    using core by (simp_all add: pair_core_def)
  have acc: "accepted lh (trace e) = concat (frames recs)" "accepted ih (trace e) = index_of (base_pos b) (frames recs)"
    using af hl hi by (simp_all add: all_flushed_def)
  have ends: "ilw_flushed_end w = end_after b recs" "ilw_buffered_end w = end_after b recs"
    using af live by (simp_all add: all_flushed_def pair_live_def)
  have sl: "settled (SyncData lh) lh (trace e') = concat (frames recs)"
    and si: "settled (SyncData ih) ih (trace e') = index_of (base_pos b) (frames recs)"
    using ne acc by (simp_all add: tr settled_two)
  have fc: "flush_complete b w recs (trace e')" unfolding tr using af hl hi acc
    by (intro flush_complete_quiet [of b w]) (simp_all add: all_flushed_def accepted_def)
  show "pair_live f b first n0 w' recs (trace e')"
    unfolding tr using hl hi log index by (intro pair_live_quiet [OF live]) (simp_all add: w'_def accepted_def)
  have "backed lh ih b w' recs (trace e')"
    using sl si ends hl hi fc by (intro backed_synced) (simp_all add: flush_complete_def w'_def)
  moreover have "pair_core lh ih b (w\<lparr>ilw_log := log, ilw_index := index\<rparr>) recs (trace e')"
    unfolding tr using log index by (intro pair_core_quiet [OF core]) simp_all
  ultimately show "pair_core lh ih b w' recs (trace e')" using log index by (simp add: pair_core_def w'_def)
  show "all_synced b w' recs e'"
    using sl si acc ends fc af hl hi log index
    by (simp add: all_synced_def all_flushed_def flush_complete_def w'_def tr accepted_def)
qed

lemma pair_sync_sends:
  assumes core: "pair_core lh ih b w0 recs (trace e0)" and live: "pair_live f b first n0 w0 recs (trace e0)"
    and af: "all_flushed b w0 recs e0"
    and fl: "pair_flush w e = (Ok (), w0, e0)" and sy: "pair_sync_data w e = (r, w', e')"
  shows "pair_core lh ih b w' recs (trace e')" and "\<exists>evs. trace e' = trace e0 @ evs"
    and "is_ok r \<Longrightarrow> pair_live f b first n0 w' recs (trace e') \<and> all_synced b w' recs e'"
    and "\<not> is_ok r \<Longrightarrow> ilw_state w' = PairUnusable"
proof -
  have hl: "rw_destination (ilw_log w0) = lh" and hi: "iw_file (ilw_index w0) = ih"
    using core by (simp_all add: pair_core_def)
  have u: "rw_usable (ilw_log w0)" "iw_usable (ilw_index w0)" and opened: "ilw_state w0 = PairOpen"
    using live af by (simp_all add: pair_live_def all_flushed_def)
  obtain r1 log e1 where s1: "rw_sync_data (ilw_log w0) e0 = (r1, log, e1)" by (metis surj_pair)
  obtain r2 index e2 where s2: "iw_sync_data (ilw_index w0) e1 = (r2, index, e2)" by (metis surj_pair)
  obtain a1 where a1: "trace e1 = trace e0 @ [(SyncData lh, a1)]" "is_ok r1 \<longrightarrow> a1 = Ready Unit"
      "rw_destination log = lh" "rw_buffer log = rw_buffer (ilw_log w0)" "rw_usable log = is_ok r1"
    using record_output.sync_calls [OF u(1) s1] hl by blast
  obtain a2 where a2: "trace e2 = trace e1 @ [(SyncData ih, a2)]" "is_ok r2 \<longrightarrow> a2 = Ready Unit"
      "iw_file index = ih" "iw_buffer index = iw_buffer (ilw_index w0)" "iw_usable index = is_ok r2"
    using index_output.sync_calls [OF u(2) s2] hi by blast
  let ?w1 = "w0\<lparr>ilw_state := PairUnusable, ilw_log := log\<rparr>"
  have failed1: "w' = ?w1" "e' = e1" "\<not> is_ok r" if "\<not> is_ok r1"
    using sy fl s1 that by (auto simp: pair_sync_data_def Let_def split: outcome.splits)
  have failed2: "w' = ?w1\<lparr>ilw_index := index\<rparr>" "e' = e2" "\<not> is_ok r" if "is_ok r1" "\<not> is_ok r2"
    using sy fl s1 s2 that by (auto simp: pair_sync_data_def Let_def is_ok_iff split: outcome.splits)
  have synced: "w' = w0\<lparr>ilw_log := log, ilw_index := index, ilw_synced_end := ilw_flushed_end w0\<rparr>" "e' = e2"
    if "is_ok r1" "is_ok r2"
    using sy fl s1 s2 that opened by (auto simp: pair_sync_data_def Let_def is_ok_iff)
  have tr2: "trace e2 = trace e0 @ [(SyncData lh, Ready Unit), (SyncData ih, Ready Unit)]" if "is_ok r1" "is_ok r2"
    using a1(1,2) a2(1,2) that by simp
  have core1: "pair_core lh ih b ?w1 recs (trace e1)"
    unfolding a1(1) using a1(3) hi by (intro pair_core_quiet [OF core]) simp_all
  have core2: "pair_core lh ih b (?w1\<lparr>ilw_index := index\<rparr>) recs (trace e2)"
    unfolding a2(1) using a1(3) a2(3) by (intro pair_core_quiet [OF core1]) simp_all
  have complete: "pair_core lh ih b w' recs (trace e2)" "pair_live f b first n0 w' recs (trace e2)"
      "all_synced b w' recs e2" if ok: "is_ok r1" "is_ok r2"
    using pair_sync_complete [OF core live af tr2 [OF ok] a1(3,4) _ a2(3,4)] ok a1(5) a2(5)
    unfolding synced(1) [OF ok] by simp_all
  show "pair_core lh ih b w' recs (trace e')"
    using failed1 failed2 synced(2) complete(1) core1 core2 by metis
  show "\<exists>evs. trace e' = trace e0 @ evs"
    using failed1(2) failed2(2) synced(2) a1(1) a2(1) by (metis append_assoc)
  show "pair_live f b first n0 w' recs (trace e') \<and> all_synced b w' recs e'" if "is_ok r"
    using that failed1(3) failed2(3) complete(2,3) synced(2) by metis
  show "ilw_state w' = PairUnusable" if "\<not> is_ok r"
  proof -
    have "\<not> (is_ok r1 \<and> is_ok r2)" using that sy fl s1 s2 by (auto simp: pair_sync_data_def Let_def is_ok_iff)
    then show ?thesis using failed1(1) failed2(1) by (cases "is_ok r1") simp_all
  qed
qed

lemma pair_sync_inv:
  assumes inv: "pair_inv lh ih f b first n0 (w, e, recs)" and sy: "pair_sync_data w e = (r, w', e')"
  shows "pair_inv lh ih f b first n0 (w', e', recs) \<and>
    (is_ok r \<longrightarrow> all_flushed b w' recs e' \<and> ilw_synced_end w' = ilw_buffered_end w' \<and>
       settled (SyncData lh) lh (trace e') = concat (frames recs) \<and>
       settled (SyncData ih) ih (trace e') = index_of (base_pos b) (frames recs)) \<and>
    (\<exists>evs. trace e' = trace e @ evs)"
proof -
  obtain r0 w0 e0 where fl: "pair_flush w e = (r0, w0, e0)" by (metis surj_pair)
  have inv0: "pair_inv lh ih f b first n0 (w0, e0, recs)" and all0: "is_ok r0 \<longrightarrow> all_flushed b w0 recs e0"
    and tr0: "\<exists>evs. trace e0 = trace e @ evs"
    using pair_flush_inv [OF inv fl] by blast+
  then have core: "pair_core lh ih b w0 recs (trace e0)" and rk: "recs_ok first n0 recs"
    by (simp_all add: pair_inv_def)
  show ?thesis
  proof (cases "is_ok r0")
    case False
    then have "w' = w0" "e' = e0" "\<not> is_ok r" using sy fl by (auto simp: pair_sync_data_def split: outcome.splits)
    then show ?thesis using inv0 tr0 by simp
  next
    case True
    then have af: "all_flushed b w0 recs e0" and flok: "pair_flush w e = (Ok (), w0, e0)"
      using all0 fl by (auto simp: is_ok_iff)
    then have "pair_live f b first n0 w0 recs (trace e0)" using inv0 by (simp add: pair_inv_def all_flushed_def)
    note s = pair_sync_sends [OF core this af flok sy]
    have "\<exists>evs. trace e' = trace e @ evs" using s(2) tr0 by auto
    moreover have "rw_destination (ilw_log w') = lh" "iw_file (ilw_index w') = ih" using s(1) by (simp_all add: pair_core_def)
    ultimately show ?thesis using s rk by (cases "is_ok r") (simp_all add: pair_inv_def all_synced_def)
  qed
qed

subsection \<open>Appending keeps the invariant\<close>

text \<open>\<open>base_ok\<close>: what the first expected id and the initial count are, for a pair taken over at \<open>b\<close>.\<close>

definition base_ok :: "LogFileId \<Rightarrow> RecordEndLocation option \<Rightarrow> RecordId \<Rightarrow> nat \<Rightarrow> bool" where
  "base_ok f b first n0 \<longleftrightarrow>
     valid_log_file f \<and>
     (case b of
        None \<Rightarrow> first = first_record_id f \<and> n0 = 0
      | Some end \<Rightarrow> from_record_id (end_record_id end) = f \<and>
          RecordId_next (end_record_id end) = Some first \<and>
          n0 = unat (record_count_through (end_record_id end)))"

lemma base_first:
  assumes "base_ok f b first n0"
  shows "stream_id first = file_stream f \<and>
    seq_nat (sequence_number first) = file_nat (file_number f) * 100000 + n0"
proof (cases b)
  case None
  then show ?thesis using assms by (simp add: base_ok_def first_record_id_seq)
next
  case (Some e)
  let ?n = "seq_nat (sequence_number (end_record_id e))"
  have a: "from_record_id (end_record_id e) = f" "RecordId_next (end_record_id e) = Some first"
      "n0 = Suc (?n mod 100000)"
    using assms Some by (simp_all add: base_ok_def record_count_nat)
  then have "file_nat (file_number f) = ?n div 100000" by (auto simp: from_record_id_eq_iff)
  then show ?thesis using a div_mult_mod_eq [of ?n 100000]
    by (auto simp: RecordId_next_eq_Some from_record_id_eq_iff)
qed

lemma live_expected:
  assumes "base_ok f b first n0" and "pair_live f b first n0 w recs tr"
  shows "stream_id (ilw_expected w) = file_stream f"
    "seq_nat (sequence_number (ilw_expected w)) = file_nat (file_number f) * 100000 + (n0 + length recs)"
proof -
  have "chain first recs = Some (ilw_expected w)" using assms(2) by (simp add: pair_live_def)
  from chain_Some [OF this] base_first [OF assms(1)]
  show "stream_id (ilw_expected w) = file_stream f"
    "seq_nat (sequence_number (ilw_expected w)) = file_nat (file_number f) * 100000 + (n0 + length recs)"
    by simp_all
qed

lemma live_previous:
  assumes ok: "base_ok f b first n0" and live: "pair_live f b first n0 w recs tr"
    and some: "ilw_buffered_end w = Some e"
  shows "RecordId_next (end_record_id e) = Some (ilw_expected w) \<and>
    pos_nat (end_position e) = base_pos b + length (concat (frames recs)) \<and> 0 < n0 + length recs"
proof -
  have ends: "ilw_buffered_end w = end_after b recs" and ch: "chain first recs = Some (ilw_expected w)"
    and small: "base_pos b + length (concat (frames recs)) < 2 ^ 64"
    using live by (simp_all add: pair_live_def)
  show ?thesis
  proof (cases recs rule: rev_cases)
    case Nil
    then have "b = Some e" "ilw_expected w = first" using ends some ch by (simp_all add: end_after_def)
    then show ?thesis using ok Nil by (simp add: base_ok_def base_pos_def frames_def record_count_nat)
  next
    case (snoc rs r)
    then have "RecordId_next (Record_id r) = Some (ilw_expected w)"
      using ch by (simp add: chain_snoc split: option.splits if_splits)
    moreover have "e = RecordEndLocation_new (Record_id r)
        (LogFilePosition (of_nat (base_pos b + length (concat (frames recs)))))"
      using snoc ends some by (simp add: end_after_def)
    ultimately show ?thesis using snoc pos_nat_of_nat [OF small] by simp
  qed
qed

lemma append_start_live:
  assumes ok: "base_ok f b first n0" and live: "pair_live f b first n0 w recs tr"
    and room: "n0 + length recs < 100000"
  shows "\<exists>p. append_start w = Some (RecordStartLocation_new (ilw_expected w) p) \<and>
    pos_nat p = base_pos b + length (concat (frames recs))"
proof (cases "ilw_buffered_end w")
  case None
  then have "recs = []" "b = None" using live by (auto simp: pair_live_def end_after_def split: if_splits)
  then show ?thesis using None live ok
    by (intro exI [of _ LogFilePosition_START])
       (simp add: append_start_def pair_live_def base_ok_def base_pos_def frames_def)
next
  case (Some e)
  from live_previous [OF ok live Some]
  have e: "RecordId_next (end_record_id e) = Some (ilw_expected w)"
      "pos_nat (end_position e) = base_pos b + length (concat (frames recs))" "0 < n0 + length recs"
    by simp_all
  have "seq_nat (sequence_number (ilw_expected w)) mod 100000 = n0 + length recs"
    using live_expected(2) [OF ok live] room by simp
  then have "from_record_id (ilw_expected w) = from_record_id (end_record_id e)"
    using e by (intro from_record_id_next) simp_all
  then show ?thesis using Some e
    by (intro exI [of _ "end_position e"])
       (simp add: append_start_def next_record_start_def end_log_file_id_def)
qed

lemma is_full_live: "pair_live f b first n0 w recs tr \<Longrightarrow> is_full w \<longleftrightarrow> n0 + length recs = 100000"
  unfolding is_full_def by (metis pair_live_def unat_RECORDS_PER_FILE unsigned_word_eqI)

text \<open>Every outcome of an append on a live, open pair.\<close>

lemma pair_write_eq:
  assumes ok: "base_ok f b first n0" and live: "pair_live f b first n0 w recs tr"
    and open_w: "ilw_state w = PairOpen" and v: "valid_frame c (record_bytes rec)"
  defines "p \<equiv> base_pos b + length (concat (frames (recs @ [rec])))"
  shows "pair_write_record rec w =
    (if n0 + length recs = 100000 then (Err PairFull, w)
     else if Record_id rec \<noteq> ilw_expected w
     then (Err (UnexpectedRecordId (ilw_expected w) (Record_id rec)), w)
     else
       (case RecordId_next (ilw_expected w) of
          None \<Rightarrow> (Stop Panic, w)
        | Some nxt \<Rightarrow>
            if 2 ^ 64 \<le> p then (Stop Panic, w)
            else
              (let end = RecordEndLocation_new (Record_id rec) (LogFilePosition (of_nat p)) in
               (Ok \<lparr>outcome_end = end, outcome_file_full = (n0 + length recs = 99999)\<rparr>,
                w\<lparr>ilw_log := ilw_log w\<lparr>rw_buffer := rw_buffer (ilw_log w) @ record_bytes rec\<rparr>,
                  ilw_index := ilw_index w\<lparr>iw_buffer := iw_buffer (ilw_index w) @
                    encode_position (LogFilePosition (of_nat p))\<rparr>,
                  ilw_record_count := ilw_record_count w + 1, ilw_buffered_end := Some end,
                  ilw_expected := nxt\<rparr>))))"
proof (cases "n0 + length recs = 100000 \<or> Record_id rec \<noteq> ilw_expected w")
  case True
  then show ?thesis using is_full_live [OF live] open_w
    by (auto simp: pair_write_record_def check_open_def Let_def)
next
  case False
  then have room: "n0 + length recs < 100000" and rid: "Record_id rec = ilw_expected w"
    using live by (auto simp: pair_live_def)
  obtain q where st: "append_start w = Some (RecordStartLocation_new (ilw_expected w) q)"
    and q: "pos_nat q = base_pos b + length (concat (frames recs))"
    using append_start_live [OF ok live room] by blast
  have len: "unat (RecordLength_get (Record_length rec)) = length (record_bytes rec)"
    using valid_frame_length [OF v] by (cases rec) simp
  have p: "p = pos_nat q + unat (RecordLength_get (Record_length rec))"
    unfolding p_def len q by (simp add: frames_def)
  have te: "to_end (RecordStartLocation_new (ilw_expected w) q) (Record_length rec) =
      (if p < 2 ^ 64 then Some (RecordEndLocation_new (ilw_expected w) (LogFilePosition (of_nat p))) else None)"
    unfolding to_end_def p by (simp only: advance_cases location_new_sel) simp
  have notfull: "\<not> is_full w" using is_full_live [OF live] room by simp
  have u: "rw_usable (ilw_log w)" "iw_usable (ilw_index w)" using live by (simp_all add: pair_live_def)
  have cnt: "unat (ilw_record_count w) = n0 + length recs" using live by (simp add: pair_live_def)
  have b: "unat (ilw_record_count w) + unat (1 :: u64) < 2 ^ LENGTH(64)" using cnt room by simp
  have full': "ilw_record_count w + 1 = RECORDS_PER_FILE \<longleftrightarrow> n0 + length recs = 99999"
  proof -
    have "unat (ilw_record_count w + 1) = Suc (n0 + length recs)" using unat_add_no_overflow [OF b] cnt by simp
    moreover have "ilw_record_count w + 1 = RECORDS_PER_FILE \<longleftrightarrow>
        unat (ilw_record_count w + 1) = unat RECORDS_PER_FILE"
      by (metis unsigned_word_eqI)
    ultimately show ?thesis by simp
  qed
  show ?thesis
    using room rid st te notfull u open_w full'
    by (simp add: pair_write_record_def check_open_def Let_def rw_write_record_def rw_check_usable_def
        iw_write_def iw_check_usable_def is_full_def not_less split: option.splits)
qed

lemma end_after_less:
  assumes ok: "base_ok f b first n0" and ch: "chain first recs = Some x"
    and e: "end_after b (take j recs) = Some e"
  shows "seq_nat (sequence_number (end_record_id e)) < seq_nat (sequence_number x)"
proof (cases "take j recs = []")
  case True
  then have "RecordId_next (end_record_id e) = Some first"
    using e ok by (simp add: end_after_def base_ok_def)
  then show ?thesis using chain_Some [OF ch] by (simp add: RecordId_next_eq_Some)
next
  case False
  then have "last (take j recs) \<in> set recs" by (metis in_set_takeD last_in_set)
  moreover have "end_record_id e = Record_id (last (take j recs))" using e False by (auto simp: end_after_def)
  ultimately show ?thesis using chain_ids [OF ch] by simp
qed

text \<open>The pair after an accepted append, ending at byte \<open>p\<close>.\<close>

definition appended :: "Record \<Rightarrow> nat \<Rightarrow> RecordId \<Rightarrow> 'h IndexedLogWriter \<Rightarrow> 'h IndexedLogWriter" where
  "appended rec p nxt w =
     w\<lparr>ilw_log := ilw_log w\<lparr>rw_buffer := rw_buffer (ilw_log w) @ record_bytes rec\<rparr>,
       ilw_index := ilw_index w\<lparr>iw_buffer := iw_buffer (ilw_index w) @ encode_position (LogFilePosition (of_nat p))\<rparr>,
       ilw_record_count := ilw_record_count w + 1,
       ilw_buffered_end := Some (RecordEndLocation_new (Record_id rec) (LogFilePosition (of_nat p))),
       ilw_expected := nxt\<rparr>"

lemma pair_write_accepted:
  assumes ok: "base_ok f b first n0" and live: "pair_live f b first n0 w recs tr"
    and opened: "ilw_state w = PairOpen" and v: "valid_frame c (record_bytes rec)"
    and wr: "pair_write_record rec w = (res, w')"
  defines "p \<equiv> base_pos b + length (concat (frames (recs @ [rec])))"
  shows "if is_ok res then n0 + length recs < 100000 \<and> p < 2 ^ 64 \<and>
      (\<exists>nxt. chain first (recs @ [rec]) = Some nxt \<and> w' = appended rec p nxt w)
    else w' = w"
proof -
  have "chain first recs = Some (ilw_expected w)" "n0 + length recs \<le> 100000"
    using live by (simp_all add: pair_live_def)
  then show ?thesis using wr unfolding pair_write_eq [OF ok live opened v] p_def
    by (auto simp: Let_def not_le chain_snoc appended_def split: if_splits option.splits)
qed

lemma live_append:
  assumes ok: "base_ok f b first n0" and live: "pair_live f b first n0 w recs tr"
    and core: "pair_core lh ih b w recs tr"
    and room: "n0 + length recs < 100000" and small: "p < 2 ^ 64"
    and ch: "chain first (recs @ [rec]) = Some nxt"
    and p: "p = base_pos b + length (concat (frames (recs @ [rec])))"
  shows "pair_live f b first n0 (appended rec p nxt w) (recs @ [rec]) tr"
proof -
  have chn: "chain first recs = Some (ilw_expected w)" and cnt: "unat (ilw_record_count w) = n0 + length recs"
    and lb: "accepted (rw_destination (ilw_log w)) tr @ rw_buffer (ilw_log w) = concat (frames recs)"
      "accepted (iw_file (ilw_index w)) tr @ iw_buffer (ilw_index w) = index_of (base_pos b) (frames recs)"
    using live by (simp_all add: pair_live_def)
  have "unat (ilw_record_count w) + unat (1 :: u64) < 2 ^ LENGTH(64)" using cnt room by simp
  from unat_add_no_overflow [OF this]
  have cnt': "unat (ilw_record_count w + 1) = n0 + length (recs @ [rec])" using cnt by simp
  obtain j where fe: "ilw_flushed_end w = end_after b (take j recs)"
    using core unfolding pair_core_def backed_def by blast
  have rid: "Record_id rec = ilw_expected w" using ch chn by (simp add: chain_snoc split: if_splits)
  have new: "Some (RecordEndLocation_new (Record_id rec) (LogFilePosition (of_nat p))) \<noteq> ilw_flushed_end w"
    using end_after_less [OF ok chn, of j] rid fe by (metis location_new_sel(1) nat_less_le)
  have fr: "frames [rec] = [record_bytes rec]" by (simp add: frames_def)
  have ix: "index_of (base_pos b) (frames recs) @ encode_position (LogFilePosition (of_nat p)) =
      index_of (base_pos b) (frames (recs @ [rec]))"
    by (simp add: p index_of_append index_of_single fr add.assoc)
  have "end_after b (recs @ [rec]) = Some (RecordEndLocation_new (Record_id rec) (LogFilePosition (of_nat p)))"
    by (simp add: end_after_def p)
  then show ?thesis using live lb ix fr cnt' new small room ch p unfolding pair_live_def appended_def
    by (simp flip: append_assoc)
qed

lemma pair_write_inv:
  assumes ok: "base_ok f b first n0" and inv: "pair_inv lh ih f b first n0 (w, e, recs)"
    and v: "valid_frame c (record_bytes rec)" and wr: "pair_write_record rec w = (res, w')"
  shows "if is_ok res then pair_inv lh ih f b first n0 (w', e, recs @ [rec]) else w' = w"
proof (cases "ilw_state w = PairOpen")
  case False
  then have "w' = w" "\<not> is_ok res"
    using wr by (auto simp: pair_write_record_def check_open_def split: IndexedLogWriterState.splits)
  then show ?thesis by simp
next
  case opened: True
  then have live: "pair_live f b first n0 w recs (trace e)" and core: "pair_core lh ih b w recs (trace e)"
    using inv by (simp_all add: pair_inv_def)
  note done_or_same = pair_write_accepted [OF ok live opened v wr]
  show ?thesis
  proof (cases "is_ok res")
    case False
    then show ?thesis using done_or_same by simp
  next
    case True
    let ?p = "base_pos b + length (concat (frames (recs @ [rec])))"
    from True done_or_same obtain nxt where a: "n0 + length recs < 100000" "?p < 2 ^ 64"
      and nxt: "chain first (recs @ [rec]) = Some nxt" "w' = appended rec ?p nxt w"
      by (auto simp: Let_def)
    have "pair_core lh ih b w' (recs @ [rec]) (trace e)"
      using core nxt(2) always_covered_more [of lh ih "base_pos b" "frames recs" "trace e"]
        backed_more [of lh ih b w recs "trace e" w' "[rec]"]
      by (simp add: pair_core_def appended_def)
    then show ?thesis using True nxt live_append [OF ok live core a nxt(1) refl] a(1)
      by (simp add: pair_inv_def recs_ok_def)
  qed
qed

lemma pair_finalize_inv:
  assumes inv: "pair_inv lh ih f b first n0 (w, e, recs)" and fin: "pair_finalize w = (res, w')"
  shows "pair_inv lh ih f b first n0 (w', e, recs) \<and>
    (\<forall>end. res = Ok end \<longrightarrow> n0 + length recs = 100000 \<and> end_after b recs = Some end \<and>
       ilw_synced_end w = Some end \<and> ilw_state w' = PairFinalized)"
proof (cases "ilw_state w = PairOpen")
  case False
  then have "w' = w" "\<not> is_ok res"
    using fin by (auto simp: pair_finalize_def check_open_def split: IndexedLogWriterState.splits)
  then show ?thesis using inv by auto
next
  case opened: True
  then have live: "pair_live f b first n0 w recs (trace e)" and core: "pair_core lh ih b w recs (trace e)"
    using inv by (simp_all add: pair_inv_def)
  have ends: "ilw_buffered_end w = end_after b recs" using live by (simp add: pair_live_def)
  show ?thesis
  proof (cases "is_full w \<and> ilw_synced_end w = ilw_buffered_end w \<and> ilw_buffered_end w \<noteq> None")
    case False
    then have "w' = w" "\<not> is_ok res"
      using fin opened by (auto simp: pair_finalize_def check_open_def split: option.splits if_splits)
    then show ?thesis using inv by auto
  next
    case True
    then obtain x where x: "ilw_buffered_end w = Some x" by auto
    then have "res = Ok x" "w' = w\<lparr>ilw_state := PairFinalized\<rparr>"
      using fin opened True by (auto simp: pair_finalize_def check_open_def)
    moreover have "pair_core lh ih b (w\<lparr>ilw_state := PairFinalized\<rparr>) recs (trace e)"
      using core by (simp add: pair_core_def backed_def)
    moreover have "pair_live f b first n0 (w\<lparr>ilw_state := PairFinalized\<rparr>) recs (trace e)"
      using live by (simp add: pair_live_def flush_complete_def)
    moreover have "recs_ok first n0 recs" using inv by (simp add: pair_inv_def)
    ultimately show ?thesis using True x ends is_full_live [OF live]
      by (simp add: pair_inv_def)
  qed
qed

subsection \<open>Runs of the pair\<close>

datatype pair_op = AppendRecord Record | FlushPair | SyncPair | FinalizePair

fun pair_step ::
    "pair_op \<Rightarrow> 'h IndexedLogWriter \<times> 'h env \<times> Record list \<Rightarrow>
     'h IndexedLogWriter \<times> 'h env \<times> Record list" where
  "pair_step (AppendRecord rec) (w, e, recs) =
     (case pair_write_record rec w of (r, w') \<Rightarrow> (w', e, if is_ok r then recs @ [rec] else recs))"
| "pair_step FlushPair (w, e, recs) = (case pair_flush w e of (r, w', e') \<Rightarrow> (w', e', recs))"
| "pair_step SyncPair (w, e, recs) = (case pair_sync_data w e of (r, w', e') \<Rightarrow> (w', e', recs))"
| "pair_step FinalizePair (w, e, recs) = (case pair_finalize w of (r, w') \<Rightarrow> (w', e, recs))"

definition pair_run ::
    "pair_op list \<Rightarrow> 'h IndexedLogWriter \<times> 'h env \<times> Record list \<Rightarrow>
     'h IndexedLogWriter \<times> 'h env \<times> Record list" where
  "pair_run ops s = fold pair_step ops s"

text \<open>Only valid records are appended: the type's invariant of \<open>Record\<close>.\<close>

definition valid_op :: "crc_fun \<Rightarrow> pair_op \<Rightarrow> bool" where
  "valid_op c op = (case op of AppendRecord rec \<Rightarrow> valid_frame c (record_bytes rec) | _ \<Rightarrow> True)"

lemma pair_step_inv:
  assumes ok: "base_ok f b first n0" and inv: "pair_inv lh ih f b first n0 s" and v: "valid_op c op"
  shows "pair_inv lh ih f b first n0 (pair_step op s)"
proof -
  obtain w e recs where s: "s = (w, e, recs)" by (metis surj_pair)
  note inv' = inv [unfolded s]
  show ?thesis
  proof (cases op)
    case (AppendRecord rec)
    obtain r w' where wr: "pair_write_record rec w = (r, w')" by (metis surj_pair)
    have "valid_frame c (record_bytes rec)" using v AppendRecord by (simp add: valid_op_def)
    from pair_write_inv [OF ok inv' this wr] show ?thesis
      using AppendRecord s wr inv' by (auto split: if_splits)
  next
    case FlushPair
    obtain r w' e' where "pair_flush w e = (r, w', e')" by (metis surj_pair)
    with pair_flush_inv [OF inv' this] show ?thesis using FlushPair s by simp
  next
    case SyncPair
    obtain r w' e' where "pair_sync_data w e = (r, w', e')" by (metis surj_pair)
    with pair_sync_inv [OF inv' this] show ?thesis using SyncPair s by simp
  next
    case FinalizePair
    obtain r w' where "pair_finalize w = (r, w')" by (metis surj_pair)
    with pair_finalize_inv [OF inv' this] show ?thesis using FinalizePair s by simp
  qed
qed

interpretation pair_runs: run_invariant pair_step "valid_op c"
    "\<lambda>s. base_ok f b first n0 \<and> pair_inv lh ih f b first n0 s" for c f b first n0 lh ih
  by unfold_locales (blast intro: pair_step_inv)

lemma pair_run_inv:
  assumes ok: "base_ok f b first n0" and "pair_inv lh ih f b first n0 s" and "list_all (valid_op c) ops"
  shows "pair_inv lh ih f b first n0 (pair_run ops s)"
  using pair_runs.run_inv [OF assms(3), of f b first n0 lh ih s] assms(1,2) by (simp add: pair_run_def)

text \<open>Taking over a pair: fresh and empty, or as the initializer hands it over.\<close>

definition taken_over :: "'h InitializedStream \<Rightarrow> bool" where
  "taken_over s \<longleftrightarrow>
     valid_log_file (init_file_id s) \<and> init_log s \<noteq> init_index s \<and>
     (case init_end s of None \<Rightarrow> True | Some end \<Rightarrow> end_log_file_id end = init_file_id s)"

lemma from_new:
  "IndexedLogWriter_from \<lparr>init_file_id = f, init_log = lh, init_index = ih, init_end = None\<rparr> =
     Some (IndexedLogWriter_new f lh ih)"
  by (simp add: IndexedLogWriter_from_def IndexedLogWriter_new_def Let_def)

lemma pair_inv_start:
  assumes t: "taken_over s" and w: "IndexedLogWriter_from s = Some w"
  shows "\<exists>first n0. base_ok (init_file_id s) (init_end s) first n0 \<and>
    pair_inv (init_log s) (init_index s) (init_file_id s) (init_end s) first n0 (w, start_env answers, [])"
proof -
  let ?b = "init_end s"
  define n0 where "n0 = (case ?b of None \<Rightarrow> 0 | Some end \<Rightarrow> unat (record_count_through (end_record_id end)))"
  obtain first where first: "(case ?b of None \<Rightarrow> Some (first_record_id (init_file_id s))
                      | Some end \<Rightarrow> RecordId_next (end_record_id end)) = Some first"
    and w: "w = \<lparr>ilw_file_id = init_file_id s, ilw_expected = first,
                ilw_record_count = (case ?b of None \<Rightarrow> 0
                                    | Some end \<Rightarrow> record_count_through (end_record_id end)),
                ilw_buffered_end = ?b, ilw_flushed_end = ?b, ilw_synced_end = ?b,
                ilw_log = for_records (init_log s),
                ilw_index = IndexWriter_new (init_index s), ilw_state = PairOpen\<rparr>"
    using w by (auto simp: IndexedLogWriter_from_def Let_def split: option.splits)
  have ok: "base_ok (init_file_id s) ?b first n0"
    using t first by (auto simp: base_ok_def taken_over_def n0_def end_log_file_id_def split: option.splits)
  have bp: "base_pos ?b < 2 ^ 64"
    using pos_nat_bound by (auto simp: base_pos_def split: option.splits)
  have n: "unat (ilw_record_count w) = n0" "n0 \<le> 100000"
    using record_count_le by (auto simp: w n0_def split: option.splits)
  have "backed (init_log s) (init_index s) ?b w [] []"
    unfolding backed_def by (simp add: w end_after_def frames_def)
  then have "pair_core (init_log s) (init_index s) ?b w [] []"
    using t by (simp add: pair_core_def taken_over_def w for_records_def with_mode_def IndexWriter_new_def
        iw_with_file_def)
  moreover have "pair_live (init_file_id s) ?b first n0 w [] []"
    using n bp by (simp add: pair_live_def w for_records_def with_mode_def IndexWriter_new_def
        iw_with_file_def frames_def end_after_def flush_complete_def)
  ultimately show ?thesis using ok n(2)
    by (intro exI [of _ first] exI [of _ n0]) (simp add: pair_inv_def start_env_def recs_ok_def)
qed

lemma chain_nth:
  "chain rid rs = Some x \<Longrightarrow> i < length rs \<Longrightarrow>
     stream_id (Record_id (rs ! i)) = stream_id rid \<and>
     seq_nat (sequence_number (Record_id (rs ! i))) = seq_nat (sequence_number rid) + i"
proof (induction rs arbitrary: rid i)
  case (Cons a rs)
  from Cons.prems(1) obtain n where n: "Record_id a = rid" "RecordId_next rid = Some n" "chain n rs = Some x"
    by (auto split: if_splits option.splits)
  then show ?case using Cons.IH [OF n(3)] Cons.prems(2)
    by (cases i) (auto simp: RecordId_next_eq_Some)
qed simp

lemma pair_reachable:
  assumes t: "taken_over s" and w: "IndexedLogWriter_from s = Some w0" and v: "list_all (valid_op c) ops"
    and run: "pair_run ops (w0, start_env answers, []) = (w, e, recs)"
  obtains n0 where "base_ok (init_file_id s) (init_end s) (ilw_expected w0) n0"
    "pair_inv (init_log s) (init_index s) (init_file_id s) (init_end s) (ilw_expected w0) n0 (w, e, recs)"
proof -
  obtain first n0 where ok: "base_ok (init_file_id s) (init_end s) first n0"
    and inv: "pair_inv (init_log s) (init_index s) (init_file_id s) (init_end s) first n0 (w0, start_env answers, [])"
    using pair_inv_start [OF t w] by blast
  have "ilw_state w0 = PairOpen"
    using w by (auto simp: IndexedLogWriter_from_def Let_def split: option.splits)
  then have "pair_live (init_file_id s) (init_end s) first n0 w0 [] (trace (start_env answers))"
    using inv by (simp add: pair_inv_def)
  then have first: "first = ilw_expected w0" by (simp add: pair_live_def)
  show ?thesis
    using that ok pair_run_inv [OF ok inv v] run unfolding first by simp
qed

subsection \<open>A concrete run\<close>

text \<open>
  One record is appended to a fresh pair and synchronized; the log takes the record in two pieces.
\<close>

definition example_stream :: "nat InitializedStream" where
  "example_stream = \<lparr>init_file_id = LogFileId_first (StreamId 0), init_log = 0, init_index = 2, init_end = None\<rparr>"

definition example_record :: Record where
  "example_record = Record (encode_record (\<lambda>_. 7) (RecordId (StreamId 0) (SequenceNumber 0)) [])"

definition example_answers :: "nat answer list" where
  "example_answers = [Ready (Count 10), Ready (Count 6), Ready Unit, Ready (Count 8), Ready Unit, Ready Unit, Ready Unit]"

lemma example_taken_over: "taken_over example_stream"
  by (simp add: taken_over_def example_stream_def valid_log_file_def LogFileId_first_def valid_file_def)

lemma example_valid: "valid_op (\<lambda>_. 7) (AppendRecord example_record)"
  using valid_frame_encode [of "[]" "RecordId (StreamId 0) (SequenceNumber 0)" "\<lambda>_. 7"]
  by (simp add: valid_op_def example_record_def valid_stream_def layout)


definition example_pair :: "nat IndexedLogWriter" where
  "example_pair = IndexedLogWriter_new (LogFileId_first (StreamId 0)) 0 2"

lemma example_from: "IndexedLogWriter_from example_stream = Some example_pair"
  by (simp add: example_stream_def example_pair_def from_new)

lemma example_record_id: "Record_id example_record = RecordId (StreamId 0) (SequenceNumber 0)"
  by (simp add: example_record_def id_encode)

lemma example_record_length: "Record_length example_record = RecordLength 16"
  by (simp add: example_record_def Record_length_def RecordLength_new_unchecked_def)

definition example_end :: RecordEndLocation where
  "example_end = RecordEndLocation_new (RecordId (StreamId 0) (SequenceNumber 0)) (LogFilePosition 16)"

lemma example_first: "first_record_id (LogFileId_first (StreamId 0)) = RecordId (StreamId 0) (SequenceNumber 0)"
  by (simp add: first_record_id_def LogFileId_first_def LogFileNumber_MIN_def RecordId_new_def SequenceNumber_new_def)

lemma example_next: "RecordId_next (RecordId (StreamId 0) (SequenceNumber 0)) = Some (RecordId (StreamId 0) (SequenceNumber 1))"
  by (simp add: RecordId_next_eq_Some)

definition example_appended :: "nat IndexedLogWriter" where
  "example_appended = example_pair\<lparr>ilw_log := ilw_log example_pair\<lparr>rw_buffer := record_bytes example_record\<rparr>,
     ilw_index := ilw_index example_pair\<lparr>iw_buffer := encode_position (LogFilePosition 16)\<rparr>,
     ilw_record_count := 1, ilw_buffered_end := Some example_end,
     ilw_expected := RecordId (StreamId 0) (SequenceNumber 1)\<rparr>"

lemma example_append:
  "pair_write_record example_record example_pair =
    (Ok \<lparr>outcome_end = example_end, outcome_file_full = False\<rparr>, example_appended)"
  by (simp add: pair_write_record_def example_pair_def IndexedLogWriter_new_def check_open_def is_full_def
      example_record_id example_record_length example_first example_next append_start_def to_end_def
      advance_cases pos_nat_of_nat rw_write_record_def rw_check_usable_def iw_write_def iw_check_usable_def
      for_records_def with_mode_def IndexWriter_new_def iw_with_file_def example_end_def layout
      example_appended_def Let_def)

lemma example_run:
  "pair_run [AppendRecord example_record] (example_pair, start_env example_answers, []) =
     (example_appended, start_env example_answers, [example_record])"
  by (simp add: pair_run_def example_append)

definition example_trace :: "(nat call \<times> nat answer) list" where
  "example_trace = [(Write 0 (record_bytes example_record), Ready (Count 10)),
     (Write 0 (drop 10 (record_bytes example_record)), Ready (Count 6)), (Flush 0, Ready Unit),
     (Write 2 (encode_position (LogFilePosition 16)), Ready (Count 8)), (Flush 2, Ready Unit),
     (SyncData 0, Ready Unit), (SyncData 2, Ready Unit)]"

lemma example_lengths: "length (record_bytes example_record) = 16" "length (encode_position p) = 8"
  "record_bytes example_record \<noteq> []" "encode_position p \<noteq> []" "drop 10 (record_bytes example_record) \<noteq> []"
  by (simp_all add: example_record_def encode_position_def flip: length_0_conv)

lemma example_sync:
  "pair_sync_data example_appended (start_env example_answers) =
     (Ok (), example_appended\<lparr>ilw_log := ilw_log example_pair, ilw_index := ilw_index example_pair,
        ilw_flushed_end := Some example_end, ilw_synced_end := Some example_end\<rparr>,
      \<lparr>script = [], trace = example_trace\<rparr>)"
  by (simp add: pair_sync_data_def pair_flush_def example_appended_def example_pair_def
      IndexedLogWriter_new_def check_open_def rw_flush_buffer_def rw_check_usable_def
      iw_flush_buffer_def iw_check_usable_def for_records_def with_mode_def IndexWriter_new_def
      iw_with_file_def send_loop.simps typed_call_def start_env_def example_answers_def
      rw_flush_def iw_flush_def rw_sync_data_def iw_sync_data_def example_lengths example_trace_def Let_def)

lemma example_run_synced:
  "pair_run [AppendRecord example_record, SyncPair] (example_pair, start_env example_answers, []) =
     (example_appended\<lparr>ilw_log := ilw_log example_pair, ilw_index := ilw_index example_pair,
        ilw_flushed_end := Some example_end, ilw_synced_end := Some example_end\<rparr>,
      \<lparr>script = [], trace = example_trace\<rparr>, [example_record])"
  by (simp add: pair_run_def example_append example_sync)

text \<open>A pair taken over with a full file.\<close>

definition example_last :: RecordEndLocation where
  "example_last = RecordEndLocation_new (RecordId (StreamId 0) (SequenceNumber 99999)) (LogFilePosition 1600000)"

definition example_full :: "nat InitializedStream" where
  "example_full = example_stream\<lparr>init_end := Some example_last\<rparr>"

lemma example_full_taken_over: "taken_over example_full"
  using example_taken_over
  by (simp add: taken_over_def example_full_def example_stream_def example_last_def end_log_file_id_def
      from_record_id_eq_iff LogFileId_first_def)

definition example_full_pair :: "nat IndexedLogWriter" where
  "example_full_pair =
     example_pair\<lparr>ilw_expected := RecordId (StreamId 0) (SequenceNumber 100000),
       ilw_record_count := RECORDS_PER_FILE, ilw_buffered_end := Some example_last,
       ilw_flushed_end := Some example_last, ilw_synced_end := Some example_last\<rparr>"

lemma example_full_from: "IndexedLogWriter_from example_full = Some example_full_pair"
proof -
  have "RecordId_next (RecordId (StreamId 0) (SequenceNumber 99999)) =
      Some (RecordId (StreamId 0) (SequenceNumber 100000))"
    by (simp add: RecordId_next_eq_Some)
  then show ?thesis
    by (simp add: IndexedLogWriter_from_def example_full_def example_stream_def example_last_def
        example_full_pair_def example_pair_def IndexedLogWriter_new_def record_count_through_def layout Let_def)
qed

subsection \<open>Properties\<close>

text \<open>
  C6. At every moment of every run, whatever the destinations answer and wherever a call fails or
  is dropped: the bytes the index destination has accepted are a prefix of the entries of the
  first \<open>k\<close> appended records, and the bytes of those \<open>k\<close> records were accepted by the log before a
  flush of the log that completed. No index entry, not even a part of one, becomes visible before
  the record it describes.
\<close>

theorem index_never_ahead_of_log:
  assumes "taken_over s" and "IndexedLogWriter_from s = Some w0" and "list_all (valid_op c) ops"
    and "pair_run ops (w0, start_env answers, []) = (w, e, recs)" and "prefix tr (trace e)"
  shows "\<exists>k \<le> length recs.
    prefix (accepted (init_index s) tr) (index_of (base_pos (init_end s)) (take k (frames recs))) \<and>
    prefix (concat (take k (frames recs))) (settled (Flush (init_log s)) (init_log s) tr)"
proof -
  obtain n0 where "pair_inv (init_log s) (init_index s) (init_file_id s) (init_end s) (ilw_expected w0) n0 (w, e, recs)"
    using pair_reachable [OF assms(1-4)] by blast
  then have "always_covered (init_log s) (init_index s) (base_pos (init_end s)) (frames recs) (trace e)"
    by (simp add: pair_inv_def pair_core_def)
  then show ?thesis using assms(5) by (simp add: always_covered_def covered_def)
qed

theorem index_never_ahead_of_log_witness:
  "\<exists>k \<le> length [example_record].
    prefix (accepted 2 (take 4 example_trace)) (index_of 0 (take k (frames [example_record]))) \<and>
    prefix (concat (take k (frames [example_record]))) (settled (Flush 0) 0 (take 4 example_trace))"
proof -
  have "prefix (take 4 example_trace)
      (trace (\<lparr>script = [], trace = example_trace\<rparr> :: nat env))"
    by (simp add: take_is_prefix)
  from index_never_ahead_of_log [OF example_taken_over example_from _ example_run_synced this, of "\<lambda>_. 7"]
  show ?thesis using example_valid
    by (simp add: example_stream_def base_pos_def valid_op_def)
qed

text \<open>
  C9. The published ends are backed by completed calls after every run, also after a failure: the
  flushed end is the end of some first \<open>j\<close> records whose bytes and whole index entries were covered
  by completed flushes of both destinations, and the synchronized end of some first \<open>i \<le> j\<close> records
  covered by completed synchronizations of both.
\<close>

theorem published_ends_are_backed:
  assumes "taken_over s" and "IndexedLogWriter_from s = Some w0" and "list_all (valid_op c) ops"
    and "pair_run ops (w0, start_env answers, []) = (w, e, recs)"
  shows "\<exists>i j. i \<le> j \<and> j \<le> length recs \<and>
    ilw_synced_end w = end_after (init_end s) (take i recs) \<and>
    prefix (concat (take i (frames recs))) (settled (SyncData (init_log s)) (init_log s) (trace e)) \<and>
    prefix (index_of (base_pos (init_end s)) (take i (frames recs)))
      (settled (SyncData (init_index s)) (init_index s) (trace e)) \<and>
    ilw_flushed_end w = end_after (init_end s) (take j recs) \<and>
    prefix (concat (take j (frames recs))) (settled (Flush (init_log s)) (init_log s) (trace e)) \<and>
    prefix (index_of (base_pos (init_end s)) (take j (frames recs)))
      (settled (Flush (init_index s)) (init_index s) (trace e))"
proof -
  obtain n0 where "pair_inv (init_log s) (init_index s) (init_file_id s) (init_end s) (ilw_expected w0) n0 (w, e, recs)"
    using pair_reachable [OF assms(1-4)] by blast
  then have "backed (init_log s) (init_index s) (init_end s) w recs (trace e)"
    by (simp add: pair_inv_def pair_core_def)
  then show ?thesis unfolding backed_def .
qed

theorem published_ends_are_backed_witness:
  "\<exists>i j. i \<le> j \<and> j \<le> 1 \<and> Some example_end = end_after None (take j [example_record]) \<and>
    prefix (concat (take j (frames [example_record]))) (settled (Flush 0) 0 example_trace)"
  using published_ends_are_backed [OF example_taken_over example_from _ example_run_synced, of "\<lambda>_. 7"]
    example_valid
  by (force simp: example_stream_def valid_op_def)

text \<open>
  C20. A synchronization that succeeds covers everything appended: both destinations have
  synchronized exactly the appended records and exactly their index, and all three ends are the
  end of the last record.
\<close>

theorem sync_covers_everything:
  assumes "taken_over s" and "IndexedLogWriter_from s = Some w0" and "list_all (valid_op c) ops"
    and "pair_run ops (w0, start_env answers, []) = (w, e, recs)"
    and "pair_sync_data w e = (Ok u, w', e')"
  shows "settled (SyncData (init_log s)) (init_log s) (trace e') = concat (frames recs) \<and>
    settled (SyncData (init_index s)) (init_index s) (trace e') =
      index_of (base_pos (init_end s)) (frames recs) \<and>
    ilw_synced_end w' = end_after (init_end s) recs \<and> ilw_flushed_end w' = ilw_synced_end w' \<and>
    ilw_buffered_end w' = ilw_synced_end w'"
proof -
  obtain n0 where inv: "pair_inv (init_log s) (init_index s) (init_file_id s) (init_end s) (ilw_expected w0) n0 (w, e, recs)"
    using pair_reachable [OF assms(1-4)] by blast
  have s: "pair_inv (init_log s) (init_index s) (init_file_id s) (init_end s) (ilw_expected w0) n0 (w', e', recs)"
      "all_flushed (init_end s) w' recs e'" "ilw_synced_end w' = ilw_buffered_end w'"
      "settled (SyncData (init_log s)) (init_log s) (trace e') = concat (frames recs)"
      "settled (SyncData (init_index s)) (init_index s) (trace e') = index_of (base_pos (init_end s)) (frames recs)"
    using pair_sync_inv [OF inv assms(5)] by simp_all
  then have "pair_live (init_file_id s) (init_end s) (ilw_expected w0) n0 w' recs (trace e')"
    by (simp add: pair_inv_def all_flushed_def)
  then show ?thesis using s by (simp add: all_flushed_def pair_live_def)
qed

theorem sync_covers_everything_witness:
  "settled (SyncData 0) 0 example_trace = record_bytes example_record \<and>
   settled (SyncData 2) 2 example_trace = encode_position (LogFilePosition 16)"
  using sync_covers_everything [OF example_taken_over example_from _ example_run example_sync, of "\<lambda>_. 7"]
    example_valid
  by (simp add: example_stream_def frames_def base_pos_def index_of_single example_lengths)

text \<open>
  C21. The accepted records are consecutive from the id the pair was taken over with, all belong to
  the pair's file, and never exceed its size.
\<close>

theorem accepted_records_fill_the_file_in_order:
  assumes "taken_over s" and "IndexedLogWriter_from s = Some w0" and "list_all (valid_op c) ops"
    and "pair_run ops (w0, start_env answers, []) = (w, e, recs)" and "i < length recs"
  shows "from_record_id (Record_id (recs ! i)) = init_file_id s \<and>
    seq_nat (sequence_number (Record_id (recs ! i))) = seq_nat (sequence_number (ilw_expected w0)) + i"
proof -
  obtain n0 where ok: "base_ok (init_file_id s) (init_end s) (ilw_expected w0) n0"
    and "pair_inv (init_log s) (init_index s) (init_file_id s) (init_end s) (ilw_expected w0) n0 (w, e, recs)"
    using pair_reachable [OF assms(1-4)] by blast
  then obtain x where ch: "chain (ilw_expected w0) recs = Some x" and n: "n0 + length recs \<le> 100000"
    by (auto simp: pair_inv_def recs_ok_def)
  from chain_nth [OF ch assms(5)] base_first [OF ok] n assms(5) show ?thesis
    by (simp add: from_record_id_eq_iff)
qed

theorem accepted_records_fill_the_file_in_order_witness:
  "from_record_id (Record_id ([example_record] ! 0)) = LogFileId_first (StreamId 0)"
  using accepted_records_fill_the_file_in_order
      [OF example_taken_over example_from _ example_run, of "\<lambda>_. 7" 0] example_valid
  by (simp add: example_stream_def)

text \<open>A finalized pair refuses every operation and makes no call.\<close>

lemma finalized_refuses:
  assumes "ilw_state w = PairFinalized"
  shows "pair_write_record rec w = (Err FinalizedError, w)" "pair_flush w e = (Err FinalizedError, w, e)"
    "pair_sync_data w e = (Err FinalizedError, w, e)" "pair_finalize w = (Err FinalizedError, w)"
  using assms by (simp_all add: pair_write_record_def pair_flush_def pair_sync_data_def pair_finalize_def check_open_def)

lemma finalized_stays: "ilw_state w = PairFinalized \<Longrightarrow> pair_run ops (w, e, recs) = (w, e, recs)"
proof (induction ops)
  case (Cons op ops)
  then show ?case by (cases op) (simp_all add: pair_run_def finalized_refuses)
qed (simp add: pair_run_def)

lemma full_end_is_last_record:
  assumes ok: "base_ok f b first n0" and live: "pair_live f b first n0 w recs tr"
    and full: "n0 + length recs = 100000" and last: "end_after b recs = Some end"
  shows "end_record_id end = last_record_id f"
proof -
  have "ilw_buffered_end w = Some end" using live last by (simp add: pair_live_def)
  from live_previous [OF ok live this] have nx: "RecordId_next (end_record_id end) = Some (ilw_expected w)" by simp
  have v: "valid_log_file f" using ok by (simp add: base_ok_def)
  have eqs: "stream_id (end_record_id end) = file_stream f"
      "seq_nat (sequence_number (end_record_id end)) = file_nat (file_number f) * 100000 + 99999"
    using nx live_expected [OF ok live] full by (simp_all add: RecordId_next_eq_Some)
  have "seq_nat (sequence_number (last_record_id f)) = seq_nat (sequence_number (end_record_id end))"
    unfolding last_record_id_seq [OF v] using eqs(2) seq_nat_bound [of "sequence_number (end_record_id end)"] by simp
  then show ?thesis using eqs(1) by (intro RecordId_eqI) simp_all
qed

text \<open>
  C33. Finalizing succeeds exactly on an open pair that holds all records of its file and whose
  last record is synchronized; it never panics, every refusal names its reason and changes nothing,
  and success reports the end of the file's last record and only closes the pair. It is final:
  a finalized pair refuses every further operation, without a call and without a change.
\<close>

theorem finalize_requires_full_and_synchronized:
  assumes "taken_over s" and "IndexedLogWriter_from s = Some w0" and "list_all (valid_op c) ops"
    and "pair_run ops (w0, start_env answers, []) = (w, e, recs)"
  shows "let count = trusted_count (init_end s) + length recs in
    (case ilw_state w of
       PairUnusable \<Rightarrow> pair_finalize w = (Err UnusableError, w)
     | PairFinalized \<Rightarrow>
         pair_finalize w = (Err FinalizedError, w) \<and> pair_flush w e = (Err FinalizedError, w, e) \<and>
         pair_sync_data w e = (Err FinalizedError, w, e) \<and>
         (\<forall>rec. pair_write_record rec w = (Err FinalizedError, w)) \<and>
         (\<forall>ops'. pair_run ops' (w, e, recs) = (w, e, recs))
     | PairOpen \<Rightarrow>
         if count \<noteq> 100000 then pair_finalize w = (Err (NotFull (of_nat count)), w) \<and> count < 100000
         else if ilw_synced_end w \<noteq> end_after (init_end s) recs then pair_finalize w = (Err NotSynchronized, w)
         else \<exists>end. end_after (init_end s) recs = Some end \<and> end_record_id end = last_record_id (init_file_id s) \<and>
           pair_finalize w = (Ok end, w\<lparr>ilw_state := PairFinalized\<rparr>))"
proof (cases "ilw_state w")
  case PairOpen
  obtain n0 where ok: "base_ok (init_file_id s) (init_end s) (ilw_expected w0) n0"
    and inv: "pair_inv (init_log s) (init_index s) (init_file_id s) (init_end s) (ilw_expected w0) n0 (w, e, recs)"
    using pair_reachable [OF assms] by blast
  then have live: "pair_live (init_file_id s) (init_end s) (ilw_expected w0) n0 w recs (trace e)"
    using PairOpen by (simp add: pair_inv_def)
  have n0: "n0 = trusted_count (init_end s)" using ok by (simp add: base_ok_def trusted_count_def split: option.splits)
  have count: "unat (ilw_record_count w) = n0 + length recs" "n0 + length recs \<le> 100000"
      "ilw_buffered_end w = end_after (init_end s) recs"
    using live by (simp_all add: pair_live_def)
  then have word: "ilw_record_count w = of_nat (n0 + length recs)" by (simp add: count(1) [symmetric])
  have full: "is_full w \<longleftrightarrow> n0 + length recs = 100000" by (rule is_full_live [OF live])
  have some: "\<exists>end. end_after (init_end s) recs = Some end" if "n0 + length recs = 100000"
    using that ok by (auto simp: base_ok_def end_after_def split: option.splits)
  show ?thesis
  proof (cases "n0 + length recs = 100000 \<and> ilw_synced_end w = end_after (init_end s) recs")
    case True
    then obtain x where x: "end_after (init_end s) recs = Some x" using some by blast
    have "end_record_id x = last_record_id (init_file_id s)" using True by (intro full_end_is_last_record [OF ok live _ x]) simp
    then show ?thesis using True x PairOpen full count(3)
      by (simp add: pair_finalize_def check_open_def n0 [symmetric])
  next
    case False
    then show ?thesis using PairOpen full count word
      by (auto simp: pair_finalize_def check_open_def n0 [symmetric] Let_def)
  qed
next
  case PairFinalized
  then show ?thesis by (simp add: finalized_refuses finalized_stays)
qed (simp add: pair_finalize_def check_open_def)

theorem finalize_requires_full_and_synchronized_witness:
  "pair_finalize example_full_pair = (Ok example_last, example_full_pair\<lparr>ilw_state := PairFinalized\<rparr>) \<and>
   end_record_id example_last = last_record_id (LogFileId_first (StreamId 0))"
proof -
  have "pair_run [] (example_full_pair, start_env [], []) = (example_full_pair, start_env [], [])"
    by (simp add: pair_run_def)
  note fin = finalize_requires_full_and_synchronized
      [OF example_full_taken_over example_full_from _ this, of "\<lambda>_. 7", simplified]
  have "trusted_count (init_end example_full) = 100000"
    by (simp add: example_full_def example_last_def trusted_count_def record_count_nat)
  then show ?thesis using fin
    by (simp add: example_full_def example_stream_def example_full_pair_def example_pair_def IndexedLogWriter_new_def
        end_after_def Let_def)
qed

text \<open>
  Every outcome of an append on an open pair. It is accepted exactly when the file has room and
  the id is the expected one; the outcome then reports the end of the record, computed from the
  lengths of all records before it. Every rejection, and a panic at the last sequence number or
  beyond the last byte position, leaves the pair unchanged.
\<close>

theorem append_outcomes:
  assumes "taken_over s" and "IndexedLogWriter_from s = Some w0" and "list_all (valid_op c) ops"
    and "pair_run ops (w0, start_env answers, []) = (w, e, recs)"
    and "ilw_state w = PairOpen" and "valid_frame c (record_bytes rec)"
  shows "case pair_write_record rec w of
      (Ok out, w') \<Rightarrow> Record_id rec = ilw_expected w \<and>
        RecordId_next (ilw_expected w) = Some (ilw_expected w') \<and>
        Some (outcome_end out) = end_after (init_end s) (recs @ [rec]) \<and>
        (outcome_file_full out \<longleftrightarrow> is_full w')
    | (Err x, w') \<Rightarrow> w' = w \<and>
        x = (if is_full w then PairFull else UnexpectedRecordId (ilw_expected w) (Record_id rec)) \<and>
        (is_full w \<or> Record_id rec \<noteq> ilw_expected w)
    | (Stop x, w') \<Rightarrow> w' = w \<and> x = Panic \<and>
        (sequence_number (ilw_expected w) = SequenceNumber_MAX \<or>
         2 ^ 64 \<le> base_pos (init_end s) + length (concat (frames (recs @ [rec]))))"
proof -
  obtain n0 where ok: "base_ok (init_file_id s) (init_end s) (ilw_expected w0) n0"
    and inv: "pair_inv (init_log s) (init_index s) (init_file_id s) (init_end s) (ilw_expected w0) n0 (w, e, recs)"
    using pair_reachable [OF assms(1-4)] by blast
  then have live: "pair_live (init_file_id s) (init_end s) (ilw_expected w0) n0 w recs (trace e)"
    using assms(5) by (simp add: pair_inv_def)
  note eq = pair_write_eq [OF ok live assms(5,6)]
  have full: "is_full w \<longleftrightarrow> n0 + length recs = 100000" by (rule is_full_live [OF live])
  have mx: "RecordId_next (ilw_expected w) = None \<Longrightarrow> sequence_number (ilw_expected w) = SequenceNumber_MAX"
  proof -
    assume "RecordId_next (ilw_expected w) = None"
    then have "seq_nat (sequence_number (ilw_expected w)) = 2 ^ 64 - 1" by (rule RecordId_next_eq_None [THEN iffD1])
    moreover have "seq_nat SequenceNumber_MAX = 2 ^ 64 - 1"
      by (simp add: SequenceNumber_MAX_def unat_minus_one_word)
    ultimately show ?thesis by (simp only: seq_nat_inject [symmetric])
  qed
  have full': "is_full w' \<longleftrightarrow> n0 + length recs = 99999"
    if "pair_write_record rec w = (Ok out, w')" for out w'
  proof -
    have "pair_inv (init_log s) (init_index s) (init_file_id s) (init_end s) (ilw_expected w0) n0 (w', e, recs @ [rec])"
      using pair_write_inv [OF ok inv assms(6) that] by simp
    moreover have "ilw_state w' = PairOpen"
      using that assms(5) unfolding eq by (auto simp: Let_def split: if_splits option.splits)
    ultimately have "pair_live (init_file_id s) (init_end s) (ilw_expected w0) n0 w' (recs @ [rec]) (trace e)"
      by (simp add: pair_inv_def)
    from is_full_live [OF this] show ?thesis by simp
  qed
  show ?thesis
  proof (cases "n0 + length recs = 100000 \<or> Record_id rec \<noteq> ilw_expected w")
    case True
    then show ?thesis unfolding eq using full by auto
  next
    case False
    then show ?thesis using full full' mx unfolding eq
      by (auto simp: Let_def end_after_def split: option.splits)
  qed
qed

theorem append_outcomes_witness:
  "pair_write_record example_record example_pair =
     (Ok \<lparr>outcome_end = example_end, outcome_file_full = False\<rparr>, example_appended) \<and>
   Some example_end = end_after None [example_record]"
proof -
  have run: "pair_run [] (example_pair, start_env [], []) = (example_pair, start_env [], [])"
    by (simp add: pair_run_def)
  have st: "ilw_state example_pair = PairOpen" by (simp add: example_pair_def IndexedLogWriter_new_def)
  have v: "valid_frame (\<lambda>_. 7) (record_bytes example_record)" using example_valid by (simp add: valid_op_def)
  from append_outcomes [OF example_taken_over example_from _ run st v] show ?thesis
    by (simp add: example_append example_stream_def)
qed

end
