(* ===== verification/FileModel.thy ===== *)
theory FileModel
  imports Reader Output
begin

text \<open>
  The documented behaviour of a regular file opened by its owner alone, as a replay of the calls
  in a trace. The recovery code is handed such a file; its properties assume that the answers in
  the trace are those of a file with some content. A failed read or write that reports
  \<open>Interrupted\<close> has no effect; any other failure leaves the content unspecified, and the replay
  ends there.
\<close>

subsection \<open>Replaying a trace on a file\<close>

record file_state =
  content :: bytes
  cursor :: nat
  synced :: bytes

definition write_at :: "nat \<Rightarrow> bytes \<Rightarrow> bytes \<Rightarrow> bytes" where
  "write_at at bs file =
     take at (file @ replicate (at - length file) 0) @ bs @ drop (at + length bs) file"

definition set_length :: "nat \<Rightarrow> bytes \<Rightarrow> bytes" where
  "set_length n file = take n file @ replicate (n - length file) 0"

definition file_reply :: "'h call \<Rightarrow> 'h reply \<Rightarrow> file_state \<Rightarrow> file_state option" where
  "file_reply c r s =
     (case (c, r) of
        (ReadBuf _ n, Bytes bs) \<Rightarrow>
          if prefix bs (drop (cursor s) (content s)) \<and>
             (bs = [] \<longrightarrow> n = 0 \<or> length (content s) \<le> cursor s)
          then Some (s\<lparr>cursor := cursor s + length bs\<rparr>) else None
      | (ReadExact _ n, Bytes bs) \<Rightarrow>
          if length bs = n \<and> prefix bs (drop (cursor s) (content s))
          then Some (s\<lparr>cursor := cursor s + n\<rparr>) else None
      | (FileLength _, Size n) \<Rightarrow> if unat n = length (content s) then Some s else None
      | (SetLen _ n, Unit) \<Rightarrow> Some (s\<lparr>content := set_length (unat n) (content s)\<rparr>)
      | (Seek _ n, Size m) \<Rightarrow> if m = n then Some (s\<lparr>cursor := unat n\<rparr>) else None
      | (Write _ bs, Count n) \<Rightarrow>
          if n \<le> length bs
          then Some (s\<lparr>content := write_at (cursor s) (take n bs) (content s), cursor := cursor s + n\<rparr>)
          else None
      | (Flush _, Unit) \<Rightarrow> Some s
      | (SyncData _, Unit) \<Rightarrow> Some (s\<lparr>synced := content s\<rparr>)
      | _ \<Rightarrow> None)"

lemma file_reply_simps [simp]:
  "file_reply (ReadBuf h n) (Bytes bs) s =
     (if prefix bs (drop (cursor s) (content s)) \<and> (bs = [] \<longrightarrow> n = 0 \<or> length (content s) \<le> cursor s)
      then Some (s\<lparr>cursor := cursor s + length bs\<rparr>) else None)"
  "file_reply (ReadExact h n) (Bytes bs) s =
     (if length bs = n \<and> prefix bs (drop (cursor s) (content s))
      then Some (s\<lparr>cursor := cursor s + n\<rparr>) else None)"
  "file_reply (FileLength h) (Size m) s = (if unat m = length (content s) then Some s else None)"
  "file_reply (SetLen h m) Unit s = Some (s\<lparr>content := set_length (unat m) (content s)\<rparr>)"
  "file_reply (Seek h m) (Size m') s = (if m' = m then Some (s\<lparr>cursor := unat m\<rparr>) else None)"
  "file_reply (Write h bs) (Count n) s =
     (if n \<le> length bs
      then Some (s\<lparr>content := write_at (cursor s) (take n bs) (content s), cursor := cursor s + n\<rparr>)
      else None)"
  "file_reply (Flush h) Unit s = Some s"
  "file_reply (SyncData h) Unit s = Some (s\<lparr>synced := content s\<rparr>)"
  by (simp_all add: file_reply_def)

lemma file_reply_ReadBuf: "file_reply (ReadBuf h n) r s = Some s' \<Longrightarrow> \<exists>bs. r = Bytes bs"
  by (cases r) (simp_all add: file_reply_def)

lemma file_reply_Write: "file_reply (Write h bs) r s = Some s' \<Longrightarrow> \<exists>n. r = Count n"
  by (cases r) (simp_all add: file_reply_def)

fun file_call :: "'h call \<Rightarrow> 'h answer \<Rightarrow> file_state \<Rightarrow> file_state option" where
  "file_call c (Ready r) s = file_reply c r s"
| "file_call c (Failed x) s = (if x = Interrupted then Some s else None)"
| "file_call c Dropped s = None"

primrec replay ::
    "'h \<Rightarrow> ('h call \<times> 'h answer) list \<Rightarrow> file_state \<Rightarrow> file_state option" where
  "replay h [] s = Some s"
| "replay h (ev # tr) s =
     (if on_handle h (fst ev)
      then (case file_call (fst ev) (snd ev) s of None \<Rightarrow> None | Some s' \<Rightarrow> replay h tr s')
      else replay h tr s)"

lemma replay_append:
  "replay h (tr @ tr') s = (case replay h tr s of None \<Rightarrow> None | Some s' \<Rightarrow> replay h tr' s')"
  by (induction tr arbitrary: s) (auto split: option.splits)

lemma replay_other: "\<forall>ev\<in>set tr. \<not> on_handle h (fst ev) \<Longrightarrow> replay h tr s = Some s"
  by (induction tr) auto

subsection \<open>Reading and writing runs\<close>

text \<open>Sequential reads return consecutive parts of the content, from the cursor on.\<close>

lemma replay_reads:
  "reads_on h evs \<Longrightarrow> replay h evs s = Some s' \<Longrightarrow>
     content s' = content s \<and> synced s' = synced s \<and>
     cursor s' = cursor s + length (received h evs) \<and>
     prefix (received h evs) (drop (cursor s) (content s))"
proof (induction evs arbitrary: s)
  case (Cons ev evs)
  then obtain n a where ev: "ev = (ReadBuf h n, a)" "n > 0" by (cases ev) auto
  obtain s1 where s1: "file_call (ReadBuf h n) a s = Some s1" "replay h evs s1 = Some s'"
    using Cons.prems(2) ev by (auto split: option.splits)
  have ih: "content s' = content s1" "synced s' = synced s1" "cursor s' = cursor s1 + length (received h evs)"
      "prefix (received h evs) (drop (cursor s1) (content s1))"
    using Cons.IH [OF _ s1(2)] Cons.prems(1) by auto
  show ?case
  proof (cases "\<exists>bs. a = Ready (Bytes bs)")
    case True
    then obtain bs where a: "a = Ready (Bytes bs)" by blast
    then have c: "prefix bs (drop (cursor s) (content s))" "s1 = s\<lparr>cursor := cursor s + length bs\<rparr>"
      using s1(1) by (auto split: if_splits)
    have "drop (cursor s) (content s) = bs @ drop (cursor s + length bs) (content s)"
    proof -
      obtain zs where "drop (cursor s) (content s) = bs @ zs" using c(1) by (auto simp: prefix_def)
      moreover from arg_cong [OF this, of "drop (length bs)"]
      have "drop (cursor s + length bs) (content s) = zs" by (simp add: add.commute)
      ultimately show ?thesis by simp
    qed
    then show ?thesis using ih c ev a by simp
  next
    case False
    then have "s1 = s \<and> received_by h (ReadBuf h n, a) = []"
      using s1(1) by (cases a) (auto dest: file_reply_ReadBuf split: if_splits)
    then show ?thesis using ih ev by simp
  qed
qed simp

lemma replay_at_eof:
  assumes "reads_on h evs" and "at_eof h evs" and "replay h evs s = Some s'"
  shows "received h evs = drop (cursor s) (content s)"
proof -
  obtain tr n where evs: "evs = tr @ [(ReadBuf h n, Ready (Bytes []))]" "n > 0"
    using assms(2) by (auto simp: at_eof_def)
  then obtain s1 where s1: "replay h tr s = Some s1" "file_call (ReadBuf h n) (Ready (Bytes [])) s1 = Some s'"
    using assms(3) by (auto simp: replay_append split: option.splits)
  have r: "content s1 = content s" "cursor s1 = cursor s + length (received h tr)"
      "prefix (received h tr) (drop (cursor s) (content s))"
    using replay_reads [OF _ s1(1)] assms(1) evs by simp_all
  have "length (content s1) \<le> cursor s1" using s1(2) evs(2) by (auto split: if_splits)
  then have "length (drop (cursor s) (content s)) \<le> length (received h tr)" using r by simp
  then have "received h tr = drop (cursor s) (content s)"
    using r(3) by (metis append_Nil2 drop_all prefix_def append_eq_conv_conj take_all)
  then show ?thesis using evs by simp
qed

text \<open>Appending at the end of the content.\<close>

lemma write_at_end: "write_at (length file) bs file = file @ bs"
  by (simp add: write_at_def)

lemma replay_writes:
  "writes_on h evs \<Longrightarrow> replay h evs s = Some s' \<Longrightarrow> cursor s = length (content s) \<Longrightarrow>
     content s' = content s @ accepted h evs \<and> synced s' = synced s \<and> cursor s' = length (content s')"
proof (induction evs arbitrary: s)
  case (Cons ev evs)
  then obtain bs a where ev: "ev = (Write h bs, a)" by (cases ev) auto
  obtain s1 where s1: "file_call (Write h bs) a s = Some s1" "replay h evs s1 = Some s'"
    using Cons.prems(2) ev by (auto split: option.splits)
  have s1': "content s1 = content s @ accepted_by h ev \<and> synced s1 = synced s \<and> cursor s1 = length (content s1)"
  proof (cases "\<exists>n. a = Ready (Count n)")
    case True
    then show ?thesis using s1(1) Cons.prems(3) ev by (auto simp: write_at_end split: if_splits)
  next
    case False
    then have "s1 = s \<and> accepted_by h (Write h bs, a) = []"
      using s1(1) by (cases a) (auto dest: file_reply_Write split: if_splits)
    then show ?thesis using ev Cons.prems(3) by simp
  qed
  have "accepted h (ev # evs) = accepted_by h ev @ accepted h evs" by (simp add: accepted_def)
  with Cons.IH [OF _ s1(2)] Cons.prems(1) s1' show ?case by simp
qed simp

end
