(* ===== verification/LogValidator.thy ===== *)
theory LogValidator
  imports FileModel IndexWriter
begin

text \<open>
  \<^verbatim>\<open>validation/log_file_validator\<close>: startup validation of one log file, the removal of a corrupt
  tail, and what the validated file then holds. The scanning loop is a partial function; a theorem
  shows that it always returns.
\<close>

subsection \<open>Findings and errors\<close>

datatype LogTailError =
    TailRecord RecordReadError
  | TailUnexpectedRecordId RecordId RecordId
  | ExtraData

datatype LogFileValidationError =
    InvalidStart string
  | ValidationIo io_error
  | ValidationRead RecordReadError

record 'h ValidatedLogFile =
  vl_file :: 'h
  vl_validated_end :: "RecordEndLocation option"
  vl_suffix_ends :: "LogFilePosition list"
  vl_removed_tail :: "LogTailError option"

record LogScanResult =
  scan_validated_end :: "RecordEndLocation option"
  scan_suffix_ends :: "LogFilePosition list"
  scan_tail_error :: "LogTailError option"

text \<open>The local variables of the scan.\<close>

record scan_state =
  sc_count :: u64
  sc_validated_end :: "RecordEndLocation option"
  sc_suffix_ends :: "LogFilePosition list"

subsection \<open>The scan\<close>

text \<open>The start of the next record; \<open>None\<close> is the panic of \<^verbatim>\<open>RecordId::next\<close>.\<close>

definition scan_start :: "LogFileId \<Rightarrow> RecordEndLocation option \<Rightarrow> RecordStartLocation option" where
  "scan_start file_id validated_end =
     (case validated_end of
        None \<Rightarrow> Some (RecordStartLocation_new (first_record_id file_id) LogFilePosition_START)
      | Some end \<Rightarrow>
          map_option (\<lambda>next_id. RecordStartLocation_new next_id (end_position end))
            (RecordId_next (end_record_id end)))"

text \<open>
  \<^verbatim>\<open>while count < RECORDS_PER_FILE\<close>: \<open>Ok None\<close> goes on with the outer loop, \<open>Ok (Some tail)\<close> is
  \<^verbatim>\<open>break 'scan Some(tail)\<close>.
\<close>

function drain_batch ::
    "LogFileId \<Rightarrow> scan_state \<Rightarrow> 'h RecordReader \<Rightarrow>
     (LogTailError option, LogFileValidationError) outcome \<times> scan_state \<times> 'h RecordReader" where
  "drain_batch file_id st reader =
     (if \<not> sc_count st < RECORDS_PER_FILE then (Ok None, st, reader)
      else
        (case try_read_next reader of
           (Err x, reader) \<Rightarrow> (Err (ValidationRead x), st, reader)
         | (Stop s, reader) \<Rightarrow> (Stop s, st, reader)
         | (Ok None, reader) \<Rightarrow> (Ok None, st, reader)
         | (Ok (Some rec), reader) \<Rightarrow>
             (case scan_start file_id (sc_validated_end st) of
                None \<Rightarrow> (Stop Panic, st, reader)
              | Some start \<Rightarrow>
                  if Record_id rec \<noteq> start_record_id start
                  then (Ok (Some (TailUnexpectedRecordId (start_record_id start) (Record_id rec))), st, reader)
                  else
                    (case to_end start (Record_length rec) of
                       None \<Rightarrow> (Stop Panic, st, reader)
                     | Some end \<Rightarrow>
                         drain_batch file_id
                           (st\<lparr>sc_validated_end := Some end,
                               sc_suffix_ends := sc_suffix_ends st @ [end_position end],
                               sc_count := sc_count st + 1\<rparr>) reader))))"
  by pat_completeness auto

lemma count_step:
  "c < RECORDS_PER_FILE \<Longrightarrow> unat (c + 1) = Suc (unat c) \<and> unat c < 100000"
proof -
  assume "c < RECORDS_PER_FILE"
  then have b: "unat c < 100000" by (simp add: word_less_nat_alt)
  then have "unat c + unat (1 :: u64) < 2 ^ LENGTH(64)" by simp
  from unat_add_no_overflow [OF this] b show ?thesis by simp
qed

termination drain_batch
  by (relation "measure (\<lambda>(f, st, r). 100000 - unat (sc_count st))")
     (auto dest!: count_step)

declare drain_batch.simps [simp del]

partial_function (option) scan_loop ::
    "crc_fun \<Rightarrow> LogFileId \<Rightarrow> LogFilePosition \<Rightarrow> scan_state \<Rightarrow> 'h RecordReader \<Rightarrow> 'h env \<Rightarrow>
     ((LogTailError option, LogFileValidationError) outcome \<times> scan_state \<times> 'h env) option" where
  "scan_loop crc32c file_id file_end st reader e =
     (if sc_count st = RECORDS_PER_FILE then
        (case sc_validated_end st of
           None \<Rightarrow> Some (Stop Panic, st, e)
         | Some end \<Rightarrow>
             Some (Ok (if end_position end < file_end then Some ExtraData else None), st, e))
      else
        (case wait_to_read crc32c reader e of
           (res, reader, e) \<Rightarrow>
             (case res of
                Stop s \<Rightarrow> Some (Stop s, st, e)
              | Ok ready \<Rightarrow>
                  if \<not> ready then Some (Ok None, st, e)
                  else
                    (case drain_batch file_id st reader of
                       (drained, st, reader) \<Rightarrow>
                         (case drained of
                            Ok None \<Rightarrow> scan_loop crc32c file_id file_end st reader e
                          | _ \<Rightarrow> Some (drained, st, e)))
              | Err x \<Rightarrow>
                  Some
                    (case x of
                       ReadIo _ \<Rightarrow> Err (ValidationRead x)
                     | ReaderFailed \<Rightarrow> Err (ValidationRead x)
                     | _ \<Rightarrow> Ok (Some (TailRecord x)), st, e))))"

definition scan_records ::
    "crc_fun \<Rightarrow> 'h \<Rightarrow> LogFileId \<Rightarrow> RecordEndLocation option \<Rightarrow> LogFilePosition \<Rightarrow> 'h env \<Rightarrow>
     ((LogScanResult, LogFileValidationError) outcome \<times> 'h env) option" where
  "scan_records crc32c source file_id last_trusted file_end e =
     (if (case last_trusted of None \<Rightarrow> False | Some end \<Rightarrow> end_log_file_id end \<noteq> file_id)
      then Some (Stop Panic, e)
      else
        map_option
          (\<lambda>(tail_error, st, e).
             (case tail_error of
                Err x \<Rightarrow> Err x
              | Stop s \<Rightarrow> Stop s
              | Ok tail \<Rightarrow>
                  Ok \<lparr>scan_validated_end = sc_validated_end st,
                      scan_suffix_ends = sc_suffix_ends st, scan_tail_error = tail\<rparr>, e))
          (scan_loop crc32c file_id file_end
             \<lparr>sc_count = (case last_trusted of None \<Rightarrow> 0
                          | Some end \<Rightarrow> record_count_through (end_record_id end)),
              sc_validated_end = last_trusted, sc_suffix_ends = []\<rparr>
             (RecordReader_new source) e))"

subsection \<open>Validation\<close>

definition log_truncate_and_sync ::
    "'h \<Rightarrow> LogScanResult \<Rightarrow> 'h env \<Rightarrow>
     ('h ValidatedLogFile, LogFileValidationError) outcome \<times> 'h env" where
  "log_truncate_and_sync file scan_results e =
     (case (if scan_tail_error scan_results = None then (Ok (), e)
            else
              (let valid_end = (case scan_validated_end scan_results of
                                  None \<Rightarrow> LogFilePosition_START | Some end \<Rightarrow> end_position end) in
               unit_call (SetLen file (LogFilePosition_get valid_end)) e)) of
        (Err x, e) \<Rightarrow> (Err (ValidationIo x), e)
      | (Stop s, e) \<Rightarrow> (Stop s, e)
      | (Ok _, e) \<Rightarrow>
          (case unit_call (SyncData file) e of
             (Err x, e) \<Rightarrow> (Err (ValidationIo x), e)
           | (Stop s, e) \<Rightarrow> (Stop s, e)
           | (Ok _, e) \<Rightarrow>
               (Ok \<lparr>vl_file = file, vl_validated_end = scan_validated_end scan_results,
                    vl_suffix_ends = scan_suffix_ends scan_results,
                    vl_removed_tail = scan_tail_error scan_results\<rparr>, e)))"

definition log_validate ::
    "crc_fun \<Rightarrow> 'h \<Rightarrow> LogFileId \<Rightarrow> RecordEndLocation option \<Rightarrow> 'h env \<Rightarrow>
     (('h ValidatedLogFile, LogFileValidationError) outcome \<times> 'h env) option" where
  "log_validate crc32c file file_id last_trusted e =
     (if (case last_trusted of None \<Rightarrow> False | Some end \<Rightarrow> end_log_file_id end \<noteq> file_id)
      then Some (Err (InvalidStart ''trusted endpoint belongs to another file''), e)
      else
        (case size_call (FileLength file) e of
           (Err x, e) \<Rightarrow> Some (Err (ValidationIo x), e)
         | (Stop s, e) \<Rightarrow> Some (Stop s, e)
         | (Ok len, e) \<Rightarrow>
             (let file_end = LogFilePosition_new len;
                  start_position = (case last_trusted of
                                      None \<Rightarrow> LogFilePosition_START | Some end \<Rightarrow> end_position end);
                  trusted_count = (case last_trusted of
                                     None \<Rightarrow> 0 | Some end \<Rightarrow> record_count_through (end_record_id end));
                  lowest = LogFilePosition_new (trusted_count * RecordLength_get RecordLength_MIN);
                  highest = LogFilePosition_new (trusted_count * RecordLength_get RecordLength_MAX) in
              if start_position > file_end \<or> \<not> (lowest \<le> start_position \<and> start_position \<le> highest)
              then Some (Err (InvalidStart
                     ''position is outside the possible trusted record extent''), e)
              else
                (case size_call (Seek file (LogFilePosition_get start_position)) e of
                   (Err x, e) \<Rightarrow> Some (Err (ValidationIo x), e)
                 | (Stop s, e) \<Rightarrow> Some (Stop s, e)
                 | (Ok _, e) \<Rightarrow>
                     (case scan_records crc32c file file_id last_trusted file_end e of
                        None \<Rightarrow> None
                      | Some (Err x, e) \<Rightarrow> Some (Err x, e)
                      | Some (Stop s, e) \<Rightarrow> Some (Stop s, e)
                      | Some (Ok scan_results, e) \<Rightarrow>
                          Some (log_truncate_and_sync file scan_results e))))))"

subsection \<open>Specification of the accepted records\<close>

text \<open>
  \<open>accept_frames ro room fs\<close>: the longest prefix of \<open>fs\<close> of at most \<open>room\<close> frames whose ids are
  consecutive, starting with \<open>ro\<close>.
\<close>

definition frame_id :: "bytes \<Rightarrow> RecordId" where
  "frame_id f = Record_id (from_validated_bytes f)"

primrec accept_frames :: "RecordId option \<Rightarrow> nat \<Rightarrow> bytes list \<Rightarrow> bytes list" where
  "accept_frames ro room [] = []"
| "accept_frames ro room (f # fs) =
     (if 0 < room \<and> ro = Some (frame_id f)
      then f # accept_frames (RecordId_next (frame_id f)) (room - 1) fs else [])"

primrec consecutive :: "RecordId option \<Rightarrow> bytes list \<Rightarrow> bool" where
  "consecutive ro [] = True"
| "consecutive ro (f # fs) \<longleftrightarrow> ro = Some (frame_id f) \<and> consecutive (RecordId_next (frame_id f)) fs"

definition next_id :: "RecordId option \<Rightarrow> bytes list \<Rightarrow> RecordId option" where
  "next_id ro fs = (if fs = [] then ro else RecordId_next (frame_id (last fs)))"

lemma next_id_simps [simp]:
  "next_id ro [] = ro" "next_id ro (fs @ [f]) = RecordId_next (frame_id f)"
  by (simp_all add: next_id_def)

lemma next_id_Cons: "next_id ro (f # fs) = next_id (RecordId_next (frame_id f)) fs"
  by (simp add: next_id_def)

lemma consecutive_append:
  "consecutive ro (fs @ gs) \<longleftrightarrow> consecutive ro fs \<and> consecutive (next_id ro fs) gs"
  by (induction fs arbitrary: ro) (auto simp: next_id_Cons)

lemma accept_consecutive:
  "consecutive ro fs \<Longrightarrow> length fs \<le> room \<Longrightarrow>
   accept_frames ro room (fs @ gs) = fs @ accept_frames (next_id ro fs) (room - length fs) gs"
  by (induction fs arbitrary: ro room) (auto simp: next_id_Cons)

lemma accept_frames_prefix: "prefix (accept_frames ro room fs) fs"
  by (induction fs arbitrary: ro room) auto

lemma accept_frames_sound:
  "consecutive ro (accept_frames ro room fs) \<and> length (accept_frames ro room fs) \<le> room"
proof (induction fs arbitrary: ro room)
  case (Cons f fs)
  show ?case using Cons [of "RecordId_next (frame_id f)" "room - 1"] by auto
qed simp

definition end_of :: "RecordEndLocation option \<Rightarrow> bytes list \<Rightarrow> RecordEndLocation option" where
  "end_of b fs =
     (if fs = [] then b
      else Some (RecordEndLocation_new (frame_id (last fs))
             (LogFilePosition (of_nat (base_pos b + length (concat fs))))))"

definition first_expected :: "LogFileId \<Rightarrow> RecordEndLocation option \<Rightarrow> RecordId option" where
  "first_expected f b =
     (case b of None \<Rightarrow> Some (first_record_id f) | Some end \<Rightarrow> RecordId_next (end_record_id end))"

subsection \<open>The invariant of the scan\<close>

definition scan_inv ::
    "LogFileId \<Rightarrow> RecordEndLocation option \<Rightarrow> scan_state \<Rightarrow> bytes list \<Rightarrow> bool" where
  "scan_inv f b st fs \<longleftrightarrow>
     unat (sc_count st) = trusted_count b + length fs \<and> trusted_count b + length fs \<le> 100000 \<and>
     consecutive (first_expected f b) fs \<and>
     sc_suffix_ends st = map (\<lambda>n. LogFilePosition (of_nat n)) (frame_ends (base_pos b) fs) \<and>
     sc_validated_end st = end_of b fs \<and> base_pos b + length (concat fs) < 2 ^ 64"

lemma scan_start_inv:
  assumes "scan_inv f b st fs"
  shows "\<exists>q. scan_start f (sc_validated_end st) =
      map_option (\<lambda>i. RecordStartLocation_new i q) (next_id (first_expected f b) fs) \<and>
    pos_nat q = base_pos b + length (concat fs)"
proof (cases fs rule: rev_cases)
  case Nil
  then show ?thesis using assms
    by (cases b) (auto simp: scan_inv_def end_of_def scan_start_def first_expected_def base_pos_def)
next
  case (snoc gs g)
  have "pos_nat (LogFilePosition (of_nat (base_pos b + length (concat fs)))) = base_pos b + length (concat fs)"
    using assms by (intro pos_nat_of_nat) (simp add: scan_inv_def)
  then show ?thesis using assms snoc
    by (auto simp: scan_inv_def end_of_def scan_start_def)
qed

lemma scan_inv_room: "scan_inv f b st fs \<Longrightarrow> sc_count st < RECORDS_PER_FILE \<longleftrightarrow> trusted_count b + length fs < 100000"
  by (simp add: scan_inv_def word_less_nat_alt)

lemma scan_inv_full: "scan_inv f b st fs \<Longrightarrow> sc_count st = RECORDS_PER_FILE \<longleftrightarrow> trusted_count b + length fs = 100000"
  unfolding scan_inv_def by (metis unat_RECORDS_PER_FILE unsigned_word_eqI)

lemma scan_inv_step:
  assumes inv: "scan_inv f b st fs" and room: "sc_count st < RECORDS_PER_FILE"
    and id: "next_id (first_expected f b) fs = Some (frame_id g)"
    and q: "pos_nat q = base_pos b + length (concat fs)" and v: "valid_frame c g"
    and adv: "to_end (RecordStartLocation_new (frame_id g) q) (Record_length (from_validated_bytes g)) = Some end"
  shows "scan_inv f b
    (st\<lparr>sc_validated_end := Some end, sc_suffix_ends := sc_suffix_ends st @ [end_position end],
        sc_count := sc_count st + 1\<rparr>) (fs @ [g])"
proof -
  have len: "unat (RecordLength_get (Record_length (from_validated_bytes g))) = length g"
    using valid_frame_length [OF v] by (simp add: from_validated_bytes_def)
  have endb: "end = RecordEndLocation_new (frame_id g) (LogFilePosition (of_nat (base_pos b + length (concat fs) + length g)))"
      "base_pos b + length (concat fs) + length g < 2 ^ 64"
    using adv by (auto simp: to_end_def advance_cases len q split: if_splits)
  have cnt: "unat (sc_count st + 1) = Suc (unat (sc_count st))" "unat (sc_count st) < 100000"
    using count_step [OF room] by simp_all
  show ?thesis using inv id endb cnt
    by (simp add: scan_inv_def consecutive_append frame_ends_append end_of_def add.assoc)
qed

text \<open>One turn of the drain loop on a valid frame \<open>g\<close>.\<close>

lemma drain_batch_turn:
  assumes inv: "scan_inv f b st fs" and room: "sc_count st < RECORDS_PER_FILE"
    and read: "try_read_next r = (Ok (Some (from_validated_bytes g)), r1)" and v: "valid_frame c g"
  obtains (panic) "drain_batch f st r = (Stop Panic, st, r1)"
    | (unexpected) i where "drain_batch f st r = (Ok (Some (TailUnexpectedRecordId i (frame_id g))), st, r1)"
        "i \<noteq> frame_id g" "next_id (first_expected f b) fs = Some i"
    | (accept) st1 where "drain_batch f st r = drain_batch f st1 r1" "scan_inv f b st1 (fs @ [g])"
        "100000 - unat (sc_count st1) < 100000 - unat (sc_count st)"
proof -
  obtain q where q: "scan_start f (sc_validated_end st) =
      map_option (\<lambda>i. RecordStartLocation_new i q) (next_id (first_expected f b) fs)"
      "pos_nat q = base_pos b + length (concat fs)"
    using scan_start_inv [OF inv] by blast
  let ?rec = "from_validated_bytes g"
  have fid: "Record_id ?rec = frame_id g" by (simp add: frame_id_def)
  note turn = drain_batch.simps [of f st r]
  consider (none) "next_id (first_expected f b) fs = None"
    | (other) i where "next_id (first_expected f b) fs = Some i" "i \<noteq> frame_id g"
    | (overflow) "next_id (first_expected f b) fs = Some (frame_id g)"
        "to_end (RecordStartLocation_new (frame_id g) q) (Record_length ?rec) = None"
    | (fits) x where "next_id (first_expected f b) fs = Some (frame_id g)"
        "to_end (RecordStartLocation_new (frame_id g) q) (Record_length ?rec) = Some x"
    by (metis not_None_eq)
  then show ?thesis
  proof cases
    case none
    then show ?thesis using room read q by (intro panic) (simp add: turn)
  next
    case other
    then show ?thesis using room read q fid by (intro unexpected [of i]) (simp_all add: turn)
  next
    case overflow
    then show ?thesis using room read q fid by (intro panic) (simp add: turn)
  next
    case fits
    let ?st = "st\<lparr>sc_validated_end := Some x, sc_suffix_ends := sc_suffix_ends st @ [end_position x],
        sc_count := sc_count st + 1\<rparr>"
    have "drain_batch f st r = drain_batch f ?st r1" using room read q fid fits by (simp add: turn)
    moreover have "scan_inv f b ?st (fs @ [g])" using scan_inv_step [OF inv room _ q(2) v] fits by simp
    moreover have "100000 - unat (sc_count ?st) < 100000 - unat (sc_count st)" using count_step [OF room] by auto
    ultimately show ?thesis by (rule accept)
  qed
qed

text \<open>What a drain has done when it returns: \<open>gs\<close> are the frames it accepted behind \<open>fs\<close>.\<close>

definition drained ::
    "LogFileId \<Rightarrow> RecordEndLocation option \<Rightarrow> crc_fun \<Rightarrow> scan_state \<Rightarrow> 'h RecordReader \<Rightarrow> bytes list \<Rightarrow> bytes list \<Rightarrow>
     (LogTailError option, LogFileValidationError) outcome \<Rightarrow> 'h RecordReader \<Rightarrow> bool" where
  "drained f b c st r fs gs res r' \<longleftrightarrow>
     (case res of
        Ok None \<Rightarrow> unread r = concat gs @ unread r' \<and>
          (rd_batch r \<noteq> [] \<and> sc_count st < RECORDS_PER_FILE \<longrightarrow> gs \<noteq> [])
      | Ok (Some t) \<Rightarrow> (\<exists>g i. valid_frame c g \<and> unread r = concat gs @ g @ unread r' \<and>
          t = TailUnexpectedRecordId i (frame_id g) \<and> i \<noteq> frame_id g \<and>
          next_id (first_expected f b) (fs @ gs) = Some i)
      | Err _ \<Rightarrow> False
      | Stop s \<Rightarrow> s = Panic)"

lemma drained_Cons:
  assumes "drained f b c st1 r1 (fs @ [g]) gs res r'" and "unread r = g @ unread r1"
  shows "drained f b c st r fs (g # gs) res r'"
  using assms by (auto simp: drained_def split: outcome.splits option.splits)

lemma drain_batch_spec:
  "drain_batch f st r = (res, st', r') \<Longrightarrow> scan_inv f b st fs \<Longrightarrow> reader_inv c r \<Longrightarrow>
   rd_state r \<noteq> StateFailed \<Longrightarrow>
   \<exists>gs. scan_inv f b st' (fs @ gs) \<and> all_valid c gs \<and> reader_inv c r' \<and> rd_state r' = rd_state r \<and>
     rd_source r' = rd_source r \<and> drained f b c st r fs gs res r'"
proof (induction "100000 - unat (sc_count st)" arbitrary: st r fs rule: less_induct)
  case less
  note inv = less.prems(2)
  consider (full) "\<not> sc_count st < RECORDS_PER_FILE"
    | (none) "sc_count st < RECORDS_PER_FILE" "rd_batch r = []" "try_read_next r = (Ok None, r)"
    | (some) g r1 where "sc_count st < RECORDS_PER_FILE"
        "try_read_next r = (Ok (Some (from_validated_bytes g)), r1)" "valid_frame c g"
        "unread r = g @ unread r1" "reader_inv c r1" "rd_state r1 = rd_state r" "rd_source r1 = rd_source r"
    using try_read_next_spec [OF less.prems(3,4)] by blast
  then show ?case
  proof cases
    case full
    then have "res = Ok None" "st' = st" "r' = r" using less.prems(1) by (simp_all add: drain_batch.simps [of f st r])
    then show ?thesis using less.prems full by (intro exI [of _ "[]"]) (simp add: drained_def)
  next
    case none
    then have "res = Ok None" "st' = st" "r' = r" using less.prems(1) by (simp_all add: drain_batch.simps [of f st r])
    then show ?thesis using less.prems none by (intro exI [of _ "[]"]) (simp add: drained_def)
  next
    case some
    show ?thesis
    proof (rule drain_batch_turn [OF inv some(1-3)])
      assume "drain_batch f st r = (Stop Panic, st, r1)"
      then show ?thesis using inv some less.prems(1) by (intro exI [of _ "[]"]) (simp add: drained_def)
    next
      fix i assume "drain_batch f st r = (Ok (Some (TailUnexpectedRecordId i (frame_id g))), st, r1)"
        "i \<noteq> frame_id g" "next_id (first_expected f b) fs = Some i"
      then show ?thesis using inv some less.prems(1) by (intro exI [of _ "[]"]) (auto simp: drained_def)
    next
      fix st1 assume turn: "drain_batch f st r = drain_batch f st1 r1"
        and st1: "scan_inv f b st1 (fs @ [g])" "100000 - unat (sc_count st1) < 100000 - unat (sc_count st)"
      have "drain_batch f st1 r1 = (res, st', r')" "rd_state r1 \<noteq> StateFailed"
        using turn less.prems(1,4) some(6) by simp_all
      from less.hyps [OF st1(2) this(1) st1(1) some(5) this(2)] obtain gs where
        "scan_inv f b st' ((fs @ [g]) @ gs)" "all_valid c gs" "reader_inv c r'" "rd_state r' = rd_state r1"
        "rd_source r' = rd_source r1" "drained f b c st1 r1 (fs @ [g]) gs res r'" by blast
      then show ?thesis using some drained_Cons [of f b c st1 r1 fs g gs res r' r st]
        by (intro exI [of _ "g # gs"]) simp
    qed
  qed
qed

subsection \<open>What the scan finds\<close>

text \<open>
  \<open>fs\<close> are all accepted frames and \<open>rest\<close> the bytes received behind them.
\<close>

definition scan_post ::
    "crc_fun \<Rightarrow> 'h \<Rightarrow> LogFileId \<Rightarrow> RecordEndLocation option \<Rightarrow> LogFilePosition \<Rightarrow> bytes list \<Rightarrow> bytes \<Rightarrow>
     ('h call \<times> 'h answer) list \<Rightarrow> (LogTailError option, LogFileValidationError) outcome \<Rightarrow> bool" where
  "scan_post c h f b file_end fs rest evs res \<longleftrightarrow>
     (let full = (trusted_count b + length fs = 100000);
          here = base_pos b + length (concat fs) in
      case res of
        Ok None \<Rightarrow> rest = [] \<and> at_eof h evs \<or> full \<and> pos_nat file_end \<le> here
      | Ok (Some ExtraData) \<Rightarrow> full \<and> here < pos_nat file_end
      | Ok (Some (TailUnexpectedRecordId i j)) \<Rightarrow>
          (\<exists>g tl. rest = g @ tl \<and> valid_frame c g \<and> j = frame_id g \<and> i \<noteq> j \<and>
             next_id (first_expected f b) fs = Some i)
      | Ok (Some (TailRecord x)) \<Rightarrow>
          check_frame c rest = BadFrame x \<or>
          check_frame c rest = NeedMore \<and> rest \<noteq> [] \<and> x = truncation rest \<and> at_eof h evs
      | Err x \<Rightarrow> (\<exists>y. x = ValidationRead (ReadIo y))
      | Stop s \<Rightarrow> s = Cancelled \<or> s = Panic)"

lemma at_eof_append: "at_eof h evs \<Longrightarrow> at_eof h (xs @ evs)"
  by (induction xs) (auto intro: at_eof_Cons)

lemma scan_post_append:
  "scan_post c h f b file_end fs rest evs res \<Longrightarrow> scan_post c h f b file_end fs rest (xs @ evs) res"
  by (auto simp: scan_post_def Let_def at_eof_append
      split: outcome.splits option.splits LogTailError.splits)

lemma end_of_position:
  assumes "scan_inv f b st fs" and "sc_validated_end st = Some end"
  shows "pos_nat (end_position end) = base_pos b + length (concat fs)"
proof (cases "fs = []")
  case True
  then have "b = Some end" using assms by (simp add: scan_inv_def end_of_def)
  then show ?thesis using True by (simp add: base_pos_def)
next
  case False
  have "pos_nat (LogFilePosition (of_nat (base_pos b + length (concat fs)))) = base_pos b + length (concat fs)"
    using assms by (intro pos_nat_of_nat) (simp add: scan_inv_def)
  then show ?thesis using assms False by (auto simp: scan_inv_def end_of_def)
qed

lemma bad_frame_not_reader_failed: "check_frame c bs \<noteq> BadFrame ReaderFailed \<and> check_frame c bs \<noteq> BadFrame (ReadIo y)"
  by (auto simp: check_frame_def Let_def)

lemma scan_error_post:
  assumes w: "wait_error c h rest evs x" and inv: "scan_inv f b st fs"
  shows "scan_post c h f b file_end fs rest evs
    (case x of ReadIo y \<Rightarrow> Err (ValidationRead x) | ReaderFailed \<Rightarrow> Err (ValidationRead x)
     | _ \<Rightarrow> Ok (Some (TailRecord x)))"
  using w bad_frame_not_reader_failed [of c rest]
  by (cases x) (auto simp: wait_error_def scan_post_def Let_def truncation_def split: if_splits)

text \<open>What a scan from \<open>st\<close>, \<open>r\<close> and \<open>e\<close> has done when it returns.\<close>

definition scan_run ::
    "crc_fun \<Rightarrow> LogFileId \<Rightarrow> RecordEndLocation option \<Rightarrow> LogFilePosition \<Rightarrow> 'h RecordReader \<Rightarrow> 'h env \<Rightarrow> bytes list \<Rightarrow>
     (LogTailError option, LogFileValidationError) outcome \<times> scan_state \<times> 'h env \<Rightarrow> bool" where
  "scan_run c f b file_end r e fs z \<longleftrightarrow>
     (case z of (res, st', e') \<Rightarrow>
        \<exists>gs evs rest. trace e' = trace e @ evs \<and> reads_on (rd_source r) evs \<and> scan_inv f b st' (fs @ gs) \<and>
          all_valid c gs \<and> ((\<forall>s. res \<noteq> Stop s) \<longrightarrow> unread r @ received (rd_source r) evs = concat gs @ rest) \<and>
          scan_post c (rd_source r) f b file_end (fs @ gs) rest evs res)"

lemma scanned_now:
  assumes "trace e' = trace e @ evs" "reads_on (rd_source r) evs" "scan_inv f b st' (fs @ gs)" "all_valid c gs"
    and "unread r @ received (rd_source r) evs = concat gs @ rest"
    and "scan_post c (rd_source r) f b file_end (fs @ gs) rest evs res"
  shows "scan_run c f b file_end r e fs (res, st', e')"
  using assms unfolding scan_run_def by auto

lemma scanned_step:
  assumes later: "scan_run c f b file_end r2 e1 (fs @ gs) z"
    and now: "trace e1 = trace e @ evs" "reads_on (rd_source r) evs" "all_valid c gs" "rd_source r2 = rd_source r"
      "unread r @ received (rd_source r) evs = concat gs @ unread r2"
  shows "scan_run c f b file_end r e fs z"
proof -
  obtain res st' e' where z: "z = (res, st', e')" by (metis surj_pair)
  obtain gs' evs' rest where l: "trace e' = trace e1 @ evs'" "reads_on (rd_source r) evs'"
      "scan_inv f b st' ((fs @ gs) @ gs')" "all_valid c gs'"
      "(\<forall>s. res \<noteq> Stop s) \<longrightarrow> unread r2 @ received (rd_source r) evs' = concat gs' @ rest"
      "scan_post c (rd_source r) f b file_end ((fs @ gs) @ gs') rest evs' res"
    using later unfolding scan_run_def z now(4) by blast
  have all: "unread r @ received (rd_source r) (evs @ evs') = concat gs @ (unread r2 @ received (rd_source r) evs')"
    using arg_cong [OF now(5), of "\<lambda>xs. xs @ received (rd_source r) evs'"] by simp
  have u: "(\<forall>s. res \<noteq> Stop s) \<longrightarrow>
      unread r @ received (rd_source r) (evs @ evs') = concat (gs @ gs') @ rest"
    unfolding all using l(5) by simp
  show ?thesis unfolding scan_run_def z prod.case
    by (intro exI [of _ "gs @ gs'"] exI [of _ "evs @ evs'"] exI [of _ rest] conjI)
       (use u l now scan_post_append [OF l(6), of evs] in simp_all)
qed

text \<open>One turn of the scan loop: it returns, or it has accepted frames and goes on.\<close>

lemma scan_loop_full:
  assumes inv: "scan_inv f b st fs" and full: "sc_count st = RECORDS_PER_FILE"
  shows "\<exists>z. scan_loop c f file_end st r e = Some z \<and> scan_run c f b file_end r e fs z"
proof -
  have n: "trusted_count b + length fs = 100000" using scan_inv_full [OF inv] full by simp
  then obtain x where e: "sc_validated_end st = Some x"
    using inv by (cases "end_of b fs") (auto simp: scan_inv_def end_of_def trusted_count_def split: if_splits option.splits)
  let ?res = "Ok (if end_position x < file_end then Some ExtraData else None)"
  have "scan_loop c f file_end st r e = Some (?res, st, e)"
    using full e by (simp add: scan_loop.simps [of c f file_end st])
  moreover have "scan_run c f b file_end r e fs (?res, st, e)"
    using inv n end_of_position [OF inv e]
    by (intro scanned_now [where evs = "[]" and gs = "[]" and rest = "unread r"])
       (simp_all add: scan_post_def Let_def pos_less_iff)
  ultimately show ?thesis by blast
qed

lemma scan_loop_drained:
  assumes inv: "scan_inv f b st1 (fs @ gs)" and v: "all_valid c gs"
    and tr: "trace e1 = trace e @ evs" "reads_on (rd_source r) evs"
    and u: "unread r @ received (rd_source r) evs = unread r1"
    and d: "drained f b c st r1 fs gs d r2" "d \<noteq> Ok None"
  shows "scan_run c f b file_end r e fs (d, st1, e1)"
proof -
  consider (stop) "d = Stop Panic" | (tail) g i where "d = Ok (Some (TailUnexpectedRecordId i (frame_id g)))"
      "valid_frame c g" "unread r1 = concat gs @ g @ unread r2" "i \<noteq> frame_id g"
      "next_id (first_expected f b) (fs @ gs) = Some i"
    using d by (auto simp: drained_def split: outcome.splits option.splits)
  then show ?thesis
  proof cases
    case stop
    have "scan_post c (rd_source r) f b file_end (fs @ gs) [] evs d" using stop by (simp add: scan_post_def)
    then show ?thesis unfolding scan_run_def prod.case using tr inv v stop by blast
  next
    case tail
    then show ?thesis using tr inv v u
      by (intro scanned_now [where gs = gs and rest = "g @ unread r2"]) (auto simp: scan_post_def Let_def)
  qed
qed

lemma scan_loop_turn:
  assumes inv: "scan_inv f b st fs" and ri: "reader_inv c r" and act: "rd_state r = StateActive"
    and notfull: "sc_count st \<noteq> RECORDS_PER_FILE"
  obtains (returns) z where "scan_loop c f file_end st r e = Some z" "scan_run c f b file_end r e fs z"
    | (goes_on) st1 r2 e1 gs evs where "scan_loop c f file_end st r e = scan_loop c f file_end st1 r2 e1"
        "scan_inv f b st1 (fs @ gs)" "gs \<noteq> []" "reader_inv c r2" "rd_state r2 = StateActive" "trace e1 = trace e @ evs"
        "reads_on (rd_source r) evs" "all_valid c gs" "rd_source r2 = rd_source r"
        "unread r @ received (rd_source r) evs = concat gs @ unread r2"
proof -
  have room: "sc_count st < RECORDS_PER_FILE"
    using scan_inv_room [OF inv] scan_inv_full [OF inv] inv notfull by (auto simp: scan_inv_def)
  obtain w r1 e1 where wait: "wait_to_read c r e = (w, r1, e1)" by (metis surj_pair)
  obtain evs where spec: "trace e1 = trace e @ evs" "reads_on (rd_source r) evs" "rd_source r1 = rd_source r"
      "unread r1 = unread r @ received (rd_source r) evs" "reader_inv c r1" "wait_post c r1 w evs"
    using wait_to_read_spec [OF wait ri act] by blast
  note turn = scan_loop.simps [of c f file_end st]
  note now = scanned_now [where r = r and e = e and e' = e1 and st' = st and evs = evs and gs = "[]", OF spec(1,2)]
  consider (stop) s where "w = Stop s" | (err) x where "w = Err x" | (eof) "w = Ok False" | (ready) "w = Ok True"
    by (cases w) auto
  then show ?thesis
  proof cases
    case stop
    then show ?thesis using notfull wait spec inv
      by (intro returns [of "(Stop s, st, e1)"] now [where rest = "unread r1"])
         (simp_all add: turn scan_post_def wait_post_def)
  next
    case err
    let ?res = "case x of ReadIo y \<Rightarrow> Err (ValidationRead x) | ReaderFailed \<Rightarrow> Err (ValidationRead x)
         | _ \<Rightarrow> Ok (Some (TailRecord x))"
    have "scan_post c (rd_source r) f b file_end fs (unread r1) evs ?res"
      using spec(3,6) err by (intro scan_error_post [OF _ inv]) (simp add: wait_post_def)
    then show ?thesis using notfull wait spec inv err
      by (intro returns [of "(?res, st, e1)"] now [where rest = "unread r1"]) (simp_all add: turn)
  next
    case eof
    then show ?thesis using notfull wait spec inv
      by (intro returns [of "(Ok None, st, e1)"] now [where rest = "[]"])
         (simp_all add: turn scan_post_def wait_post_def Let_def)
  next
    case ready
    then have r1: "rd_batch r1 \<noteq> []" "rd_state r1 = StateActive" using spec(6) by (simp_all add: wait_post_def)
    obtain d st1 r2 where drain: "drain_batch f st r1 = (d, st1, r2)" by (metis surj_pair)
    obtain gs where gs: "scan_inv f b st1 (fs @ gs)" "all_valid c gs" "reader_inv c r2" "rd_state r2 = rd_state r1"
        "rd_source r2 = rd_source r1" "drained f b c st r1 fs gs d r2"
      using drain_batch_spec [OF drain inv spec(5)] r1 by auto
    have step: "scan_loop c f file_end st r e =
        (case d of Ok None \<Rightarrow> scan_loop c f file_end st1 r2 e1 | _ \<Rightarrow> Some (d, st1, e1))"
      using notfull wait ready drain by (simp add: turn)
    show ?thesis
    proof (cases "d = Ok None")
      case True
      then have "unread r1 = concat gs @ unread r2" "gs \<noteq> []" using gs(6) r1(1) room by (auto simp: drained_def)
      then show ?thesis using step True gs spec r1 by (intro goes_on [of st1 r2 e1 gs evs]) simp_all
    next
      case False
      then have "scan_loop c f file_end st r e = Some (d, st1, e1)"
        using step by (auto split: outcome.splits option.splits)
      then show ?thesis
        using scan_loop_drained [OF gs(1,2) spec(1,2) spec(4) [symmetric] gs(6) False] by (rule returns)
    qed
  qed
qed

lemma scan_loop_scanned:
  "scan_inv f b st fs \<Longrightarrow> reader_inv c r \<Longrightarrow> rd_state r = StateActive \<Longrightarrow>
   \<exists>z. scan_loop c f file_end st r e = Some z \<and> scan_run c f b file_end r e fs z"
proof (induction "100000 - unat (sc_count st)" arbitrary: st r e fs rule: less_induct)
  case less
  show ?case
  proof (cases "sc_count st = RECORDS_PER_FILE")
    case True
    then show ?thesis by (rule scan_loop_full [OF less.prems(1)])
  next
    case False
    show ?thesis
    proof (rule scan_loop_turn [OF less.prems False, of file_end e])
      fix z assume "scan_loop c f file_end st r e = Some z" "scan_run c f b file_end r e fs z"
      then show ?thesis by blast
    next
      fix st1 r2 e1 gs evs
      assume turn: "scan_loop c f file_end st r e = scan_loop c f file_end st1 r2 e1"
        and st1: "scan_inv f b st1 (fs @ gs)" "gs \<noteq> []" and r2: "reader_inv c r2" "rd_state r2 = StateActive"
        and now: "trace e1 = trace e @ evs" "reads_on (rd_source r) evs" "all_valid c gs" "rd_source r2 = rd_source r"
          "unread r @ received (rd_source r) evs = concat gs @ unread r2"
      have "unat (sc_count st1) = unat (sc_count st) + length gs" "unat (sc_count st1) \<le> 100000"
        using st1(1) less.prems(1) by (simp_all add: scan_inv_def)
      moreover have "0 < length gs" using st1(2) by simp
      ultimately have "100000 - unat (sc_count st1) < 100000 - unat (sc_count st)" by linarith
      from less.hyps [OF this st1(1) r2] obtain z where
        "scan_loop c f file_end st1 r2 e1 = Some z" "scan_run c f b file_end r2 e1 (fs @ gs) z" by blast
      then show ?thesis using turn scanned_step [OF _ now] by auto
    qed
  qed
qed

lemma scan_loop_spec:
  assumes "scan_inv f b st fs" "reader_inv c r" "rd_state r = StateActive" "rd_source r = h"
  shows "\<exists>res st' e' gs evs rest. scan_loop c f file_end st r e = Some (res, st', e') \<and>
     trace e' = trace e @ evs \<and> reads_on h evs \<and> scan_inv f b st' (fs @ gs) \<and> all_valid c gs \<and>
     ((\<forall>s. res \<noteq> Stop s) \<longrightarrow> unread r @ received h evs = concat gs @ rest) \<and>
     scan_post c h f b file_end (fs @ gs) rest evs res"
  using scan_loop_scanned [OF assms(1-3), of file_end e] assms(4) unfolding scan_run_def by fastforce

subsection \<open>Validation of a file\<close>

lemma accept_frames_0 [simp]: "accept_frames ro 0 fs = []"
  by (cases fs) simp_all

text \<open>
  \<open>ext\<close> are the bytes behind those that the scan received; there are none when it saw the end.
\<close>

lemma scan_accepts:
  assumes inv: "scan_inv f b st fs" and v: "all_valid c fs"
    and post: "scan_post c h f b file_end fs rest evs (Ok tail)" and eof: "at_eof h evs \<Longrightarrow> ext = []"
  shows "accept_frames (first_expected f b) (100000 - trusted_count b)
      (fst (parse_frames c (concat fs @ rest @ ext))) = fs"
proof -
  let ?more = "fst (parse_frames c (rest @ ext))"
  have room: "length fs \<le> 100000 - trusted_count b" and con: "consecutive (first_expected f b) fs"
    using inv by (auto simp: scan_inv_def)
  have "accept_frames (first_expected f b) (100000 - trusted_count b) (fst (parse_frames c (concat fs @ rest @ ext))) =
      fs @ accept_frames (next_id (first_expected f b) fs) (100000 - trusted_count b - length fs) ?more"
    using parse_frames_concat [OF v, of "rest @ ext"] accept_consecutive [OF con room] by simp
  moreover have "accept_frames (next_id (first_expected f b) fs) (100000 - trusted_count b - length fs) ?more = []"
  proof -
    consider "rest = []" "at_eof h evs" | "trusted_count b + length fs = 100000"
      | g tl i where "rest = g @ tl" "valid_frame c g" "i \<noteq> frame_id g" "next_id (first_expected f b) fs = Some i"
      | x where "check_frame c rest = BadFrame x"
      | "check_frame c rest = NeedMore" "at_eof h evs"
      using post by (auto simp: scan_post_def Let_def split: option.splits LogTailError.splits)
    then show ?thesis
    proof cases
      case 1
      then show ?thesis using eof by simp
    next
      case 2
      then have "100000 - trusted_count b - length fs = 0" by simp
      then show ?thesis by (simp only: accept_frames_0)
    next
      case 3
      then show ?thesis by (simp add: parse_frames_valid_Cons)
    next
      case 4
      then have "check_frame c (rest @ ext) = BadFrame x" by (rule check_frame_bad_append)
      then show ?thesis by (simp add: parse_frames_stuck)
    next
      case 5
      then show ?thesis using eof by (simp add: parse_frames_stuck)
    qed
  qed
  ultimately show ?thesis by simp
qed

lemma scan_tail_iff:
  assumes post: "scan_post c h f b file_end fs rest evs (Ok tail)" and eof: "at_eof h evs \<Longrightarrow> ext = []"
    and fe: "pos_nat file_end = base_pos b + length (concat fs @ rest @ ext)"
  shows "tail = None \<longleftrightarrow> rest @ ext = []"
proof (cases tail)
  case None
  then show ?thesis using post eof fe by (auto simp: scan_post_def Let_def)
next
  case (Some t)
  have "rest @ ext \<noteq> []"
  proof (cases t)
    case (TailRecord x)
    then show ?thesis using post Some by (auto simp: scan_post_def Let_def)
  next
    case (TailUnexpectedRecordId i j)
    then show ?thesis using post Some by (auto simp: scan_post_def Let_def dest: valid_frame_length_bounds)
  next
    case ExtraData
    then have "base_pos b + length (concat fs) < pos_nat file_end" using post Some by (simp add: scan_post_def Let_def)
    then have "0 < length (rest @ ext)" using fe by simp
    then show ?thesis by (simp only: length_greater_0_conv not_False_eq_True)
  qed
  with Some show ?thesis by simp
qed

lemma base_pos_less: "base_pos b < 2 ^ 64"
  by (cases b) (use pos_nat_bound in \<open>simp_all add: base_pos_def\<close>)

lemma scan_inv_start:
  "scan_inv f b \<lparr>sc_count = (case b of None \<Rightarrow> 0 | Some end \<Rightarrow> record_count_through (end_record_id end)),
     sc_validated_end = b, sc_suffix_ends = []\<rparr> []"
  using trusted_count_le [of b] base_pos_less [of b]
  by (auto simp: scan_inv_def trusted_count_def end_of_def frame_ends_def split: option.splits)

text \<open>A scan that ends with findings had no failed read.\<close>

lemma scan_loop_undisturbed:
  "scan_loop c f file_end st r e = Some z \<Longrightarrow> \<exists>evs. trace (snd (snd z)) = trace e @ evs \<and>
     (undisturbed evs \<or> \<not> is_ok (fst z))"
proof (induction rule: scan_loop.raw_induct [rotated, consumes 1, case_names turn])
  case (turn scan c f file_end st r e z)
  obtain w r1 e1 where wait: "wait_to_read c r e = (w, r1, e1)" by (metis surj_pair)
  obtain evs where evs: "trace e1 = trace e @ evs"
      "undisturbed evs \<or> (\<exists>s. w = Stop s) \<or> (\<exists>x. w = Err (ReadIo x))"
    using wait_to_read_undisturbed [OF wait] by blast
  obtain d st1 r2 where drain: "drain_batch f st r1 = (d, st1, r2)" by (metis surj_pair)
  consider (again) "w = Ok True" "scan c f file_end st1 r2 e1 = Some z"
    | (now) "snd (snd z) = e" "\<not> is_ok (fst z) \<or> sc_count st = RECORDS_PER_FILE"
    | (here) "snd (snd z) = e1" "undisturbed evs \<or> \<not> is_ok (fst z)"
    using turn.prems turn.hyps wait drain evs(2)
    by (auto simp: is_ok_iff split: if_splits option.splits outcome.splits bool.splits RecordReadError.splits)
  then show ?case
  proof cases
    case again
    then show ?thesis using turn.IH [OF again(2)] evs by auto
  qed (use evs(1) in auto)
qed

lemma scan_records_spec:
  assumes "case b of None \<Rightarrow> True | Some end \<Rightarrow> end_log_file_id end = f"
  shows "\<exists>res e' evs. scan_records c h f b file_end e = Some (res, e') \<and>
    trace e' = trace e @ evs \<and> reads_on h evs \<and>
    (case res of
       Ok sr \<Rightarrow> undisturbed evs \<and>
         (\<exists>st fs rest. scan_inv f b st fs \<and> all_valid c fs \<and> received h evs = concat fs @ rest \<and>
         scan_post c h f b file_end fs rest evs (Ok (scan_tail_error sr)) \<and>
         scan_validated_end sr = sc_validated_end st \<and> scan_suffix_ends sr = sc_suffix_ends st)
     | Err x \<Rightarrow> (\<exists>y. x = ValidationRead (ReadIo y))
     | Stop s \<Rightarrow> s = Cancelled \<or> s = Panic)"
proof -
  let ?st = "\<lparr>sc_count = (case b of None \<Rightarrow> 0 | Some end \<Rightarrow> record_count_through (end_record_id end)),
     sc_validated_end = b, sc_suffix_ends = []\<rparr>"
  have act: "rd_state (RecordReader_new h) = StateActive" "rd_source (RecordReader_new h) = h"
    by (simp_all add: RecordReader_new_def)
  obtain res st' e' gs evs rest where l: "scan_loop c f file_end ?st (RecordReader_new h) e = Some (res, st', e')"
      "trace e' = trace e @ evs" "reads_on h evs" "scan_inv f b st' gs" "all_valid c gs"
      "(\<forall>s. res \<noteq> Stop s) \<longrightarrow> received h evs = concat gs @ rest"
      "scan_post c h f b file_end gs rest evs res"
    using scan_loop_spec [OF scan_inv_start reader_inv_new act] by (simp only: unread_new append_Nil) blast
  have n: "\<not> (case b of None \<Rightarrow> False | Some end \<Rightarrow> end_log_file_id end \<noteq> f)"
    using assms by (simp split: option.splits)
  show ?thesis
  proof (cases res)
    case (Ok tail)
    then have "scan_records c h f b file_end e = Some (Ok \<lparr>scan_validated_end = sc_validated_end st',
        scan_suffix_ends = sc_suffix_ends st', scan_tail_error = tail\<rparr>, e')"
      using l(1) n by (simp add: scan_records_def)
    moreover have "undisturbed evs" using scan_loop_undisturbed [OF l(1)] l(2) Ok by simp
    ultimately show ?thesis using l Ok by fastforce
  next
    case (Err x)
    then have "scan_records c h f b file_end e = Some (Err x, e')" using l(1) n by (simp add: scan_records_def)
    then show ?thesis using l Err by (simp add: scan_post_def)
  next
    case (Stop x)
    then have "scan_records c h f b file_end e = Some (Stop x, e')" using l(1) n by (simp add: scan_records_def)
    then show ?thesis using l Stop by (simp add: scan_post_def)
  qed
qed

text \<open>Until the scan has ended with findings, validation only reads.\<close>

fun only_looks :: "'h \<Rightarrow> 'h call \<Rightarrow> bool" where
  "only_looks h (FileLength h') = (h' = h)"
| "only_looks h (Seek h' _) = (h' = h)"
| "only_looks h (ReadBuf h' _) = (h' = h)"
| "only_looks h _ = False"

lemma only_looks_on_handle: "only_looks h c \<Longrightarrow> on_handle h c"
  by (cases c) auto

lemma reads_only_look: "reads_on h evs \<Longrightarrow> \<forall>ev\<in>set evs. only_looks h (fst ev)"
  by (auto simp: reads_on_def)

definition scanned ::
    "crc_fun \<Rightarrow> 'h \<Rightarrow> LogFileId \<Rightarrow> RecordEndLocation option \<Rightarrow> ('h call \<times> 'h answer) list \<Rightarrow>
     LogScanResult \<Rightarrow> bool" where
  "scanned c h f b evs sr \<longleftrightarrow>
     (\<exists>len m reads st fs rest.
        evs = (FileLength h, Ready (Size len)) # (Seek h (of_nat (base_pos b)), Ready (Size m)) # reads \<and>
        base_pos b \<le> unat len \<and> reads_on h reads \<and> undisturbed reads \<and> scan_inv f b st fs \<and> all_valid c fs \<and>
        received h reads = concat fs @ rest \<and>
        scan_post c h f b (LogFilePosition_new len) fs rest reads (Ok (scan_tail_error sr)) \<and>
        scan_validated_end sr = sc_validated_end st \<and> scan_suffix_ends sr = sc_suffix_ends st)"

text \<open>The truncation and synchronization that follow a scan with findings.\<close>

lemma log_truncate_and_sync_trace:
  assumes "log_truncate_and_sync h sr e = (res, e')"
  shows "\<exists>tr. trace e' = trace e @ tr \<and> (\<forall>x. res \<noteq> Err (ValidationRead x)) \<and> (\<forall>x. res \<noteq> Err (InvalidStart x)) \<and>
    (\<exists>a. tr = [(SyncData h, a)] \<or>
      tr = [(SetLen h (of_nat (base_pos (scan_validated_end sr))), a)] \<or>
      tr = [(SetLen h (of_nat (base_pos (scan_validated_end sr))), Ready Unit), (SyncData h, a)])"
proof -
  let ?n = "of_nat (base_pos (scan_validated_end sr)) :: u64"
  let ?p = "case scan_validated_end sr of None \<Rightarrow> LogFilePosition_START | Some end \<Rightarrow> end_position end"
  have p: "LogFilePosition_get ?p = ?n"
    by (auto simp: base_pos_def pos_nat_def LogFilePosition_START_def split: option.splits)
  note eq = assms [unfolded log_truncate_and_sync_def Let_def p]
  show ?thesis
  proof (cases "scan_tail_error sr = None")
    case True
    obtain r1 e1 where c: "unit_call (SyncData h) e = (r1, e1)" by fastforce
    then show ?thesis using eq True typed_call_trace [OF c] by (cases r1) auto
  next
    case False
    obtain r1 e1 where c1: "unit_call (SetLen h ?n) e = (r1, e1)" by fastforce
    note t1 = unit_call_trace [OF c1]
    show ?thesis
    proof (cases r1)
      case (Ok u)
      obtain r2 e2 where c2: "unit_call (SyncData h) e1 = (r2, e2)" by fastforce
      have "e' = e2 \<and> (\<forall>x. res \<noteq> Err (ValidationRead x)) \<and> (\<forall>x. res \<noteq> Err (InvalidStart x))"
        using eq False c1 Ok c2 by (cases r2) auto
      then show ?thesis using t1 Ok typed_call_trace [OF c2] by auto
    qed (use eq False c1 t1 in auto)
  qed
qed

lemma scanned_looks:
  "scanned c h f b looks sr \<Longrightarrow> (\<forall>ev\<in>set looks. only_looks h (fst ev)) \<and> undisturbed looks"
  unfolding scanned_def by (elim exE conjE) (simp add: reads_only_look)

text \<open>Validation up to the scan: it ends early, having only looked at the file, or scans.\<close>

lemma log_validate_prologue:
  obtains (early) res e' evs where "log_validate c h f b e = Some (res, e')" "trace e' = trace e @ evs"
    "\<forall>ev\<in>set evs. only_looks h (fst ev)" "\<forall>v. res \<noteq> Ok v"
  | (scan) len m e2 where "case b of None \<Rightarrow> True | Some end \<Rightarrow> end_log_file_id end = f"
    "trace e2 = trace e @ [(FileLength h, Ready (Size len)), (Seek h (of_nat (base_pos b)), Ready (Size m))]"
    "base_pos b \<le> unat len"
    "log_validate c h f b e =
       (case scan_records c h f b (LogFilePosition_new len) e2 of
          None \<Rightarrow> None
        | Some (Err x, e) \<Rightarrow> Some (Err x, e)
        | Some (Stop s, e) \<Rightarrow> Some (Stop s, e)
        | Some (Ok scan_results, e) \<Rightarrow> Some (log_truncate_and_sync h scan_results e))"
proof -
  define st where "st = (case b of None \<Rightarrow> LogFilePosition_START | Some end \<Rightarrow> end_position end)"
  have st: "pos_nat st = base_pos b" "LogFilePosition_get st = of_nat (base_pos b)"
    by (auto simp: st_def base_pos_def pos_nat_def LogFilePosition_START_def split: option.splits)
  note eq = log_validate_def [of c h f b e, folded st_def]
  show thesis
  proof (cases "case b of None \<Rightarrow> False | Some end \<Rightarrow> end_log_file_id end \<noteq> f")
    case True
    then show thesis using early [of _ e "[]"] by (simp add: eq)
  next
    case False
    then have bf: "case b of None \<Rightarrow> True | Some end \<Rightarrow> end_log_file_id end = f" by (simp split: option.splits)
    note eq = eq [unfolded if_not_P [OF False]]
    define bad where "bad len \<longleftrightarrow> st > LogFilePosition_new len \<or> \<not> (LogFilePosition_new
          ((case b of None \<Rightarrow> 0 | Some end \<Rightarrow> record_count_through (end_record_id end)) * RecordLength_get RecordLength_MIN) \<le> st \<and>
        st \<le> LogFilePosition_new
          ((case b of None \<Rightarrow> 0 | Some end \<Rightarrow> record_count_through (end_record_id end)) * RecordLength_get RecordLength_MAX))" for len
    note eq = eq [unfolded if_not_P [OF False] Let_def, folded bad_def, unfolded st(2)]
    obtain r1 e1 where c1: "size_call (FileLength h) e = (r1, e1)" by fastforce
    obtain a1 where t1: "trace e1 = trace e @ [(FileLength h, a1)]" using typed_call_trace [OF c1] by blast
    obtain r2 e2 where c2: "size_call (Seek h (of_nat (base_pos b))) e1 = (r2, e2)" by fastforce
    obtain a2 where t2: "trace e2 = trace e @ [(FileLength h, a1), (Seek h (of_nat (base_pos b)), a2)]"
      using typed_call_trace [OF c2] t1 by auto
    note early1 = early [OF _ t1] and early2 = early [OF _ t2]
    show thesis
    proof (cases "\<exists>len m. r1 = Ok len \<and> \<not> bad len \<and> r2 = Ok m")
      case True
      then obtain len m where ok: "r1 = Ok len" "\<not> bad len" "r2 = Ok m" by blast
      have "base_pos b \<le> unat len" using ok(2) st(1) by (auto simp: bad_def pos_less_iff)
      moreover have "a1 = Ready (Size len)" "a2 = Ready (Size m)"
        using typed_call_Ok [OF c1 [unfolded ok(1)]] typed_call_Ok [OF c2 [unfolded ok(3)]] t1 t2 by simp_all
      ultimately show thesis using scan [OF bf] t2 c1 c2 ok by (simp add: eq)
    next
      case no: False
      show thesis
      proof (cases r1)
        case len: (Ok len)
        show thesis
        proof (cases "bad len")
          case True
          then show thesis using c1 len early1 by (simp add: eq)
        next
          case False
          then show thesis using c1 len c2 no early2 by (cases r2) (simp_all add: eq)
        qed
      qed (use c1 early1 in \<open>simp_all add: eq\<close>)
    qed
  qed
qed

lemma log_validate_cases:
  obtains (early) res e' evs where "log_validate c h f b e = Some (res, e')" "trace e' = trace e @ evs"
    "\<forall>ev\<in>set evs. only_looks h (fst ev)" "\<forall>v. res \<noteq> Ok v"
  | (found) res e' sr e1 looks where "log_validate c h f b e = Some (res, e')" "trace e1 = trace e @ looks"
    "scanned c h f b looks sr" "log_truncate_and_sync h sr e1 = (res, e')"
proof (cases rule: log_validate_prologue [of c h f b e])
  case (early res e' evs)
  then show thesis using that(1) by blast
next
  case (scan len m e2)
  obtain res e3 evs where s: "scan_records c h f b (LogFilePosition_new len) e2 = Some (res, e3)"
      "trace e3 = trace e2 @ evs" "reads_on h evs" and r:
      "case res of
        Ok sr \<Rightarrow> undisturbed evs \<and>
          (\<exists>st fs rest. scan_inv f b st fs \<and> all_valid c fs \<and> received h evs = concat fs @ rest \<and>
          scan_post c h f b (LogFilePosition_new len) fs rest evs (Ok (scan_tail_error sr)) \<and>
          scan_validated_end sr = sc_validated_end st \<and> scan_suffix_ends sr = sc_suffix_ends st)
      | Err x \<Rightarrow> (\<exists>y. x = ValidationRead (ReadIo y))
      | Stop s \<Rightarrow> s = Cancelled \<or> s = Panic"
    using scan_records_spec [OF scan(1), of c h "LogFilePosition_new len" e2] by (elim exE conjE) (rule that)
  let ?evs = "(FileLength h, Ready (Size len)) # (Seek h (of_nat (base_pos b)), Ready (Size m)) # evs"
  have t3: "trace e3 = trace e @ ?evs" using scan(2) s(2) by simp
  have looks: "\<forall>ev\<in>set ?evs. only_looks h (fst ev)" using reads_only_look [OF s(3)] by simp
  show thesis
  proof (cases res)
    case (Ok sr)
    then have "scanned c h f b ?evs sr" using scan(3) s(3) r unfolding scanned_def by auto
    moreover obtain res' e' where "log_truncate_and_sync h sr e3 = (res', e')" by fastforce
    ultimately show thesis using that(2) [OF _ t3] scan(4) s(1) Ok by simp
  next
    case (Err x)
    then show thesis using that(1) [OF _ t3 looks] scan(4) s(1) by simp
  next
    case (Stop x)
    then show thesis using that(1) [OF _ t3 looks] scan(4) s(1) by simp
  qed
qed

lemma log_truncate_and_sync_Ok:
  assumes "log_truncate_and_sync h sr e = (Ok v, e')"
  shows "v = \<lparr>vl_file = h, vl_validated_end = scan_validated_end sr,
              vl_suffix_ends = scan_suffix_ends sr, vl_removed_tail = scan_tail_error sr\<rparr> \<and>
    trace e' = trace e @
      (if scan_tail_error sr = None then []
       else [(SetLen h (of_nat (base_pos (scan_validated_end sr))), Ready Unit)]) @
      [(SyncData h, Ready Unit)]"
proof -
  let ?p = "case scan_validated_end sr of None \<Rightarrow> LogFilePosition_START | Some end \<Rightarrow> end_position end"
  have p: "LogFilePosition_get ?p = of_nat (base_pos (scan_validated_end sr))"
    by (auto simp: base_pos_def pos_nat_def LogFilePosition_START_def split: option.splits)
  show ?thesis
  proof (cases "scan_tail_error sr")
    case None
    then obtain u where u: "unit_call (SyncData h) e = (Ok u, e')"
      using assms by (auto simp: log_truncate_and_sync_def split: prod.splits outcome.splits)
    then show ?thesis using typed_call_Ok [OF u] None assms
      by (auto simp: log_truncate_and_sync_def)
  next
    case (Some t)
    then obtain u1 e1 u where u: "unit_call (SetLen h (of_nat (base_pos (scan_validated_end sr)))) e = (Ok u1, e1)"
        "unit_call (SyncData h) e1 = (Ok u, e')"
      using assms unfolding log_truncate_and_sync_def Let_def p
      by (auto split: prod.splits outcome.splits)
    then show ?thesis using typed_call_Ok [OF u(1)] typed_call_Ok [OF u(2)] Some assms
      unfolding log_truncate_and_sync_def Let_def p by auto
  qed
qed

subsection \<open>Validation on a file\<close>

text \<open>The frames that validation accepts in a file with content \<open>bs\<close>.\<close>

definition accepted_frames ::
    "crc_fun \<Rightarrow> LogFileId \<Rightarrow> RecordEndLocation option \<Rightarrow> bytes \<Rightarrow> bytes list" where
  "accepted_frames c f b bs =
     accept_frames (first_expected f b) (100000 - trusted_count b)
       (fst (parse_frames c (drop (base_pos b) bs)))"

lemma base_pos_end_of:
  "base_pos b + length (concat fs) < 2 ^ 64 \<Longrightarrow> base_pos (end_of b fs) = base_pos b + length (concat fs)"
  using pos_nat_of_nat [of "base_pos b + length (concat fs)"]
  by (auto simp: end_of_def base_pos_def [of "Some _"] simp del: of_nat_add)

lemma scanned_file:
  assumes "scanned c h f b looks sr" and "replay h looks s = Some s1"
  shows "content s1 = content s \<and> synced s1 = synced s \<and>
    scan_validated_end sr = end_of b (accepted_frames c f b (content s)) \<and>
    scan_suffix_ends sr =
      map (\<lambda>n. LogFilePosition (of_nat n)) (frame_ends (base_pos b) (accepted_frames c f b (content s))) \<and>
    base_pos (scan_validated_end sr) = base_pos b + length (concat (accepted_frames c f b (content s))) \<and>
    (\<exists>tl. content s = take (base_pos b) (content s) @ concat (accepted_frames c f b (content s)) @ tl \<and>
       base_pos b \<le> length (content s) \<and> (scan_tail_error sr = None \<longleftrightarrow> tl = []))"
proof -
  obtain len m reads st fs rest where
    looks: "looks = (FileLength h, Ready (Size len)) # (Seek h (of_nat (base_pos b)), Ready (Size m)) # reads" and
    le: "base_pos b \<le> unat len" and reads: "reads_on h reads" and inv: "scan_inv f b st fs" and
    v: "all_valid c fs" and got: "received h reads = concat fs @ rest" and
    post: "scan_post c h f b (LogFilePosition_new len) fs rest reads (Ok (scan_tail_error sr))" and
    sr: "scan_validated_end sr = sc_validated_end st" "scan_suffix_ends sr = sc_suffix_ends st"
    using assms(1) unfolding scanned_def by blast
  let ?s0 = "s\<lparr>cursor := base_pos b\<rparr>"
  have "unat (of_nat (base_pos b) :: u64) = base_pos b" using base_pos_less [of b]
    by (simp add: unat_of_nat)
  then have len: "unat len = length (content s)" and rp: "replay h reads ?s0 = Some s1"
    using assms(2) looks by (auto split: if_splits)
  have r: "content s1 = content s" "synced s1 = synced s" "prefix (received h reads) (drop (base_pos b) (content s))"
    using replay_reads [OF reads rp] by simp_all
  obtain ext where ext: "drop (base_pos b) (content s) = concat fs @ rest @ ext"
    using r(3) got by (auto simp: prefix_def)
  have eof: "at_eof h reads \<Longrightarrow> ext = []"
    using replay_at_eof [OF reads _ rp] got ext by auto
  have fs: "accepted_frames c f b (content s) = fs"
    unfolding accepted_frames_def ext using scan_accepts [OF inv v post eof] by simp
  have "length (content s) = base_pos b + length (concat fs @ rest @ ext)"
    using arg_cong [OF ext, of length] le len by simp
  then have "pos_nat (LogFilePosition_new len) = base_pos b + length (concat fs @ rest @ ext)"
    using len by (simp add: pos_nat_def LogFilePosition_new_def)
  from scan_tail_iff [OF post eof this] have tail: "scan_tail_error sr = None \<longleftrightarrow> rest @ ext = []" by simp
  have "content s = take (base_pos b) (content s) @ concat fs @ rest @ ext"
    using ext by (metis append_take_drop_id)
  then show ?thesis using r fs tail le len sr inv base_pos_end_of [of b fs] by (auto simp: scan_inv_def)
qed

lemma truncated_prefix:
  assumes "file = keep @ junk"
  shows "set_length (length keep) file = keep" and "keep = file \<longleftrightarrow> junk = []"
  using assms by (simp_all add: set_length_def)

lemma log_validate_trace:
  assumes "log_validate c h f b e = Some (Ok v, e')"
  shows "vl_file v = h \<and> (\<exists>evs. trace e' = trace e @ evs \<and> (\<forall>ev\<in>set evs. on_handle h (fst ev)))"
proof (cases rule: log_validate_cases [of c h f b e])
  case (early res e'' evs)
  then show ?thesis using assms by auto
next
  case (found res e'' sr e1 looks)
  then have "log_truncate_and_sync h sr e1 = (Ok v, e')" using assms by simp
  from log_truncate_and_sync_Ok [OF this] obtain evs where
    "vl_file v = h" "trace e' = trace e1 @ evs" "\<forall>ev\<in>set evs. on_handle h (fst ev)"
    by (cases "scan_tail_error sr = None") auto
  moreover have "\<forall>ev\<in>set looks. on_handle h (fst ev)"
    using scanned_looks [OF found(3)] only_looks_on_handle [of h] by blast
  ultimately show ?thesis using found(2) by auto
qed

text \<open>What a successful validation does to a file, at any point of a run.\<close>

lemma log_validate_file:
  assumes "log_validate c h f b e = Some (Ok v, e')" and "replay h (trace e') s0 = Some s'"
  shows "\<exists>s. replay h (trace e) s0 = Some s \<and>
    (let fs = accepted_frames c f b (content s) in
     base_pos b \<le> length (content s) \<and> base_pos (vl_validated_end v) = length (content s') \<and>
     content s' = take (base_pos b) (content s) @ concat fs \<and> prefix (content s') (content s) \<and>
     synced s' = content s' \<and> vl_file v = h \<and> vl_validated_end v = end_of b fs \<and>
     vl_suffix_ends v = map (\<lambda>n. LogFilePosition (of_nat n)) (frame_ends (base_pos b) fs) \<and>
     (vl_removed_tail v = None \<longleftrightarrow> content s' = content s))"
proof (cases rule: log_validate_cases [of c h f b e])
  case (early res e'' evs)
  then show ?thesis using assms(1) by auto
next
  case (found res e'' sr e1 looks)
  then have t: "log_truncate_and_sync h sr e1 = (Ok v, e')" and e1: "trace e1 = trace e @ looks"
    using assms(1) by simp_all
  note v = log_truncate_and_sync_Ok [OF t]
  obtain s s1 where s0: "replay h (trace e) s0 = Some s" and s1: "replay h looks s = Some s1"
    using assms(2) v e1 by (auto simp: replay_append split: option.splits)
  let ?fs = "accepted_frames c f b (content s)"
  note sf = scanned_file [OF found(3) s1]
  from sf obtain tl where tl: "content s = take (base_pos b) (content s) @ concat ?fs @ tl"
      "base_pos b \<le> length (content s)" "scan_tail_error sr = None \<longleftrightarrow> tl = []"
    by (elim conjE exE)
  let ?keep = "take (base_pos b) (content s) @ concat ?fs"
  from sf have "base_pos (scan_validated_end sr) = base_pos b + length (concat ?fs)" by (elim conjE)
  then have bp: "base_pos (scan_validated_end sr) = length ?keep" using tl(2) by simp
  have n: "unat (of_nat (base_pos (scan_validated_end sr)) :: u64) = length ?keep"
    using base_pos_less [of "scan_validated_end sr"] unfolding bp by (simp only: unat_of_nat) simp
  have keep: "set_length (length ?keep) (content s) = ?keep" "?keep = content s \<longleftrightarrow> tl = []"
    using tl(1) by (intro truncated_prefix [of _ _ tl], simp)+
  have "content s' = ?keep \<and> synced s' = ?keep"
  proof (cases "scan_tail_error sr")
    case None
    then show ?thesis using assms(2) v e1 s0 s1 sf keep tl(3) by (auto simp: replay_append)
  next
    case (Some t)
    then show ?thesis using assms(2) v e1 s0 s1 sf keep(1) n by (auto simp: replay_append)
  qed
  moreover have "prefix ?keep (content s)" using tl(1) by (metis append_assoc prefixI)
  ultimately have result: "let fs = accepted_frames c f b (content s) in
     base_pos b \<le> length (content s) \<and> base_pos (vl_validated_end v) = length (content s') \<and>
     content s' = take (base_pos b) (content s) @ concat fs \<and> prefix (content s') (content s) \<and>
     synced s' = content s' \<and> vl_file v = h \<and> vl_validated_end v = end_of b fs \<and>
     vl_suffix_ends v = map (\<lambda>n. LogFilePosition (of_nat n)) (frame_ends (base_pos b) fs) \<and>
     (vl_removed_tail v = None \<longleftrightarrow> content s' = content s)"
    using v sf keep(2) tl(2,3) bp by (auto simp: Let_def)
  then show ?thesis using s0 by blast
qed

subsection \<open>Properties\<close>

text \<open>
  C5. Log recovery, with every answer those of a file: validation that succeeds leaves the trusted
  prefix followed by the valid frames behind it, with consecutive ids, up to the first byte that
  does not continue that sequence, the end of the file or the end of the file's id range. All of
  it is synchronized; the reported end and the reported suffix ends are those of these frames, and
  a removed tail is reported exactly when the file was changed.
\<close>

theorem log_recovery_keeps_valid_prefix:
  assumes "log_validate c h f b (start_env answers) = Some (Ok v, e')"
    and "replay h (trace e') s = Some s'"
  shows "let fs = accepted_frames c f b (content s) in
    content s' = take (base_pos b) (content s) @ concat fs \<and> prefix (content s') (content s) \<and>
    synced s' = content s' \<and> vl_file v = h \<and> vl_validated_end v = end_of b fs \<and>
    vl_suffix_ends v = map (\<lambda>n. LogFilePosition (of_nat n)) (frame_ends (base_pos b) fs) \<and>
    (vl_removed_tail v = None \<longleftrightarrow> content s' = content s)"
  using log_validate_file [OF assms] by (auto simp: start_env_def Let_def)

text \<open>
  C11. The safety of truncation on every run, failed and cancelled ones included. A log is
  truncated at most once, after the validation has only looked at it and every one of its calls
  was answered or interrupted and repeated: never after a failed read, a rejected start or a call
  left pending. When the answers are those of a file, its content is unchanged until then and the
  truncation is at the end of the accepted frames.
\<close>

theorem truncation_removes_only_the_invalid_tail:
  assumes "log_validate c h f b (start_env answers) = Some (res, e')"
    and "trace e' = pre @ (SetLen h' n, a) # post"
  shows "h' = h \<and> (\<forall>ev\<in>set pre. only_looks h (fst ev)) \<and> undisturbed pre \<and>
    map fst post \<in> {[], [SyncData h]} \<and>
    (\<forall>x. res \<noteq> Err (ValidationRead x)) \<and> (\<forall>x. res \<noteq> Err (InvalidStart x)) \<and>
    (\<forall>s s1. replay h pre s = Some s1 \<longrightarrow> content s1 = content s \<and>
       unat n = base_pos b + length (concat (accepted_frames c f b (content s))))"
proof (cases rule: log_validate_cases [of c h f b "start_env answers"])
  case (early res e'' evs)
  then have "evs = pre @ (SetLen h' n, a) # post" using assms by (simp add: start_env_def)
  then have "(SetLen h' n, a) \<in> set evs" by simp
  with early(3) show ?thesis by fastforce
next
  case (found res' e'' sr e1 looks)
  then have t: "log_truncate_and_sync h sr e1 = (res, e')" and e1: "trace e1 = looks"
    using assms(1) by (simp_all add: start_env_def)
  have looks: "\<forall>ev\<in>set looks. only_looks h (fst ev)" "undisturbed looks"
    using scanned_looks [OF found(3)] by blast+
  let ?n = "of_nat (base_pos (scan_validated_end sr)) :: u64"
  obtain tr a' where tr: "trace e' = looks @ tr" "\<forall>x. res \<noteq> Err (ValidationRead x)" "\<forall>x. res \<noteq> Err (InvalidStart x)"
     "tr = [(SyncData h, a')] \<or> tr = [(SetLen h ?n, a')] \<or> tr = [(SetLen h ?n, Ready Unit), (SyncData h, a')]"
    using log_truncate_and_sync_trace [OF t] e1 by auto
  have "(SetLen h' n, a) \<notin> set looks" using looks by fastforce
  then obtain us where us: "pre = looks @ us" "tr = us @ (SetLen h' n, a) # post"
    using assms(2) tr(1) by (auto simp: append_eq_append_conv2 append_eq_Cons_conv Cons_eq_append_conv)
  then have "us = []" using tr(4) by (cases us) (auto simp: append_eq_Cons_conv)
  then have pre: "pre = looks" and p: "h' = h" "n = ?n" "map fst post \<in> {[], [SyncData h]}" using us tr(4) by auto
  have "unat ?n = base_pos (scan_validated_end sr)"
    using base_pos_less [of "scan_validated_end sr"] by (simp add: unat_of_nat)
  then have "\<forall>s s1. replay h pre s = Some s1 \<longrightarrow> content s1 = content s \<and>
      unat n = base_pos b + length (concat (accepted_frames c f b (content s)))"
    unfolding pre p(2) by (metis scanned_file [OF found(3)])
  then show ?thesis using pre p looks tr(2,3) by simp
qed

text \<open>
  Log validation always returns: with every file and every answer, the scan of a log ends.
\<close>

lemma log_validate_returns: "\<exists>res e'. log_validate c h f b e = Some (res, e')"
  by (cases rule: log_validate_cases [of c h f b e]) blast+

text \<open>
  A run: the trusted prefix of 20 bytes is followed by three bytes that are no record, which are
  removed.
\<close>

definition example_trusted :: RecordEndLocation where
  "example_trusted =
     RecordEndLocation_new (RecordId (StreamId 5) (SequenceNumber 0)) (LogFilePosition 20)"

definition example_log_answers :: "unit answer list" where
  "example_log_answers =
     [Ready (Size 23), Ready (Size 20), Ready (Bytes [1, 2, 3]), Ready (Bytes []), Ready Unit, Ready Unit]"

definition example_log_trace :: "(unit call \<times> unit answer) list" where
  "example_log_trace =
     [(FileLength (), Ready (Size 23)), (Seek () 20, Ready (Size 20)),
      (ReadBuf () 12, Ready (Bytes [1, 2, 3])), (ReadBuf () 9, Ready (Bytes [])),
      (SetLen () 20, Ready Unit), (SyncData (), Ready Unit)]"

lemma example_log_wait:
  "wait_to_read (\<lambda>_. 7) (RecordReader_new ())
     \<lparr>script = [Ready (Bytes [1, 2, 3]), Ready (Bytes []), Ready Unit, Ready Unit], trace = tr\<rparr> =
   (Err (TruncatedHeader 3),
    \<lparr>rd_source = (), rd_buffer = [1, 2, 3], rd_pending_length = None, rd_batch = [],
     rd_batch_offset = 0, rd_state = StateFailed\<rparr>,
    \<lparr>script = [Ready Unit, Ready Unit], trace = tr @ [(ReadBuf () 12, Ready (Bytes [1, 2, 3])),
       (ReadBuf () 9, Ready (Bytes []))]\<rparr>)"
  by code_simp simp

lemma example_extent:
  "\<not> LogFilePosition_new 23 < LogFilePosition 20"
  "LogFilePosition_new (record_count_through (RecordId (StreamId 5) (SequenceNumber 0)) * RecordLength_get RecordLength_MIN) \<le> LogFilePosition 20"
  "LogFilePosition 20 \<le> LogFilePosition_new (record_count_through (RecordId (StreamId 5) (SequenceNumber 0)) * RecordLength_get RecordLength_MAX)"
  by (simp_all add: less_LogFilePosition_def less_eq_LogFilePosition_def LogFilePosition_new_def
      record_count_through_def layout RecordLength_MIN_def RecordLength_MAX_def)

lemma example_scan:
  "scan_records (\<lambda>_. 7) () (from_record_id (end_record_id example_trusted)) (Some example_trusted)
     (LogFilePosition_new 23)
     \<lparr>script = [Ready (Bytes [1, 2, 3]), Ready (Bytes []), Ready Unit, Ready Unit], trace = tr\<rparr> =
   Some (Ok \<lparr>scan_validated_end = Some example_trusted, scan_suffix_ends = [],
             scan_tail_error = Some (TailRecord (TruncatedHeader 3))\<rparr>,
         \<lparr>script = [Ready Unit, Ready Unit], trace = tr @ [(ReadBuf () 12, Ready (Bytes [1, 2, 3])),
            (ReadBuf () 9, Ready (Bytes []))]\<rparr>)"
  by (simp add: scan_records_def end_log_file_id_def scan_loop.simps example_log_wait
      example_trusted_def record_count_through_def layout)

lemma example_log_run:
  "log_validate (\<lambda>_. 7) () (from_record_id (end_record_id example_trusted)) (Some example_trusted)
     (start_env example_log_answers) =
   Some (Ok \<lparr>vl_file = (), vl_validated_end = Some example_trusted, vl_suffix_ends = [],
             vl_removed_tail = Some (TailRecord (TruncatedHeader 3))\<rparr>,
         \<lparr>script = [], trace = example_log_trace\<rparr>)"
  using example_extent
  by (simp add: log_validate_def Let_def end_log_file_id_def typed_call_def start_env_def
      example_log_answers_def example_log_trace_def example_scan log_truncate_and_sync_def)
     (simp add: example_trusted_def)

lemma example_log_replay:
  "replay () example_log_trace \<lparr>content = replicate 20 9 @ [1, 2, 3], cursor = 0, synced = []\<rparr> =
   Some \<lparr>content = replicate 20 9, cursor = 23, synced = replicate 20 9\<rparr>"
  by (simp add: example_log_trace_def set_length_def prefix_def)

theorem log_recovery_keeps_valid_prefix_witness:
  "let s = \<lparr>content = replicate 20 9 @ [1, 2, 3], cursor = 0, synced = []\<rparr> in
   \<exists>v e' s'. log_validate (\<lambda>_. 7) () (from_record_id (end_record_id example_trusted)) (Some example_trusted)
       (start_env example_log_answers) = Some (Ok v, e') \<and>
     replay () (trace e') s = Some s' \<and> content s' = replicate 20 9 \<and> prefix (content s') (content s) \<and>
     synced s' = content s' \<and> vl_removed_tail v \<noteq> None"
  using log_recovery_keeps_valid_prefix [OF example_log_run, of _
      "\<lparr>content = replicate 20 9, cursor = 23, synced = replicate 20 9\<rparr>"] example_log_replay example_log_run
  by (simp add: Let_def)

theorem truncation_removes_only_the_invalid_tail_witness:
  "let s = \<lparr>content = replicate 20 9 @ [1, 2, 3], cursor = 0, synced = []\<rparr> in
   undisturbed (take 4 example_log_trace) \<and>
   unat (20 :: u64) = base_pos (Some example_trusted) + length (concat (accepted_frames (\<lambda>_. 7)
     (from_record_id (end_record_id example_trusted)) (Some example_trusted) (content s)))"
proof -
  let ?s = "\<lparr>content = replicate 20 9 @ [1, 2, 3], cursor = 0, synced = []\<rparr>"
  have "replay () (take 4 example_log_trace) ?s = Some (?s\<lparr>cursor := 23\<rparr>)"
    by (simp add: example_log_trace_def prefix_def)
  with truncation_removes_only_the_invalid_tail [OF example_log_run, of "take 4 example_log_trace" "()" 20
      "Ready Unit" "[(SyncData (), Ready Unit)]"]
  show ?thesis unfolding Let_def by (fastforce simp: example_log_trace_def)
qed

end
