(* ===== verification/IndexValidator.thy ===== *)
theory IndexValidator
  imports FileModel IndexWriter
begin

text \<open>
  \<^verbatim>\<open>validation/index_file_validator\<close>: startup validation of the trusted entry of one dense index
  file and the replacement of everything behind it.
\<close>

subsection \<open>The operation\<close>

datatype IndexFileValidationError =
    TooManyEntries u64 u64
  | TrustedIndexMismatch u64 LogFilePosition "LogFilePosition option"
  | IndexValidationIo io_error
  | IndexValidationWrite IndexWriteError

definition read_index_at ::
    "'h \<Rightarrow> u64 \<Rightarrow> 'h env \<Rightarrow> (LogFilePosition option, IndexFileValidationError) outcome \<times> 'h env" where
  "read_index_at file entry_index e =
     (let entry_start = entry_index * of_nat INDEX_ENTRY_LEN in
      case size_call (FileLength file) e of
        (Err x, e) \<Rightarrow> (Err (IndexValidationIo x), e)
      | (Stop s, e) \<Rightarrow> (Stop s, e)
      | (Ok len, e) \<Rightarrow>
          if len < entry_start + of_nat INDEX_ENTRY_LEN then (Ok None, e)
          else
            (case size_call (Seek file entry_start) e of
               (Err x, e) \<Rightarrow> (Err (IndexValidationIo x), e)
             | (Stop s, e) \<Rightarrow> (Stop s, e)
             | (Ok _, e) \<Rightarrow>
                 (case bytes_call (ReadExact file INDEX_ENTRY_LEN) e of
                    (Err x, e) \<Rightarrow> (Err (IndexValidationIo x), e)
                  | (Stop s, e) \<Rightarrow> (Stop s, e)
                  | (Ok bytes, e) \<Rightarrow> (Ok (Some (decode_position bytes)), e))))"

text \<open>\<^verbatim>\<open>for &end in suffix_ends\<close>\<close>

primrec write_entries ::
    "LogFilePosition list \<Rightarrow> 'h IndexWriter \<Rightarrow> (unit, IndexWriteError) outcome \<times> 'h IndexWriter" where
  "write_entries [] writer = (Ok (), writer)"
| "write_entries (end # suffix_ends) writer =
     (case iw_write end writer of
        (Ok _, writer) \<Rightarrow> write_entries suffix_ends writer
      | (Err x, writer) \<Rightarrow> (Err x, writer)
      | (Stop s, writer) \<Rightarrow> (Stop s, writer))"

text \<open>The replacement of the suffix, from \<^verbatim>\<open>set_len\<close> to the end of the operation.\<close>

definition replace_suffix ::
    "'h \<Rightarrow> u64 \<Rightarrow> LogFilePosition list \<Rightarrow> 'h env \<Rightarrow> ('h, IndexFileValidationError) outcome \<times> 'h env" where
  "replace_suffix file suffix_start suffix_ends e =
     (case unit_call (SetLen file suffix_start) e of
        (Err x, e) \<Rightarrow> (Err (IndexValidationIo x), e)
      | (Stop s, e) \<Rightarrow> (Stop s, e)
      | (Ok _, e) \<Rightarrow>
     (case size_call (Seek file suffix_start) e of
        (Err x, e) \<Rightarrow> (Err (IndexValidationIo x), e)
      | (Stop s, e) \<Rightarrow> (Stop s, e)
      | (Ok _, e) \<Rightarrow>
     (case write_entries suffix_ends (iw_with_file file) of
        (Err x, _) \<Rightarrow> (Err (IndexValidationWrite x), e)
      | (Stop s, _) \<Rightarrow> (Stop s, e)
      | (Ok _, writer) \<Rightarrow>
     (case iw_flush_buffer writer e of
        (Err x, _, e) \<Rightarrow> (Err (IndexValidationWrite x), e)
      | (Stop s, _, e) \<Rightarrow> (Stop s, e)
      | (Ok _, writer, e) \<Rightarrow>
     (case iw_flush writer e of
        (Err x, _, e) \<Rightarrow> (Err (IndexValidationWrite x), e)
      | (Stop s, _, e) \<Rightarrow> (Stop s, e)
      | (Ok _, _, e) \<Rightarrow>
     (case unit_call (SyncData file) e of
        (Err x, e) \<Rightarrow> (Err (IndexValidationIo x), e)
      | (Stop s, e) \<Rightarrow> (Stop s, e)
      | (Ok _, e) \<Rightarrow> (Ok file, e)))))))"

text \<open>
  The check of the trusted entry. A record's count within its file is at least one, so the entry's
  number does not wrap.
\<close>

definition check_trusted_entry ::
    "'h \<Rightarrow> RecordEndLocation option \<Rightarrow> 'h env \<Rightarrow> (unit, IndexFileValidationError) outcome \<times> 'h env" where
  "check_trusted_entry file last_trusted e =
     (case last_trusted of
        None \<Rightarrow> (Ok (), e)
      | Some end \<Rightarrow>
          (let entry_index = record_count_through (end_record_id end) - 1 in
           case read_index_at file entry_index e of
             (Err x, e) \<Rightarrow> (Err x, e)
           | (Stop s, e) \<Rightarrow> (Stop s, e)
           | (Ok actual_position, e) \<Rightarrow>
               if actual_position \<noteq> Some (end_position end)
               then (Err (TrustedIndexMismatch entry_index (end_position end) actual_position), e)
               else (Ok (), e)))"

definition index_validate ::
    "'h \<Rightarrow> RecordEndLocation option \<Rightarrow> LogFilePosition list \<Rightarrow> 'h env \<Rightarrow>
     ('h, IndexFileValidationError) outcome \<times> 'h env" where
  "index_validate file last_trusted suffix_ends e =
     (let trusted_entry_count = (case last_trusted of
                                   None \<Rightarrow> 0 | Some end \<Rightarrow> record_count_through (end_record_id end));
          entry_count = trusted_entry_count + of_nat (length suffix_ends) in
      if RECORDS_PER_FILE < entry_count
      then (Err (TooManyEntries entry_count RECORDS_PER_FILE), e)
      else
        (case check_trusted_entry file last_trusted e of
           (Err x, e) \<Rightarrow> (Err x, e)
         | (Stop s, e) \<Rightarrow> (Stop s, e)
         | (Ok _, e) \<Rightarrow>
             replace_suffix file (trusted_entry_count * of_nat INDEX_ENTRY_LEN) suffix_ends e))"

subsection \<open>The parts on a file\<close>

lemma write_entries_usable:
  "iw_usable w \<Longrightarrow> write_entries ends w =
     (Ok (), w\<lparr>iw_buffer := iw_buffer w @ concat (map encode_position ends)\<rparr>)"
  by (induction ends arbitrary: w) (simp_all add: iw_write_def iw_check_usable_def)

lemma write_at_nothing: "at \<le> length file \<Longrightarrow> write_at at [] file = file"
  by (simp add: write_at_def)

lemma replace_suffix_trace:
  assumes ok: "replace_suffix h start ends e = (Ok h', e')"
  shows "h' = h \<and> (\<exists>m evs. trace e' = trace e @ [(SetLen h start, Ready Unit), (Seek h start, Ready (Size m))] @ evs @
      [(Flush h, Ready Unit), (SyncData h, Ready Unit)] \<and>
    writes_on h evs \<and> accepted h evs = concat (map encode_position ends))"
proof -
  let ?w = "(iw_with_file h)\<lparr>iw_buffer := concat (map encode_position ends)\<rparr>"
  have w: "write_entries ends (iw_with_file h) = (Ok (), ?w)" "iw_usable ?w" "iw_file ?w = h"
    by (simp_all add: write_entries_usable iw_with_file_def)
  obtain u1 e1 where c1: "unit_call (SetLen h start) e = (Ok u1, e1)"
    using ok by (auto simp: replace_suffix_def split: prod.splits outcome.splits)
  obtain m e2 where c2: "size_call (Seek h start) e1 = (Ok m, e2)"
    using ok c1 by (auto simp: replace_suffix_def split: prod.splits outcome.splits)
  obtain u3 w3 e3 where c3: "iw_flush_buffer ?w e2 = (Ok u3, w3, e3)"
    using ok c1 c2 w(1) by (auto simp: replace_suffix_def split: prod.splits outcome.splits)
  obtain u4 w4 e4 where c4: "iw_flush w3 e3 = (Ok u4, w4, e4)"
    using ok c1 c2 w(1) c3 by (auto simp: replace_suffix_def split: prod.splits outcome.splits)
  obtain u5 where c5: "unit_call (SyncData h) e4 = (Ok u5, e')" and h: "h' = h"
    using ok c1 c2 w(1) c3 c4 by (auto simp: replace_suffix_def split: prod.splits outcome.splits)
  obtain evs n where b: "trace e3 = trace e2 @ evs" "writes_on h evs"
      "accepted h evs = take n (concat (map encode_position ends))" "iw_file w3 = h" "iw_usable w3"
      "n = length (concat (map encode_position ends))"
    using iw_flush_buffer_sends [OF w(2) c3] w(3) by auto
  have "trace e4 = trace e3 @ [(Flush h, Ready Unit)]"
    using index_output.flush_calls [OF b(5) c4] b(4) by auto
  then show ?thesis using typed_call_Ok [OF c1] typed_call_Ok [OF c2] typed_call_Ok [OF c5] b h by auto
qed

lemma replace_suffix_Ok:
  assumes ok: "replace_suffix h start ends e = (Ok h', e')"
    and rp: "replay h (trace e') s0 = Some s'"
  shows "\<exists>s. replay h (trace e) s0 = Some s \<and> synced s' = content s' \<and>
    content s' = set_length (unat start) (content s) @ concat (map encode_position ends)"
proof -
  obtain m evs where t: "trace e' = trace e @ [(SetLen h start, Ready Unit), (Seek h start, Ready (Size m))] @ evs @
      [(Flush h, Ready Unit), (SyncData h, Ready Unit)]" and w: "writes_on h evs"
      "accepted h evs = concat (map encode_position ends)"
    using replace_suffix_trace [OF ok] by blast
  then obtain s where tr: "replay h (trace e) s0 = Some s"
    using rp by (auto simp: replay_append split: option.splits)
  let ?s1 = "s\<lparr>content := set_length (unat start) (content s), cursor := unat start\<rparr>"
  obtain s2 where s2: "replay h evs ?s1 = Some s2"
      "replay h [(Flush h, Ready Unit), (SyncData h, Ready Unit)] s2 = Some s'"
    using rp tr t by (auto simp: replay_append split: if_splits option.splits)
  have "content s2 = content ?s1 @ accepted h evs \<and> cursor s2 = length (content s2)"
    using replay_writes [OF w(1) s2(1)] by (simp add: set_length_def)
  then show ?thesis using s2(2) w(2) tr by auto
qed

text \<open>The check of the trusted entry reads, and changes nothing.\<close>

fun only_reads :: "'h \<Rightarrow> 'h call \<Rightarrow> bool" where
  "only_reads h (FileLength h') = (h' = h)"
| "only_reads h (Seek h' _) = (h' = h)"
| "only_reads h (ReadExact h' _) = (h' = h)"
| "only_reads h _ = False"

lemma read_index_at_trace:
  assumes "read_index_at h i e = (r, e')"
  shows "\<exists>evs. trace e' = trace e @ evs \<and> (\<forall>ev\<in>set evs. only_reads h (fst ev)) \<and>
    (case r of
       Ok None \<Rightarrow> \<exists>len. evs = [(FileLength h, Ready (Size len))] \<and> len < i * 8 + 8
     | Ok (Some q) \<Rightarrow> \<exists>len m bs. evs = [(FileLength h, Ready (Size len)), (Seek h (i * 8), Ready (Size m)),
         (ReadExact h 8, Ready (Bytes bs))] \<and> \<not> len < i * 8 + 8 \<and> q = decode_position bs
     | Err x \<Rightarrow> \<exists>y. x = IndexValidationIo y
     | Stop s \<Rightarrow> True)"
proof -
  note eq = assms [unfolded read_index_at_def INDEX_ENTRY_LEN_value Let_def, simplified]
  obtain r1 e1 where c1: "size_call (FileLength h) e = (r1, e1)" by fastforce
  obtain r2 e2 where c2: "size_call (Seek h (i * 8)) e1 = (r2, e2)" by fastforce
  obtain r3 e3 where c3: "bytes_call (ReadExact h 8) e2 = (r3, e3)" by fastforce
  note t1 = typed_call_trace [OF c1] and t2 = typed_call_trace [OF c2] and t3 = typed_call_trace [OF c3]
  show ?thesis
  proof (cases r1)
    case len: (Ok len)
    note t1 = typed_call_Ok [OF c1 [unfolded len]]
    show ?thesis
    proof (cases "len < i * 8 + 8")
      case True
      then show ?thesis using eq c1 len t1 by auto
    next
      case False
      show ?thesis
      proof (cases r2)
        case m: (Ok m)
        note t2 = typed_call_Ok [OF c2 [unfolded m]]
        show ?thesis
        proof (cases r3)
          case (Ok bs)
          then show ?thesis using eq c1 len False c2 m c3 t1 t2 typed_call_Ok [OF c3 [unfolded Ok]] by auto
        qed (use eq c1 len False c2 m c3 t1 t2 t3 in auto)
      qed (use eq c1 len False c2 t1 t2 in auto)
    qed
  qed (use eq c1 t1 in auto)
qed

lemma entry_index:
  assumes "n = record_count_through rid"
  shows "unat ((n - 1) * 8) = (unat n - 1) * 8" "unat ((n - 1) * 8 + 8) = unat n * 8" "unat (n * 8) = unat n * 8"
    "0 < unat n"
proof -
  define k where "k = unat n"
  have k: "0 < k" "k \<le> 100000" using record_count_nat [of rid] record_count_le [of rid] assms by (simp_all add: k_def)
  have n: "n = of_nat k" by (simp add: k_def)
  have "(n - 1) * 8 = of_nat ((k - 1) * 8)" "(n - 1) * 8 + 8 = of_nat (k * 8)" "n * 8 = of_nat (k * 8)"
    using k(1) by (simp_all add: n algebra_simps of_nat_diff)
  then show "unat ((n - 1) * 8) = (unat n - 1) * 8" "unat ((n - 1) * 8 + 8) = unat n * 8"
      "unat (n * 8) = unat n * 8" "0 < unat n"
    using k by (simp_all only: unat_of_nat flip: k_def) simp_all
qed

lemma prefix_take: "prefix bs xs \<Longrightarrow> length bs = n \<Longrightarrow> take n xs = bs"
  by (auto simp: prefix_def)

lemma read_index_at_file:
  assumes "read_index_at h (n - 1) e = (Ok q, e')" and n: "n = record_count_through rid"
    and "replay h (trace e) s0 = Some s" and "replay h (trace e') s0 = Some s'"
  shows "content s' = content s \<and> synced s' = synced s \<and>
    q = (if unat n * 8 \<le> length (content s)
         then Some (decode_position (take 8 (drop ((unat n - 1) * 8) (content s)))) else None)"
  using read_index_at_trace [OF assms(1)] assms(3,4) entry_index [OF n]
  by (auto simp: replay_append word_less_nat_alt prefix_take split: if_splits option.splits)

lemma check_trusted_entry_file:
  assumes c: "check_trusted_entry h b e = (r, e')"
    and "replay h (trace e) s0 = Some s" and "replay h (trace e') s0 = Some s'"
  shows "case r of
      Ok _ \<Rightarrow> content s' = content s \<and> synced s' = synced s \<and>
        (\<forall>end. b = Some end \<longrightarrow> trusted_count b * 8 \<le> length (content s) \<and>
          decode_position (take 8 (drop ((trusted_count b - 1) * 8) (content s))) = end_position end)
    | Err (TrustedIndexMismatch i p a) \<Rightarrow> content s' = content s \<and> synced s' = synced s \<and>
        (\<exists>end. b = Some end \<and> p = end_position end \<and> a \<noteq> Some p \<and> Suc (unat i) = trusted_count b \<and>
          a = (if trusted_count b * 8 \<le> length (content s)
               then Some (decode_position (take 8 (drop ((trusted_count b - 1) * 8) (content s)))) else None))
    | Err (TooManyEntries _ _) \<Rightarrow> False | _ \<Rightarrow> True"
proof (cases b)
  case None
  then show ?thesis using assms by (auto simp: check_trusted_entry_def)
next
  case (Some t)
  define n where n: "n = record_count_through (end_record_id t)"
  have tc: "trusted_count b = unat n" using Some by (simp add: trusted_count_def n)
  have i: "Suc (unat (n - 1)) = unat n"
    using entry_index(4) [OF n] unat_minus_one [of n] by (metis Suc_pred' less_irrefl unat_0)
  obtain q e1 where q: "read_index_at h (n - 1) e = (q, e1)" by fastforce
  note eq = c [unfolded check_trusted_entry_def Some option.case Let_def, folded n, unfolded q prod.case]
  show ?thesis
  proof (cases q)
    case (Ok a)
    then have "e1 = e'" using eq by (auto split: if_splits)
    then show ?thesis using eq Ok Some tc i read_index_at_file [OF _ n assms(2,3)] q by (auto split: if_splits)
  next
    case (Err x)
    then show ?thesis using eq read_index_at_trace [OF q] by auto
  next
    case (Stop x)
    then show ?thesis using eq by auto
  qed
qed

lemma trusted_word:
  "unat (case b of None \<Rightarrow> 0 | Some end \<Rightarrow> record_count_through (end_record_id end)) = trusted_count b"
  by (simp add: trusted_count_def split: option.splits)

lemma entry_count:
  assumes "n < 2 ^ 60"
  shows "unat ((case b of None \<Rightarrow> 0 | Some end \<Rightarrow> record_count_through (end_record_id end)) + of_nat n) =
    trusted_count b + n"
proof -
  have n: "unat (of_nat n :: u64) = n" using assms by (simp add: unat_of_nat)
  have "unat (case b of None \<Rightarrow> 0 | Some end \<Rightarrow> record_count_through (end_record_id end)) +
      unat (of_nat n :: u64) < 2 ^ LENGTH(64)"
    unfolding trusted_word n using trusted_count_le [of b] assms by simp
  from unat_add_no_overflow [OF this] show ?thesis by (simp only: trusted_word n)
qed

lemma suffix_start:
  "unat ((case b of None \<Rightarrow> 0 | Some end \<Rightarrow> record_count_through (end_record_id end)) * of_nat INDEX_ENTRY_LEN) =
    trusted_count b * 8"
  using entry_index(3) [OF refl] by (cases b) (simp_all add: trusted_count_def layout)

lemma index_validate_eq:
  assumes "length ends < 2 ^ 60"
  shows "index_validate h b ends e =
    (let tc = case b of None \<Rightarrow> 0 | Some end \<Rightarrow> record_count_through (end_record_id end) in
     if 100000 < trusted_count b + length ends
     then (Err (TooManyEntries (tc + of_nat (length ends)) RECORDS_PER_FILE), e)
     else
       (case check_trusted_entry h b e of
          (Err x, e) \<Rightarrow> (Err x, e)
        | (Stop s, e) \<Rightarrow> (Stop s, e)
        | (Ok _, e) \<Rightarrow> replace_suffix h (tc * of_nat INDEX_ENTRY_LEN) ends e))"
  unfolding index_validate_def Let_def word_less_nat_alt entry_count [OF assms] unat_RECORDS_PER_FILE ..

lemma replace_suffix_Err: "replace_suffix h start ends e \<noteq> (Err (TooManyEntries n m), e')"
    "replace_suffix h start ends e \<noteq> (Err (TrustedIndexMismatch i p a), e')"
  by (auto simp: replace_suffix_def split: prod.splits outcome.splits)

lemma last_entry:
  assumes "Suc j * 8 \<le> length xs"
  shows "take 8 (drop ((Suc j - 1) * 8) (take (Suc j * 8) xs @ ys)) = take 8 (drop ((Suc j - 1) * 8) xs)"
  using assms by (simp add: drop_take)

lemma check_trusted_entry_trace:
  assumes "check_trusted_entry h b e = (r, e')"
  shows "\<exists>evs. trace e' = trace e @ evs \<and> (\<forall>ev\<in>set evs. on_handle h (fst ev))"
proof (cases b)
  case None
  then show ?thesis using assms by (simp add: check_trusted_entry_def)
next
  case (Some t)
  obtain q e1 where q: "read_index_at h (record_count_through (end_record_id t) - 1) e = (q, e1)" by fastforce
  have "e1 = e'" using assms q Some by (cases q) (auto simp: check_trusted_entry_def Let_def split: if_splits)
  moreover have "only_reads h c \<Longrightarrow> on_handle h c" for c by (cases c) auto
  ultimately show ?thesis using read_index_at_trace [OF q] by blast
qed

lemma index_validate_trace:
  assumes "index_validate h b ends e = (Ok h', e')"
  shows "h' = h \<and> (\<exists>evs. trace e' = trace e @ evs \<and> (\<forall>ev\<in>set evs. on_handle h (fst ev)))"
proof -
  obtain r e1 where c: "check_trusted_entry h b e = (r, e1)" by fastforce
  obtain start where "replace_suffix h start ends e1 = (Ok h', e')"
    using assms c by (cases r) (auto simp: index_validate_def Let_def split: if_splits)
  from replace_suffix_trace [OF this] obtain m evs where t: "h' = h" "writes_on h evs"
      "trace e' = trace e1 @ [(SetLen h start, Ready Unit), (Seek h start, Ready (Size m))] @ evs @
        [(Flush h, Ready Unit), (SyncData h, Ready Unit)]" by blast
  moreover have "\<forall>ev\<in>set evs. on_handle h (fst ev)" using t(2) by (auto simp: writes_on_def)
  ultimately show ?thesis using check_trusted_entry_trace [OF c] by auto
qed

text \<open>What a successful validation does to a file, at any point of a run.\<close>

lemma index_validate_file:
  assumes "index_validate h b ends e = (Ok h', e')"
    and "replay h (trace e') s0 = Some s'" and "length ends < 2 ^ 60"
  shows "\<exists>s. replay h (trace e) s0 = Some s \<and> h' = h \<and> trusted_count b + length ends \<le> 100000 \<and>
    content s' = take (trusted_count b * 8) (content s) @ concat (map encode_position ends) \<and>
    trusted_count b * 8 \<le> length (content s) \<and> synced s' = content s' \<and>
    (\<forall>end. b = Some end \<longrightarrow>
      decode_position (take 8 (drop ((trusted_count b - 1) * 8) (content s'))) = end_position end)"
proof -
  note eq = assms(1) [unfolded index_validate_eq [OF assms(3)] Let_def]
  have room: "trusted_count b + length ends \<le> 100000" using eq by (auto split: if_splits)
  obtain r e1 where c: "check_trusted_entry h b e = (r, e1)" by fastforce
  obtain u where r: "r = Ok u" using eq c room by (cases r) auto
  have ok: "replace_suffix h ((case b of None \<Rightarrow> 0 | Some end \<Rightarrow> record_count_through (end_record_id end)) *
      of_nat INDEX_ENTRY_LEN) ends e1 = (Ok h', e')"
    using eq c room r by simp
  from replace_suffix_Ok [OF this assms(2)] obtain s1 where s1: "replay h (trace e1) s0 = Some s1"
      "synced s' = content s'"
      "content s' = set_length (trusted_count b * 8) (content s1) @ concat (map encode_position ends)"
    by (auto simp only: suffix_start)
  obtain evs1 where "trace e1 = trace e @ evs1"
    using check_trusted_entry_trace [OF c] by blast
  then obtain s where s: "replay h (trace e) s0 = Some s" using s1(1) by (auto simp: replay_append split: option.splits)
  have k: "content s1 = content s" "\<forall>end. b = Some end \<longrightarrow> trusted_count b * 8 \<le> length (content s) \<and>
      decode_position (take 8 (drop ((trusted_count b - 1) * 8) (content s))) = end_position end"
    using check_trusted_entry_file [OF c s s1(1)] r by simp_all
  have le: "trusted_count b * 8 \<le> length (content s)" using k(2) by (cases b) (auto simp: trusted_count_def)
  have "take 8 (drop ((trusted_count b - 1) * 8) (content s')) = take 8 (drop ((trusted_count b - 1) * 8) (content s))"
    if "b = Some t" for t
  proof -
    have "trusted_count b = Suc (seq_nat (sequence_number (end_record_id t)) mod 100000)"
      using that by (simp add: trusted_count_def record_count_nat)
    then obtain j where j: "trusted_count b = Suc j" by blast
    then show ?thesis using last_entry [of j "content s"] le s1(3) k(1) by (simp add: set_length_def)
  qed
  then show ?thesis using s s1 k le room index_validate_trace [OF assms(1)] by (auto simp: set_length_def)
qed

subsection \<open>Properties\<close>

text \<open>
  C12. Index recovery, with every answer those of a file: validation that succeeds leaves the
  trusted entries followed by exactly the supplied ends, synchronized, and the last trusted entry
  holds the trusted position.
\<close>

theorem index_recovery_replaces_suffix:
  assumes "index_validate h b ends (start_env answers) = (Ok h', e')"
    and "replay h (trace e') s = Some s'" and "length ends < 2 ^ 60"
  shows "h' = h \<and> trusted_count b + length ends \<le> 100000 \<and>
    content s' = take (trusted_count b * 8) (content s) @ concat (map encode_position ends) \<and>
    trusted_count b * 8 \<le> length (content s) \<and> synced s' = content s' \<and>
    (\<forall>end. b = Some end \<longrightarrow>
      decode_position (take 8 (drop ((trusted_count b - 1) * 8) (content s'))) = end_position end)"
  using index_validate_file [OF assms] by (auto simp: start_env_def)

text \<open>
  A rejected index is not touched: too many entries are rejected before any call, and a
  trusted entry that is missing or different is reported with its actual value, the file being
  left as it was.
\<close>

theorem index_rejection_changes_nothing:
  assumes "index_validate h b ends (start_env answers) = (Err x, e')" and "length ends < 2 ^ 60"
    and "replay h (trace e') s = Some s'"
  shows "case x of
      TooManyEntries n m \<Rightarrow> trace e' = [] \<and> unat n = trusted_count b + length ends \<and> unat m < unat n
    | TrustedIndexMismatch i p a \<Rightarrow> content s' = content s \<and>
        (\<exists>end. b = Some end \<and> p = end_position end \<and> a \<noteq> Some p \<and> Suc (unat i) = trusted_count b \<and>
          a = (if trusted_count b * 8 \<le> length (content s)
               then Some (decode_position (take 8 (drop ((trusted_count b - 1) * 8) (content s)))) else None))
    | _ \<Rightarrow> True"
proof (cases "100000 < trusted_count b + length ends")
  case True
  then show ?thesis using assms(1) entry_count [OF assms(2), of b]
    by (auto simp: index_validate_eq [OF assms(2)] Let_def start_env_def)
next
  case False
  obtain r e1 where c: "check_trusted_entry h b (start_env answers) = (r, e1)" by fastforce
  note eq = assms(1) [unfolded index_validate_eq [OF assms(2)] Let_def if_not_P [OF False] c prod.case]
  show ?thesis
  proof (cases r)
    case (Ok u)
    then show ?thesis using eq by (cases x) (auto simp: replace_suffix_Err)
  next
    case (Err y)
    then have "x = y" "replay h (trace e1) s = Some s'" using eq assms(3) by simp_all
    then show ?thesis using check_trusted_entry_file [OF c, of s s s'] Err
      by (cases x) (auto simp: start_env_def)
  next
    case (Stop y)
    then show ?thesis using eq by simp
  qed
qed

text \<open>A run: the trusted entry 20 is kept, and the entries behind it are replaced by 52.\<close>

definition example_index_start :: RecordEndLocation where
  "example_index_start =
     RecordEndLocation_new (RecordId (StreamId 5) (SequenceNumber 0)) (LogFilePosition 20)"

definition example_index_answers :: "unit answer list" where
  "example_index_answers =
     [Ready (Size 19), Ready (Size 0), Ready (Bytes [20, 0, 0, 0, 0, 0, 0, 0]), Ready Unit,
      Ready (Size 8), Ready (Count 8), Ready Unit, Ready Unit]"

definition example_index_trace :: "(unit call \<times> unit answer) list" where
  "example_index_trace =
     [(FileLength (), Ready (Size 19)), (Seek () 0, Ready (Size 0)),
      (ReadExact () 8, Ready (Bytes [20, 0, 0, 0, 0, 0, 0, 0])), (SetLen () 8, Ready Unit),
      (Seek () 8, Ready (Size 8)), (Write () [52, 0, 0, 0, 0, 0, 0, 0], Ready (Count 8)),
      (Flush (), Ready Unit), (SyncData (), Ready Unit)]"

lemma example_positions:
  "encode_position (LogFilePosition 52) = [52, 0, 0, 0, 0, 0, 0, 0]"
  "decode_position [20, 0, 0, 0, 0, 0, 0, 0] = LogFilePosition 20"
  by code_simp+

lemma example_index_run:
  "index_validate () (Some example_index_start) [LogFilePosition 52] (start_env example_index_answers) =
   (Ok (), \<lparr>script = [], trace = example_index_trace\<rparr>)"
  by (simp add: index_validate_def check_trusted_entry_def read_index_at_def replace_suffix_def Let_def
      example_index_start_def example_index_answers_def example_index_trace_def start_env_def
      typed_call_def record_count_through_def layout iw_write_def iw_check_usable_def iw_with_file_def
      iw_flush_buffer_def iw_flush_def send_loop.simps example_positions)

lemma example_index_mismatch:
  "index_validate () (Some example_index_start) [] (start_env [Ready (Size 7)]) =
   (Err (TrustedIndexMismatch 0 (LogFilePosition 20) None), \<lparr>script = [], trace = [(FileLength (), Ready (Size 7))]\<rparr>)"
  by (simp add: index_validate_def check_trusted_entry_def read_index_at_def Let_def
      example_index_start_def start_env_def typed_call_def record_count_through_def layout)

lemma example_index_replay:
  "replay () example_index_trace \<lparr>content = [20, 0, 0, 0, 0, 0, 0, 0] @ replicate 11 9, cursor = 0, synced = []\<rparr> =
   Some \<lparr>content = [20, 0, 0, 0, 0, 0, 0, 0, 52, 0, 0, 0, 0, 0, 0, 0], cursor = 16,
         synced = [20, 0, 0, 0, 0, 0, 0, 0, 52, 0, 0, 0, 0, 0, 0, 0]\<rparr>"
  by (simp add: example_index_trace_def set_length_def write_at_def)

theorem index_recovery_replaces_suffix_witness:
  "let s = \<lparr>content = [20, 0, 0, 0, 0, 0, 0, 0] @ replicate 11 9, cursor = 0, synced = []\<rparr> in
   \<exists>e' s'. index_validate () (Some example_index_start) [LogFilePosition 52] (start_env example_index_answers) =
       (Ok (), e') \<and>
     replay () (trace e') s = Some s' \<and>
     content s' = take (trusted_count (Some example_index_start) * 8) (content s) @
       concat (map encode_position [LogFilePosition 52])"
proof -
  let ?s = "\<lparr>content = [20, 0, 0, 0, 0, 0, 0, 0] @ replicate 11 9, cursor = 0, synced = []\<rparr>"
  let ?e = "\<lparr>script = [], trace = example_index_trace\<rparr>"
  from example_index_replay obtain s' where rep: "replay () (trace ?e) ?s = Some s'" by simp
  have "length [LogFilePosition 52] < 2 ^ 60" by simp
  from index_recovery_replaces_suffix [OF example_index_run rep this] example_index_run rep
  show ?thesis unfolding Let_def by blast
qed

theorem index_rejection_changes_nothing_witness:
  "let s = \<lparr>content = replicate 7 9, cursor = 0, synced = []\<rparr> in
   \<exists>e' s'. index_validate () (Some example_index_start) [] (start_env [Ready (Size 7)]) =
       (Err (TrustedIndexMismatch 0 (LogFilePosition 20) None), e') \<and>
     replay () (trace e') s = Some s' \<and> content s' = content s"
proof -
  let ?s = "\<lparr>content = replicate 7 9, cursor = 0, synced = []\<rparr>"
  let ?e = "\<lparr>script = [], trace = [(FileLength (), Ready (Size 7))]\<rparr>"
  have rep: "replay () (trace ?e) ?s = Some ?s" by simp
  have "length ([] :: LogFilePosition list) < 2 ^ 60" by simp
  from index_rejection_changes_nothing [OF example_index_mismatch this rep] example_index_mismatch rep
  show ?thesis unfolding Let_def by blast
qed

end
