(* ===== verification/PairValidator.thy ===== *)
theory PairValidator
  imports LogValidator IndexValidator Storage
begin

text \<open>
  \<^verbatim>\<open>validation/indexed_log_validator\<close>: recovery of one existing log and its paired index through
  the two validators, and the correspondence of the two files afterwards.
\<close>

subsection \<open>The operation\<close>

datatype IndexedLogValidationError =
    PairStorage StorageError
  | PairLog LogFileValidationError
  | PairIndex IndexFileValidationError

datatype 'h ValidatedFilePair =
    Complete RecordEndLocation
  | Partial "RecordEndLocation option" 'h 'h

text \<open>\<^verbatim>\<open>From\<close> on the error of a result, and \<^verbatim>\<open>?\<close> where a step may not return.\<close>

definition into_err :: "('e \<Rightarrow> 'f) \<Rightarrow> ('a, 'e) outcome \<times> 'h env \<Rightarrow> ('a, 'f) outcome \<times> 'h env" where
  "into_err f r = (case r of (res, e) \<Rightarrow> (map_err f res, e))"

definition try_run ::
    "(('a, 'e) outcome \<times> 'h env) option \<Rightarrow> ('a \<Rightarrow> 'h env \<Rightarrow> (('b, 'e) outcome \<times> 'h env) option) \<Rightarrow>
     (('b, 'e) outcome \<times> 'h env) option" where
  "try_run r k =
     (case r of
        None \<Rightarrow> None
      | Some (Ok x, e) \<Rightarrow> k x e
      | Some (Err x, e) \<Rightarrow> Some (Err x, e)
      | Some (Stop s, e) \<Rightarrow> Some (Stop s, e))"

definition pair_position ::
    "'h ValidatedLogFile \<Rightarrow> 'h \<Rightarrow> 'h env \<Rightarrow> ('h ValidatedFilePair, IndexedLogValidationError) outcome \<times> 'h env" where
  "pair_position validated_log index e =
     (let end = vl_validated_end validated_log;
          record_count = (case end of None \<Rightarrow> 0 | Some end \<Rightarrow> record_count_through (end_record_id end));
          partial =
            (let log = vl_file validated_log;
                 log_end = (case end of None \<Rightarrow> LogFilePosition_START | Some end \<Rightarrow> end_position end) in
             try_io (into_err (PairLog \<circ> ValidationIo) (size_call (Seek log (LogFilePosition_get log_end)) e)) (\<lambda>_ e.
             try_io (into_err (PairIndex \<circ> IndexValidationIo)
                       (size_call (Seek index (record_count * of_nat INDEX_ENTRY_LEN)) e)) (\<lambda>_ e.
             (Ok (Partial end log index), e)))) in
      case end of
        Some end' \<Rightarrow> if record_count = RECORDS_PER_FILE then (Ok (Complete end'), e) else partial
      | None \<Rightarrow> partial)"

definition pair_validate ::
    "crc_fun \<Rightarrow> StorageProvider \<Rightarrow> LogFileId \<Rightarrow> RecordEndLocation option \<Rightarrow> 'h env \<Rightarrow>
     (('h ValidatedFilePair, IndexedLogValidationError) outcome \<times> 'h env) option" where
  "pair_validate crc32c storage file_id last_trusted e =
     try_run (Some (into_err PairStorage (open_log_for_validation storage file_id e))) (\<lambda>log e.
     try_run (Some (into_err PairStorage (open_index_for_repair storage file_id e))) (\<lambda>index e.
     try_run (map_option (into_err PairLog) (log_validate crc32c log file_id last_trusted e)) (\<lambda>validated_log e.
     try_run (Some (into_err PairIndex
       (index_validate index last_trusted (vl_suffix_ends validated_log) e))) (\<lambda>index e.
     Some (pair_position validated_log index e)))))"

lemma into_err_simps [simp]:
  "into_err f (Ok x, e) = (Ok x, e)" "into_err f (Err y, e) = (Err (f y), e)" "into_err f (Stop s, e) = (Stop s, e)"
  by (simp_all add: into_err_def)

lemma into_err_eq_Ok [simp]: "into_err f r = (Ok x, e) \<longleftrightarrow> r = (Ok x, e)"
  by (cases r) (simp add: into_err_def)

lemma try_run_simps [simp]:
  "try_run (Some (Ok x, e)) k = k x e" "try_run (Some (Err y, e)) k = Some (Err y, e)"
  "try_run (Some (Stop s, e)) k = Some (Stop s, e)" "try_run None k = None"
  by (simp_all add: try_run_def)

lemma try_run_eq_Ok:
  "try_run r k = Some (Ok y, e') \<longleftrightarrow> (\<exists>x e. r = Some (Ok x, e) \<and> k x e = Some (Ok y, e'))"
  by (auto simp: try_run_def split: option.splits outcome.splits)

lemma try_run_returns:
  "\<exists>v. r = Some v \<Longrightarrow> (\<And>x e. \<exists>v. k x e = Some v) \<Longrightarrow> \<exists>v. try_run r k = Some v"
  by (auto simp: try_run_def split: prod.splits outcome.splits)

subsection \<open>The ids of accepted frames\<close>

definition within :: "LogFileId \<Rightarrow> RecordEndLocation option \<Rightarrow> bool" where
  "within f b \<longleftrightarrow> (case b of None \<Rightarrow> True | Some end \<Rightarrow> end_log_file_id end = f)"

text \<open>The sequence number that follows a trusted end within a file, as a natural number.\<close>

definition next_seq :: "LogFileId \<Rightarrow> RecordEndLocation option \<Rightarrow> nat" where
  "next_seq f b = file_nat (file_number f) * 100000 + trusted_count b"

definition has_seq :: "LogFileId \<Rightarrow> nat \<Rightarrow> RecordId \<Rightarrow> bool" where
  "has_seq f n rid \<longleftrightarrow> stream_id rid = file_stream f \<and> seq_nat (sequence_number rid) = n"

lemma next_seq_Some:
  "within f (Some end) \<Longrightarrow> Suc (seq_nat (sequence_number (end_record_id end))) = next_seq f (Some end)"
  by (auto simp: within_def next_seq_def trusted_count_def record_count_nat end_log_file_id_def)

lemma first_expected_seq:
  assumes "valid_log_file f" and "within f b" and "first_expected f b = Some rid"
  shows "has_seq f (next_seq f b) rid"
proof (cases b)
  case None
  then show ?thesis using assms by (auto simp: first_expected_def has_seq_def next_seq_def trusted_count_def
    first_record_id_seq)
next
  case (Some t)
  then have "RecordId_next (end_record_id t) = Some rid" using assms(3) by (simp add: first_expected_def)
  then show ?thesis using next_seq_Some [of f t] assms(2) Some
    by (auto simp: has_seq_def RecordId_next_eq_Some within_def end_log_file_id_def)
qed

lemma consecutive_seq:
  "consecutive ro fs \<Longrightarrow> (\<And>rid. ro = Some rid \<Longrightarrow> has_seq f n rid) \<Longrightarrow> i < length fs \<Longrightarrow>
     has_seq f (n + i) (frame_id (fs ! i))"
proof (induction fs arbitrary: ro n i)
  case (Cons g fs)
  have "has_seq f (Suc n) rid" if "RecordId_next (frame_id g) = Some rid" for rid
    using that Cons.prems by (auto simp: has_seq_def RecordId_next_eq_Some)
  then show ?case using Cons.IH [of _ "Suc n" "i - 1"] Cons.prems by (cases i) auto
qed simp

lemma end_of_within:
  assumes "valid_log_file f" and "within f b" and "consecutive (first_expected f b) fs"
    and "trusted_count b + length fs \<le> 100000"
  shows "within f (end_of b fs) \<and> trusted_count (end_of b fs) = trusted_count b + length fs"
proof (cases fs rule: rev_cases)
  case Nil
  then show ?thesis using assms(2) by (simp add: end_of_def)
next
  case (snoc gs g)
  have "has_seq f (next_seq f b + length gs) (frame_id (fs ! length gs))"
    by (rule consecutive_seq [OF assms(3) first_expected_seq [OF assms(1,2)]]) (simp_all add: snoc)
  then have g: "has_seq f (next_seq f b + length gs) (frame_id g)" by (simp add: snoc)
  have "seq_nat (sequence_number (frame_id g)) div 100000 = file_nat (file_number f)"
      "seq_nat (sequence_number (frame_id g)) mod 100000 = trusted_count b + length gs"
    using g assms(4) snoc by (simp_all add: has_seq_def next_seq_def add.assoc)
  then show ?thesis using g snoc
    by (simp add: within_def end_of_def end_log_file_id_def from_record_id_eq_iff has_seq_def
        trusted_count_def [of "Some _"] record_count_nat)
qed

lemma accepted_end:
  assumes "valid_log_file f" and "within f b"
  shows "within f (end_of b (accepted_frames c f b bs)) \<and>
    trusted_count (end_of b (accepted_frames c f b bs)) = trusted_count b + length (accepted_frames c f b bs) \<and>
    trusted_count b + length (accepted_frames c f b bs) \<le> 100000"
proof -
  have "consecutive (first_expected f b) (accepted_frames c f b bs)"
      "length (accepted_frames c f b bs) \<le> 100000 - trusted_count b"
    unfolding accepted_frames_def using accept_frames_sound by blast+
  then show ?thesis using end_of_within [OF assms] trusted_count_le [of b] by simp
qed

subsection \<open>The parts of a run\<close>

lemma index_validate_handle: "index_validate h b ends e = (Ok h', e') \<Longrightarrow> h' = h"
  by (auto simp: index_validate_def replace_suffix_def Let_def split: if_splits prod.splits outcome.splits)

lemma pair_validate_parts:
  assumes "pair_validate c sp f b e = Some (Ok p, e')"
  obtains h i d1 d2 e2 v e3 e4 where
    "trace e2 = trace e @ [(OpenExisting (log_file_path sp f), Ready (Opened h)),
       (OpenOrCreate (index_file_path sp f), Ready (Opened i)),
       (OpenRead (parent (index_file_path sp f)), d1), d2]"
    "\<exists>d a. d2 = (SyncAll d, a)"
    "log_validate c h f b e2 = Some (Ok v, e3)" "index_validate i b (vl_suffix_ends v) e3 = (Ok i, e4)"
    "pair_position v i e4 = (Ok p, e')"
proof -
  obtain h e1 i0 e2 v e3 i e4 where run: "open_log_for_validation sp f e = (Ok h, e1)"
      "open_index_for_repair sp f e1 = (Ok i0, e2)" "log_validate c h f b e2 = Some (Ok v, e3)"
      "index_validate i0 b (vl_suffix_ends v) e3 = (Ok i, e4)" "pair_position v i e4 = (Ok p, e')"
    using assms by (auto simp: pair_validate_def try_run_eq_Ok)
  have t1: "trace e1 = trace e @ [(OpenExisting (log_file_path sp f), Ready (Opened h))]"
    using run(1) by (auto simp: open_log_for_validation_def Let_def at_path_eq_Ok dest: typed_call_Ok)
  obtain e5 u where c: "open_call (OpenOrCreate (index_file_path sp f)) e1 = (Ok i0, e5)"
      "sync_directory (parent (index_file_path sp f)) e5 = (Ok u, e2)"
    using run(2) by (auto simp: open_index_for_repair_def Let_def try_io_eq_Ok at_path_eq_Ok)
  have "trace e5 = trace e1 @ [(OpenOrCreate (index_file_path sp f), Ready (Opened i0))]"
    using typed_call_Ok [OF c(1)] by simp
  moreover have "i = i0" using run(4) by (rule index_validate_handle)
  ultimately show thesis using that [of e2 h i0] sync_directory_Ok [OF c(2)] t1 run(3-5) by auto
qed

lemma trusted_count_word:
  "of_nat (trusted_count b) = (case b of None \<Rightarrow> 0 | Some end \<Rightarrow> record_count_through (end_record_id end))"
  by (simp add: trusted_count_def split: option.splits)

lemma pair_position_Ok:
  assumes "pair_position v i e = (Ok p, e')"
  shows "if trusted_count (vl_validated_end v) = 100000
    then (\<exists>end. vl_validated_end v = Some end \<and> p = Complete end) \<and> trace e' = trace e
    else p = Partial (vl_validated_end v) (vl_file v) i \<and>
      (\<exists>m k. trace e' = trace e @
        [(Seek (vl_file v) (of_nat (base_pos (vl_validated_end v))), Ready (Size m)),
         (Seek i (of_nat (trusted_count (vl_validated_end v) * 8)), Ready (Size k))])"
proof -
  let ?b = "vl_validated_end v"
  have start: "LogFilePosition_get (case ?b of None \<Rightarrow> LogFilePosition_START | Some end \<Rightarrow> end_position end) = of_nat (base_pos ?b)"
    by (auto simp: base_pos_def pos_nat_def LogFilePosition_START_def split: option.splits)
  have full: "of_nat (trusted_count ?b) = RECORDS_PER_FILE \<longleftrightarrow> trusted_count ?b = 100000"
  proof -
    have "unat (of_nat (trusted_count ?b) :: u64) = trusted_count ?b"
      using trusted_count_le [of ?b] by (simp add: unat_of_nat)
    then show ?thesis by (metis unat_RECORDS_PER_FILE unsigned_word_eqI)
  qed
  note run = assms [unfolded pair_position_def Let_def start trusted_count_word [symmetric] full INDEX_ENTRY_LEN_value]
  show ?thesis
  proof (cases "trusted_count ?b = 100000")
    case True
    then show ?thesis using run by (auto simp: trusted_count_def split: option.splits)
  next
    case False
    then obtain m e1 k where "size_call (Seek (vl_file v) (of_nat (base_pos ?b))) e = (Ok m, e1)"
        "size_call (Seek i (of_nat (trusted_count ?b) * of_nat 8)) e1 = (Ok k, e')" "p = Partial ?b (vl_file v) i"
      using run by (auto simp: try_io_eq_Ok split: option.splits)
    then show ?thesis using False by (auto dest!: typed_call_Ok)
  qed
qed

subsection \<open>Properties\<close>

lemma replay_sync_all: "replay h [(SyncAll d, a)] s = Some s' \<Longrightarrow> s' = s"
  by (cases a) (auto simp: file_reply_def split: if_splits reply.splits)

lemma replay_off:
  assumes "\<forall>ev\<in>set evs. on_handle h (fst ev)" and "h \<noteq> j"
  shows "replay j evs s = Some s"
proof (rule replay_other, rule ballI, rule notI)
  fix ev
  assume "ev \<in> set evs" "on_handle j (fst ev)"
  then show False using assms on_handle_unique [of j "fst ev" h] by simp
qed

text \<open>
  A successful validation runs the log validator on the first opened file and the index validator
  on the second; what precedes them leaves both files as they are.
\<close>

lemma pair_validate_calls:
  assumes run: "pair_validate c sp f b (start_env answers) = Some (Ok p, e')"
    and opened: "trace e' = (OpenExisting lp, Ready (Opened h)) # (OpenOrCreate ip, Ready (Opened i)) # rest"
  obtains e2 v e3 evl e4 evi evp where "log_validate c h f b e2 = Some (Ok v, e3)"
    "index_validate i b (vl_suffix_ends v) e3 = (Ok i, e4)" "pair_position v i e4 = (Ok p, e')"
    "\<And>j r r0. replay j (trace e2) r0 = Some r \<Longrightarrow> r = r0" "vl_file v = h"
    "trace e3 = trace e2 @ evl" "\<forall>ev\<in>set evl. on_handle h (fst ev)"
    "trace e4 = trace e3 @ evi" "\<forall>ev\<in>set evi. on_handle i (fst ev)" "trace e' = trace e4 @ evp"
proof -
  obtain h1 i1 d1 d2 e2 v e3 e4 where t2:
      "trace e2 = trace (start_env answers) @ [(OpenExisting (log_file_path sp f), Ready (Opened h1)),
         (OpenOrCreate (index_file_path sp f), Ready (Opened i1)),
         (OpenRead (parent (index_file_path sp f)), d1), d2]" and
      d2: "\<exists>d a. d2 = (SyncAll d, a)" and
      log: "log_validate c h1 f b e2 = Some (Ok v, e3)" and
      ix: "index_validate i1 b (vl_suffix_ends v) e3 = (Ok i1, e4)" and
      pos: "pair_position v i1 e4 = (Ok p, e')"
    by (rule pair_validate_parts [OF run]) (rule that)
  obtain evl where evl: "trace e3 = trace e2 @ evl" "\<forall>ev\<in>set evl. on_handle h1 (fst ev)" "vl_file v = h1"
    using log_validate_trace [OF log] by blast
  obtain evi where evi: "trace e4 = trace e3 @ evi" "\<forall>ev\<in>set evi. on_handle i1 (fst ev)"
    using index_validate_trace [OF ix] by blast
  obtain evp where evp: "trace e' = trace e4 @ evp" using pair_position_Ok [OF pos] by (auto split: if_splits)
  have same: "h1 = h" "i1 = i" using opened t2 evl(1) evi(1) evp by (simp_all add: start_env_def)
  have opens: "r = r0" if "replay j (trace e2) r0 = Some r" for j r r0
    using that d2 replay_sync_all [of j _ _ r0 r] unfolding t2 by (auto simp: start_env_def)
  show ?thesis
    by (rule that [OF log [unfolded same] ix [unfolded same] pos [unfolded same] opens evl(3) [unfolded same]
        evl(1) evl(2) [unfolded same] evi(1) evi(2) [unfolded same] evp])
qed

text \<open>Positioning the two files changes neither of them.\<close>

lemma pair_position_files:
  assumes pos: "pair_position v i e4 = (Ok p, e')" and evp: "trace e' = trace e4 @ evp" and hi: "vl_file v \<noteq> i"
    and r: "replay (vl_file v) evp s3 = Some s'" "replay i evp t4 = Some t'"
  shows "content s' = content s3" "synced s' = synced s3" "content t' = content t4" "synced t' = synced t4"
    "let end = vl_validated_end v in if trusted_count end = 100000 then \<exists>x. end = Some x \<and> p = Complete x
     else p = Partial end (vl_file v) i \<and> cursor s' = base_pos end \<and> cursor t' = trusted_count end * 8"
proof -
  let ?e = "vl_validated_end v"
  have "content s' = content s3 \<and> synced s' = synced s3 \<and> content t' = content t4 \<and> synced t' = synced t4 \<and>
    (if trusted_count ?e = 100000 then \<exists>x. ?e = Some x \<and> p = Complete x
     else p = Partial ?e (vl_file v) i \<and> cursor s' = base_pos ?e \<and> cursor t' = trusted_count ?e * 8)"
  proof (cases "trusted_count ?e = 100000")
    case True
    then have "evp = []" "\<exists>x. ?e = Some x \<and> p = Complete x" using pair_position_Ok [OF pos] evp by simp_all
    then show ?thesis using True r by simp
  next
    case False
    have n: "unat (of_nat (base_pos ?e) :: u64) = base_pos ?e"
        "unat (of_nat (trusted_count ?e * 8) :: u64) = trusted_count ?e * 8"
      using base_pos_less [of ?e] trusted_count_le [of ?e] by (simp_all only: unat_of_nat) simp_all
    from False pair_position_Ok [OF pos] evp obtain m k where "p = Partial ?e (vl_file v) i"
        "evp = [(Seek (vl_file v) (of_nat (base_pos ?e)), Ready (Size m)), (Seek i (of_nat (trusted_count ?e * 8)), Ready (Size k))]"
      by auto
    then show ?thesis using False r hi n by (auto split: if_splits)
  qed
  then show "content s' = content s3" "synced s' = synced s3" "content t' = content t4" "synced t' = synced t4"
    "let end = ?e in if trusted_count end = 100000 then \<exists>x. end = Some x \<and> p = Complete x
     else p = Partial end (vl_file v) i \<and> cursor s' = base_pos end \<and> cursor t' = trusted_count end * 8"
    by (simp_all add: Let_def)
qed

lemma pair_validate_files:
  assumes run: "pair_validate c sp f b (start_env answers) = Some (Ok p, e')"
    and opened: "trace e' = (OpenExisting lp, Ready (Opened h)) # (OpenOrCreate ip, Ready (Opened i)) # rest"
    and hi: "h \<noteq> i" and rh: "replay h (trace e') s = Some s'" and ri: "replay i (trace e') t = Some t'"
  shows "let fs = accepted_frames c f b (content s); end = end_of b fs in
    trusted_count b * 8 \<le> length (content t) \<and> base_pos b \<le> length (content s) \<and>
    content s' = take (base_pos b) (content s) @ concat fs \<and> synced s' = content s' \<and>
    content t' = take (trusted_count b * 8) (content t) @ index_of (base_pos b) fs \<and> synced t' = content t' \<and>
    base_pos end = length (content s') \<and>
    (if trusted_count end = 100000 then \<exists>x. end = Some x \<and> p = Complete x
     else p = Partial end h i \<and> cursor s' = base_pos end \<and> cursor t' = trusted_count end * 8)"
proof -
  obtain e2 v e3 evl e4 evi evp where
      log: "log_validate c h f b e2 = Some (Ok v, e3)" and ix: "index_validate i b (vl_suffix_ends v) e3 = (Ok i, e4)" and
      pos: "pair_position v i e4 = (Ok p, e')" and
      opens: "\<And>j r r0. replay j (trace e2) r0 = Some r \<Longrightarrow> r = r0" and vf: "vl_file v = h" and
      evl: "trace e3 = trace e2 @ evl" "\<forall>ev\<in>set evl. on_handle h (fst ev)" and
      evi: "trace e4 = trace e3 @ evi" "\<forall>ev\<in>set evi. on_handle i (fst ev)" and evp: "trace e' = trace e4 @ evp"
    by (rule pair_validate_calls [OF run opened]) (rule that)
  obtain s3 where s3: "replay h (trace e3) s = Some s3" "replay h (evi @ evp) s3 = Some s'"
    using rh evp evi(1) by (auto simp: replay_append split: option.splits)
  obtain t4 where t4: "replay i (trace e4) t = Some t4" "replay i evp t4 = Some t'"
    using ri evp by (auto simp: replay_append split: option.splits)
  let ?fs = "accepted_frames c f b (content s)" and ?e = "vl_validated_end v"
  have L: "base_pos b \<le> length (content s) \<and> base_pos ?e = length (content s3)" "content s3 = take (base_pos b) (content s) @ concat ?fs"
      "synced s3 = content s3" "?e = end_of b ?fs"
      "vl_suffix_ends v = map (\<lambda>n. LogFilePosition (of_nat n)) (frame_ends (base_pos b) ?fs)"
    using log_validate_file [OF log s3(1)] opens [of h] unfolding Let_def by blast+
  have fs: "trusted_count b + length ?fs \<le> 100000"
    using accept_frames_sound trusted_count_le [of b] unfolding accepted_frames_def
    by (metis add.commute le_diff_conv2)
  from index_validate_file [OF ix t4(1)] obtain t3 where t3: "replay i (trace e3) t = Some t3" and
     I: "content t4 = take (trusted_count b * 8) (content t3) @ concat (map encode_position (vl_suffix_ends v))"
       "trusted_count b * 8 \<le> length (content t3)" "synced t4 = content t4"
    using fs L(5) by auto
  have "replay i evl r = Some r" for r using replay_off [OF evl(2)] hi by simp
  then have t3: "t3 = t" using t3 opens [of i t] unfolding evl(1) replay_append
    by (cases "replay i (trace e2) t") auto
  have idx: "concat (map encode_position (vl_suffix_ends v)) = index_of (base_pos b) ?fs"
    by (simp add: L(5) index_of_def comp_def)
  have "replay h evi s3 = Some s3" using replay_off [OF evi(2)] hi by simp
  then have s4: "replay h evp s3 = Some s'" using s3(2) by (simp add: replay_append)
  note P = pair_position_files [OF pos evp, unfolded vf, OF hi s4 t4(2)]
  show ?thesis using P L I t3 idx by (simp add: Let_def)
qed

lemma pair_recovery:
  assumes "pair_validate c sp f b (start_env answers) = Some (Ok p, e')"
    and "trace e' = (OpenExisting lp, Ready (Opened h)) # (OpenOrCreate ip, Ready (Opened i)) # rest" and "h \<noteq> i"
    and "replay h (trace e') s = Some s'" and "replay i (trace e') t = Some t'"
    and "valid_log_file f" and "case b of None \<Rightarrow> True | Some end \<Rightarrow> end_log_file_id end = f"
    and "take (base_pos b) (content s) = concat ts" and "length ts = trusted_count b"
    and "take (trusted_count b * 8) (content t) = index_of 0 ts"
  shows "let recs = ts @ accepted_frames c f b (content s) in
    content s' = concat recs \<and> content t' = index_of 0 recs \<and> synced s' = content s' \<and> synced t' = content t' \<and>
    length recs \<le> 100000 \<and>
    (case p of
       Complete end \<Rightarrow> length recs = 100000 \<and> end_log_file_id end = f
     | Partial end log index \<Rightarrow> length recs < 100000 \<and> log = h \<and> index = i \<and> trusted_count end = length recs \<and>
         base_pos end = length (content s') \<and> cursor s' = length (content s') \<and> cursor t' = length (content t') \<and>
         (case end of None \<Rightarrow> True | Some x \<Rightarrow> end_log_file_id x = f))"
proof -
  let ?fs = "accepted_frames c f b (content s)"
  let ?e = "end_of b ?fs"
  have files: "base_pos b \<le> length (content s)" "content s' = concat (ts @ ?fs)" "synced s' = content s'"
      "content t' = index_of 0 ts @ index_of (base_pos b) ?fs" "synced t' = content t'" "base_pos ?e = length (content s')"
      "if trusted_count ?e = 100000 then \<exists>x. ?e = Some x \<and> p = Complete x
       else p = Partial ?e h i \<and> cursor s' = base_pos ?e \<and> cursor t' = trusted_count ?e * 8"
    using pair_validate_files [OF assms(1-5)] assms(8,10) by (simp_all add: Let_def)
  have base: "base_pos b = length (concat ts)" using files(1) assms(8) by (metis length_take min.absorb2)
  then have index: "content t' = index_of 0 (ts @ ?fs)" using files(4) by (simp add: index_of_append)
  have "within f ?e" "trusted_count ?e = length (ts @ ?fs)" "length (ts @ ?fs) \<le> 100000"
    using accepted_end [OF assms(6), of b c "content s"] assms(7,9) by (simp_all add: within_def)
  then show ?thesis using files index length_index_of [of 0 "ts @ ?fs"]
    by (auto simp: Let_def within_def split: if_splits)
qed

text \<open>
  C4. Recovery of a pair restores the correspondence of its two files. Let the log and the index
  be files whose trusted parts belong together, the index's entries being the ends of the trusted
  records. Validation that succeeds leaves a log that is the concatenation of the trusted records
  and the valid consecutive ones behind them, and an index that is exactly the table of the ends of
  these records; both are synchronized. A pair with room is returned with both handles at the end of
  their files, ready to append; a full one is returned as complete.
\<close>

theorem pair_recovery_restores_correspondence:
  assumes "pair_validate c sp f b (start_env answers) = Some (Ok p, e')"
    and "trace e' = (OpenExisting lp, Ready (Opened h)) # (OpenOrCreate ip, Ready (Opened i)) # rest" and "h \<noteq> i"
    and "replay h (trace e') s = Some s'" and "replay i (trace e') t = Some t'"
    and "valid_log_file f" and "case b of None \<Rightarrow> True | Some end \<Rightarrow> end_log_file_id end = f"
    and "take (base_pos b) (content s) = concat ts" and "length ts = trusted_count b"
    and "take (trusted_count b * 8) (content t) = index_of 0 ts"
  shows "let recs = ts @ accepted_frames c f b (content s) in
    content s' = concat recs \<and> content t' = index_of 0 recs \<and> synced s' = content s' \<and> synced t' = content t' \<and>
    length recs \<le> 100000 \<and>
    (case p of
       Complete end \<Rightarrow> length recs = 100000 \<and> end_log_file_id end = f
     | Partial end log index \<Rightarrow> length recs < 100000 \<and> log = h \<and> index = i \<and> trusted_count end = length recs \<and>
         base_pos end = length (content s') \<and> cursor s' = length (content s') \<and> cursor t' = length (content t') \<and>
         (case end of None \<Rightarrow> True | Some x \<Rightarrow> end_log_file_id x = f))"
  by (rule pair_recovery [OF assms])

text \<open>Recovery of a pair always returns, whatever the two files and the answers.\<close>

lemma pair_validate_returns: "\<exists>res e'. pair_validate c sp f b e = Some (res, e')"
proof -
  have "\<exists>v. map_option (into_err PairLog) (log_validate c h f b e) = Some v" for h e
    using log_validate_returns [of c h f b e] by auto
  then have "\<exists>v. pair_validate c sp f b e = Some v"
    unfolding pair_validate_def by (intro try_run_returns) auto
  then show ?thesis by auto
qed

text \<open>
  A run on a log with one trusted record of 20 bytes and a torn tail, and an index with its entry and
  stray bytes: the handles are 2 (log), 3 (index) and 4 (directory).
\<close>

definition example_pair_end :: RecordEndLocation where
  "example_pair_end = RecordEndLocation_new (RecordId (StreamId 5) (SequenceNumber 0)) (LogFilePosition 20)"

definition example_pair_file :: LogFileId where
  "example_pair_file = from_record_id (RecordId (StreamId 5) (SequenceNumber 0))"

definition example_pair_answers :: "nat answer list" where
  "example_pair_answers =
     [Ready (Opened 2), Ready (Opened 3), Ready (Opened 4), Ready Unit,
      Ready (Size 23), Ready (Size 20), Ready (Bytes [1, 2, 3]), Ready (Bytes []), Ready Unit, Ready Unit,
      Ready (Size 19), Ready (Size 0), Ready (Bytes [20, 0, 0, 0, 0, 0, 0, 0]), Ready Unit, Ready (Size 8),
      Ready Unit, Ready Unit, Ready (Size 20), Ready (Size 8)]"

definition example_pair_opens :: "StorageProvider \<Rightarrow> (nat call \<times> nat answer) list" where
  "example_pair_opens sp =
     [(OpenExisting (log_file_path sp example_pair_file), Ready (Opened 2)),
      (OpenOrCreate (index_file_path sp example_pair_file), Ready (Opened 3)),
      (OpenRead (parent (index_file_path sp example_pair_file)), Ready (Opened 4)), (SyncAll 4, Ready Unit)]"

definition example_pair_work :: "(nat call \<times> nat answer) list" where
  "example_pair_work =
     [(FileLength 2, Ready (Size 23)), (Seek 2 20, Ready (Size 20)), (ReadBuf 2 12, Ready (Bytes [1, 2, 3])),
      (ReadBuf 2 9, Ready (Bytes [])), (SetLen 2 20, Ready Unit), (SyncData 2, Ready Unit),
      (FileLength 3, Ready (Size 19)), (Seek 3 0, Ready (Size 0)),
      (ReadExact 3 8, Ready (Bytes [20, 0, 0, 0, 0, 0, 0, 0])), (SetLen 3 8, Ready Unit), (Seek 3 8, Ready (Size 8)),
      (Flush 3, Ready Unit), (SyncData 3, Ready Unit), (Seek 2 20, Ready (Size 20)), (Seek 3 8, Ready (Size 8))]"

lemma example_pair_wait:
  "wait_to_read (\<lambda>_. 7) (RecordReader_new (2 :: nat))
     \<lparr>script = Ready (Bytes [1, 2, 3]) # Ready (Bytes []) # as, trace = tr\<rparr> =
   (Err (TruncatedHeader 3),
    \<lparr>rd_source = 2, rd_buffer = [1, 2, 3], rd_pending_length = None, rd_batch = [],
     rd_batch_offset = 0, rd_state = StateFailed\<rparr>,
    \<lparr>script = as, trace = tr @ [(ReadBuf 2 12, Ready (Bytes [1, 2, 3])), (ReadBuf 2 9, Ready (Bytes []))]\<rparr>)"
  by code_simp simp

lemma example_pair_log:
  "log_validate (\<lambda>_. 7) 2 example_pair_file (Some example_pair_end)
     \<lparr>script = drop 4 example_pair_answers, trace = tr\<rparr> =
   Some (Ok \<lparr>vl_file = 2, vl_validated_end = Some example_pair_end, vl_suffix_ends = [],
             vl_removed_tail = Some (TailRecord (TruncatedHeader 3))\<rparr>,
         \<lparr>script = drop 10 example_pair_answers, trace = tr @ take 6 example_pair_work\<rparr>)"
proof -
  have scan: "scan_records (\<lambda>_. 7) (2 :: nat) example_pair_file (Some example_pair_end) (LogFilePosition_new 23)
      \<lparr>script = Ready (Bytes [1, 2, 3]) # Ready (Bytes []) # as, trace = tr\<rparr> =
    Some (Ok \<lparr>scan_validated_end = Some example_pair_end, scan_suffix_ends = [],
              scan_tail_error = Some (TailRecord (TruncatedHeader 3))\<rparr>,
          \<lparr>script = as, trace = tr @ [(ReadBuf 2 12, Ready (Bytes [1, 2, 3])), (ReadBuf 2 9, Ready (Bytes []))]\<rparr>)" for as tr
    by (simp add: scan_records_def end_log_file_id_def scan_loop.simps example_pair_wait
        example_pair_end_def example_pair_file_def record_count_through_def layout)
  show ?thesis using example_extent
    by (simp add: log_validate_def Let_def end_log_file_id_def typed_call_def example_pair_answers_def
        example_pair_work_def scan log_truncate_and_sync_def)
       (simp add: example_pair_end_def example_pair_file_def)
qed

lemma example_pair_run:
  "pair_validate (\<lambda>_. 7) sp example_pair_file (Some example_pair_end) (start_env example_pair_answers) =
   Some (Ok (Partial (Some example_pair_end) 2 3),
         \<lparr>script = [], trace = example_pair_opens sp @ example_pair_work\<rparr>)"
proof -
  have start: "open_log_for_validation sp example_pair_file (start_env example_pair_answers) =
      (Ok 2, \<lparr>script = drop 1 example_pair_answers, trace = take 1 (example_pair_opens sp)\<rparr>)"
    by (simp add: open_log_for_validation_def Let_def typed_call_def start_env_def example_pair_answers_def
        example_pair_opens_def)
  have repair: "open_index_for_repair sp example_pair_file
        \<lparr>script = drop 1 example_pair_answers, trace = take 1 (example_pair_opens sp)\<rparr> =
      (Ok 3, \<lparr>script = drop 4 example_pair_answers, trace = example_pair_opens sp\<rparr>)"
    by (simp add: open_index_for_repair_def Let_def typed_call_def sync_directory_def example_pair_answers_def
        example_pair_opens_def)
  have index: "index_validate 3 (Some example_pair_end) [] \<lparr>script = drop 10 example_pair_answers, trace = tr\<rparr> =
      (Ok 3, \<lparr>script = drop 17 example_pair_answers, trace = tr @ take 7 (drop 6 example_pair_work)\<rparr>)" for tr
    by (simp add: index_validate_def check_trusted_entry_def read_index_at_def replace_suffix_def Let_def
        example_pair_end_def example_pair_answers_def example_pair_work_def typed_call_def record_count_through_def
        layout iw_with_file_def iw_check_usable_def iw_flush_buffer_def iw_flush_def send_loop.simps example_positions)
  show ?thesis
    unfolding pair_validate_def start repair into_err_simps try_run_simps example_pair_log option.map(2)
      ValidatedLogFile.select_convs index
    by (simp add: pair_position_def Let_def example_pair_end_def typed_call_def record_count_through_def layout
         example_pair_answers_def example_pair_work_def)
qed

theorem pair_recovery_restores_correspondence_witness:
  "let sp = \<lparr>sp_config = \<lparr>root_directory = [''d'']\<rparr>\<rparr>;
       s = \<lparr>content = replicate 20 9 @ [1, 2, 3], cursor = 0, synced = []\<rparr>;
       t = \<lparr>content = [20, 0, 0, 0, 0, 0, 0, 0] @ replicate 11 9, cursor = 0, synced = []\<rparr> in
   \<exists>e' s' t'. pair_validate (\<lambda>_. 7) sp example_pair_file (Some example_pair_end) (start_env example_pair_answers) =
       Some (Ok (Partial (Some example_pair_end) 2 3), e') \<and>
     replay 2 (trace e') s = Some s' \<and> replay 3 (trace e') t = Some t' \<and> cursor s' = 20 \<and> cursor t' = 8 \<and>
     (let recs = [replicate 20 9] @ accepted_frames (\<lambda>_. 7) example_pair_file (Some example_pair_end) (content s) in
      content s' = concat recs \<and> content t' = index_of 0 recs)"
proof -
  let ?sp = "\<lparr>sp_config = \<lparr>root_directory = [''d'']\<rparr>\<rparr>"
  let ?s = "\<lparr>content = replicate 20 9 @ [1, 2, 3], cursor = 0, synced = []\<rparr>"
  let ?t = "\<lparr>content = [20, 0, 0, 0, 0, 0, 0, 0] @ replicate 11 9, cursor = 0, synced = []\<rparr>"
  let ?e = "\<lparr>script = [], trace = example_pair_opens ?sp @ example_pair_work\<rparr>"
  have rs: "replay 2 (trace ?e) ?s = Some \<lparr>content = replicate 20 9, cursor = 20, synced = replicate 20 9\<rparr>"
    by (simp add: example_pair_opens_def example_pair_work_def set_length_def prefix_def)
  have rt: "replay 3 (trace ?e) ?t =
      Some \<lparr>content = [20, 0, 0, 0, 0, 0, 0, 0], cursor = 8, synced = [20, 0, 0, 0, 0, 0, 0, 0]\<rparr>"
    by (simp add: example_pair_opens_def example_pair_work_def set_length_def prefix_def)
  have opened: "trace ?e = (OpenExisting (log_file_path ?sp example_pair_file), Ready (Opened 2)) #
      (OpenOrCreate (index_file_path ?sp example_pair_file), Ready (Opened 3)) #
      drop 2 (example_pair_opens ?sp) @ example_pair_work"
    by (simp add: example_pair_opens_def)
  have b: "base_pos (Some example_pair_end) = 20" "trusted_count (Some example_pair_end) = 1"
      "end_log_file_id example_pair_end = example_pair_file"
    by (simp_all add: base_pos_def example_pair_end_def example_pair_file_def pos_nat_def trusted_count_def
        record_count_nat seq_nat_def end_log_file_id_def)
  have v: "valid_log_file example_pair_file" by (simp add: example_pair_file_def)
  have idx: "index_of 0 [replicate 20 9] = [20, 0, 0, 0, 0, 0, 0, 0]" unfolding index_of_single by code_simp
  have hyps: "(2 :: nat) \<noteq> 3" "case Some example_pair_end of None \<Rightarrow> True | Some end \<Rightarrow> end_log_file_id end = example_pair_file"
      "take (base_pos (Some example_pair_end)) (content ?s) = concat [replicate 20 9]"
      "length [replicate 20 (9 :: u8)] = trusted_count (Some example_pair_end)"
      "take (trusted_count (Some example_pair_end) * 8) (content ?t) = index_of 0 [replicate 20 9]"
    by (simp_all add: b idx)
  note result = pair_recovery_restores_correspondence [OF example_pair_run opened hyps(1) rs rt v hyps(2-5)]
  show ?thesis unfolding Let_def
    by (rule exI [of _ ?e], rule exI [of _ "\<lparr>content = replicate 20 9, cursor = 20, synced = replicate 20 9\<rparr>"],
        rule exI [of _ "\<lparr>content = [20, 0, 0, 0, 0, 0, 0, 0], cursor = 8, synced = [20, 0, 0, 0, 0, 0, 0, 0]\<rparr>"])
      (use example_pair_run rs rt result in \<open>simp only: Let_def file_state.select_convs simp_thms\<close>)
qed

end
