(* ===== verification/Recovery.thy ===== *)
theory Recovery
  imports IndexedLog PairValidator
begin

text \<open>
  The writer and the recovery of its files together: what a writer has published as synchronized is
  recovered after a crash.
\<close>

interpretation valid_runs: run_invariant pair_step "valid_op c" "\<lambda>(w, e, recs). all_valid c (frames recs)" for c
proof unfold_locales
  fix op and s :: "'h IndexedLogWriter \<times> 'h env \<times> Record list"
  assume "valid_op c op" "case s of (w, e, recs) \<Rightarrow> all_valid c (frames recs)"
  then show "case pair_step op s of (w, e, recs) \<Rightarrow> all_valid c (frames recs)"
    by (cases s; cases op) (auto simp: valid_op_def frames_append frames_def split: prod.splits if_splits)
qed

lemma pair_run_valid:
  "list_all (valid_op c) ops \<Longrightarrow> all_valid c (frames recs) \<Longrightarrow> pair_run ops (w, e, recs) = (w', e', recs') \<Longrightarrow>
     all_valid c (frames recs')"
  using valid_runs.run_inv [of c ops "(w, e, recs)"] by (simp add: pair_run_def)

lemma chain_consecutive:
  "chain first recs \<noteq> None \<Longrightarrow> consecutive (Some first) (frames recs)"
proof (induction recs arbitrary: first)
  case (Cons r recs)
  then obtain n where n: "Record_id r = first" "RecordId_next first = Some n" "chain n recs \<noteq> None"
    by (auto split: if_splits option.splits)
  have "from_validated_bytes (record_bytes r) = r" by (cases r) (simp add: from_validated_bytes_def)
  then show ?case using n Cons.IH [OF n(3)] by (simp add: frames_def frame_id_def)
qed (simp add: frames_def)

lemma chain_take: "chain first recs \<noteq> None \<Longrightarrow> chain first (take k recs) \<noteq> None"
proof (induction recs arbitrary: first k)
  case (Cons r recs)
  then show ?case by (cases k) (auto split: if_splits option.splits)
qed simp

lemma base_trusted:
  assumes "base_ok f b first n0"
  shows "first_expected f b = Some first" "n0 = trusted_count b"
  using assms by (auto simp: base_ok_def first_expected_def trusted_count_def split: option.splits)

lemma recovered_frames:
  assumes "all_valid c fs" and "consecutive (first_expected f b) fs" and "length fs \<le> 100000 - trusted_count b"
    and "prefix (concat ts @ concat fs) bs" and "length (concat ts) = base_pos b"
  shows "prefix fs (accepted_frames c f b bs)"
proof -
  obtain tail where "bs = concat ts @ concat fs @ tail" using assms(4) by (auto simp: prefix_def)
  then have "drop (base_pos b) bs = concat fs @ tail" using assms(5) by simp
  then show ?thesis using assms(1-3) by (simp add: accepted_frames_def parse_frames_concat accept_consecutive)
qed

text \<open>
  The frames of the first \<open>k\<close> records are recovered when the log still has their bytes.
\<close>

lemma written_frames_recovered:
  assumes "base_ok f b first n0" and "recs_ok first n0 recs" and "all_valid c (frames recs)"
    and "prefix (concat ts @ concat (take k (frames recs))) bs" and "length (concat ts) = base_pos b"
  shows "\<exists>more. accepted_frames c f b bs = frames (take k recs) @ more"
proof -
  have frames: "take k (frames recs) = frames (take k recs)" by (simp add: frames_def take_map)
  have chain: "chain first recs \<noteq> None" and count: "n0 + length recs \<le> 100000" using assms(2) by (simp_all add: recs_ok_def)
  have "consecutive (first_expected f b) (frames (take k recs))"
    using chain_consecutive [OF chain_take [OF chain]] base_trusted(1) [OF assms(1)] by simp
  moreover have "length (frames (take k recs)) \<le> 100000 - trusted_count b"
    using count base_trusted(2) [OF assms(1)] by (simp add: frames_def)
  moreover have "all_valid c (frames (take k recs))"
    using assms(3) by (auto simp: all_valid_def frames_def dest: in_set_takeD)
  ultimately show ?thesis using recovered_frames [of c "frames (take k recs)" f b ts bs] assms(4,5)
    by (auto simp: frames prefix_def)
qed

subsection \<open>Properties\<close>

text \<open>
  C1. Synchronized records survive a crash. A writer takes over a pair and runs any operations, with
  any outcome. Afterwards the log holds at least the records it was taken over with and what was
  synchronized to it, followed by anything; the index holds the entries of the former. If recovery
  from the end the pair was taken over with succeeds on these files, it recovers all records up to
  the end that the writer had published as synchronized: the log consists of the old records, these
  records and valid ones behind them, and the index is the table of exactly their ends.
\<close>

theorem synchronized_records_survive_a_crash:
  assumes "taken_over s" and "IndexedLogWriter_from s = Some w0" and "list_all (valid_op c) ops"
    and "pair_run ops (w0, start_env answers, []) = (w, e, recs)"
    and "prefix (concat ts @ settled (SyncData (init_log s)) (init_log s) (trace e)) (content l)"
    and "length (concat ts) = base_pos (init_end s)" and "length ts = trusted_count (init_end s)"
    and "take (trusted_count (init_end s) * 8) (content t) = index_of 0 ts"
    and "pair_validate c sp (init_file_id s) (init_end s) (start_env answers') = Some (Ok p, e')"
    and "trace e' = (OpenExisting lp, Ready (Opened h)) # (OpenOrCreate ip, Ready (Opened i)) # rest" and "h \<noteq> i"
    and "replay h (trace e') l = Some l'" and "replay i (trace e') t = Some t'"
  shows "\<exists>k more. ilw_synced_end w = end_after (init_end s) (take k recs) \<and>
    (let all = ts @ frames (take k recs) @ more in
     content l' = concat all \<and> content t' = index_of 0 all \<and> synced l' = content l' \<and> synced t' = content t' \<and>
     (case p of Complete end \<Rightarrow> length all = 100000 | Partial end log index \<Rightarrow> trusted_count end = length all))"
proof -
  obtain n0 where ok: "base_ok (init_file_id s) (init_end s) (ilw_expected w0) n0"
    and inv: "pair_inv (init_log s) (init_index s) (init_file_id s) (init_end s) (ilw_expected w0) n0 (w, e, recs)"
    using pair_reachable [OF assms(1-4)] by blast
  then obtain k where k: "ilw_synced_end w = end_after (init_end s) (take k recs)"
      "prefix (concat (take k (frames recs))) (settled (SyncData (init_log s)) (init_log s) (trace e))"
    by (auto simp: pair_inv_def pair_core_def backed_def)
  have "prefix (concat ts @ concat (take k (frames recs))) (content l)"
    using k(2) assms(5) by (meson prefix_order.trans same_prefix_prefix)
  moreover have "all_valid c (frames recs)" by (rule pair_run_valid [OF assms(3) _ assms(4)]) (simp add: frames_def)
  moreover have "recs_ok (ilw_expected w0) n0 recs" using inv by (simp add: pair_inv_def)
  ultimately obtain more where more: "accepted_frames c (init_file_id s) (init_end s) (content l) = frames (take k recs) @ more"
    using written_frames_recovered [OF ok _ _ _ assms(6)] by blast
  have ts: "take (base_pos (init_end s)) (content l) = concat ts" using assms(5,6) by (auto simp: prefix_def)
  have "valid_log_file (init_file_id s)" "case init_end s of None \<Rightarrow> True | Some end \<Rightarrow> end_log_file_id end = init_file_id s"
    using assms(1) by (simp_all add: taken_over_def)
  from pair_recovery [OF assms(9-13) this ts assms(7,8)] more k(1) show ?thesis
    by (intro exI [of _ k] exI [of _ more]) (auto simp: Let_def split: ValidatedFilePair.splits)
qed

subsection \<open>A run\<close>

text \<open>
  The record of \<open>example_run_synced\<close> is on the disk, its index entry is lost: recovery reads the log
  through handle 2 and writes the entry through handle 3.
\<close>

definition example_frame :: bytes where
  "example_frame = [16, 0, 0, 0, 0, 0, 0, 0, 0, 0, 0, 0, 7, 0, 0, 0]"

definition example_reader :: "bytes \<Rightarrow> nat RecordReader" where
  "example_reader batch = \<lparr>rd_source = 2, rd_buffer = [], rd_pending_length = None, rd_batch = batch,
     rd_batch_offset = 0, rd_state = StateActive\<rparr>"

definition example_recovery_answers :: "nat answer list" where
  "example_recovery_answers =
     [Ready (Opened 2), Ready (Opened 3), Ready (Opened 4), Ready Unit,
      Ready (Size 16), Ready (Size 0), Ready (Bytes (take 12 example_frame)), Ready (Bytes (drop 12 example_frame)),
      Ready (Bytes []), Ready Unit,
      Ready Unit, Ready (Size 0), Ready (Count 8), Ready Unit, Ready Unit, Ready (Size 16), Ready (Size 8)]"

definition example_opening :: "StorageProvider \<Rightarrow> (nat call \<times> nat answer) list" where
  "example_opening sp =
     [(OpenExisting (log_file_path sp (LogFileId_first (StreamId 0))), Ready (Opened 2)),
      (OpenOrCreate (index_file_path sp (LogFileId_first (StreamId 0))), Ready (Opened 3)),
      (OpenRead (parent (index_file_path sp (LogFileId_first (StreamId 0)))), Ready (Opened 4)), (SyncAll 4, Ready Unit)]"

definition example_scanning :: "(nat call \<times> nat answer) list" where
  "example_scanning =
     [(FileLength 2, Ready (Size 16)), (Seek 2 0, Ready (Size 0)), (ReadBuf 2 12, Ready (Bytes (take 12 example_frame))),
      (ReadBuf 2 4, Ready (Bytes (drop 12 example_frame))), (ReadBuf 2 12, Ready (Bytes [])), (SyncData 2, Ready Unit)]"

definition example_indexing :: "(nat call \<times> nat answer) list" where
  "example_indexing =
     [(SetLen 3 0, Ready Unit), (Seek 3 0, Ready (Size 0)), (Write 3 [16, 0, 0, 0, 0, 0, 0, 0], Ready (Count 8)),
      (Flush 3, Ready Unit), (SyncData 3, Ready Unit)]"

definition example_positioning :: "(nat call \<times> nat answer) list" where
  "example_positioning = [(Seek 2 16, Ready (Size 16)), (Seek 3 8, Ready (Size 8))]"

lemma example_frame_record:
  "record_bytes example_record = example_frame"
  "Record_id (from_validated_bytes example_frame) = RecordId (StreamId 0) (SequenceNumber 0)"
  "Record_length (from_validated_bytes example_frame) = RecordLength 16"
  "encode_position (LogFilePosition 16) = [16, 0, 0, 0, 0, 0, 0, 0]"
  by code_simp+

lemma example_frame_read:
  "try_read_next (example_reader example_frame) = (Ok (Some (from_validated_bytes example_frame)), example_reader [])"
  "try_read_next (example_reader []) = (Ok None, example_reader [])"
  by code_simp+

lemma example_drain:
  "drain_batch (LogFileId_first (StreamId 0)) \<lparr>sc_count = 0, sc_validated_end = None, sc_suffix_ends = []\<rparr>
     (example_reader example_frame) =
   (Ok None, \<lparr>sc_count = 1, sc_validated_end = Some example_end, sc_suffix_ends = [LogFilePosition 16]\<rparr>,
    example_reader [])"
  using example_frame_read example_frame_record example_first
  by (simp add: drain_batch.simps scan_start_def layout example_end_def
     to_end_def LogFilePosition_advance_def checked_add_def LogFilePosition_START_def)

lemma example_waits:
  "wait_to_read (\<lambda>_. 7) (RecordReader_new 2)
     \<lparr>script = Ready (Bytes (take 12 example_frame)) # Ready (Bytes (drop 12 example_frame)) # as, trace = tr\<rparr> =
   (Ok True, example_reader example_frame,
    \<lparr>script = as, trace = tr @ [(ReadBuf 2 12, Ready (Bytes (take 12 example_frame))), (ReadBuf 2 4, Ready (Bytes (drop 12 example_frame)))]\<rparr>)"
  "wait_to_read (\<lambda>_. 7) (example_reader []) \<lparr>script = Ready (Bytes []) # as, trace = tr\<rparr> =
   (Ok False, (example_reader [])\<lparr>rd_state := StateFinished\<rparr>,
    \<lparr>script = as, trace = tr @ [(ReadBuf 2 12, Ready (Bytes []))]\<rparr>)"
  by (code_simp, simp) code_simp

lemma example_scanned:
  "log_validate (\<lambda>_. 7) 2 (LogFileId_first (StreamId 0)) None \<lparr>script = drop 4 example_recovery_answers @ as, trace = tr\<rparr> =
   Some (Ok \<lparr>vl_file = 2, vl_validated_end = Some example_end, vl_suffix_ends = [LogFilePosition 16],
             vl_removed_tail = None\<rparr>,
         \<lparr>script = drop 10 example_recovery_answers @ as, trace = tr @ example_scanning\<rparr>)"
proof -
  have "scan_records (\<lambda>_. 7) (2 :: nat) (LogFileId_first (StreamId 0)) None position
      \<lparr>script = Ready (Bytes (take 12 example_frame)) # Ready (Bytes (drop 12 example_frame)) # Ready (Bytes []) # as, trace = tr\<rparr> =
    Some (Ok \<lparr>scan_validated_end = Some example_end, scan_suffix_ends = [LogFilePosition 16], scan_tail_error = None\<rparr>,
          \<lparr>script = as, trace = tr @ [(ReadBuf 2 12, Ready (Bytes (take 12 example_frame))),
             (ReadBuf 2 4, Ready (Bytes (drop 12 example_frame))), (ReadBuf 2 12, Ready (Bytes []))]\<rparr>)" for position as tr
    by (simp add: scan_records_def scan_loop.simps example_waits example_drain layout)
  then show ?thesis
    by (simp add: log_validate_def Let_def typed_call_def example_recovery_answers_def example_scanning_def
        log_truncate_and_sync_def less_LogFilePosition_def less_eq_LogFilePosition_def LogFilePosition_new_def
        LogFilePosition_START_def)
qed

lemma example_recovered:
  "pair_validate (\<lambda>_. 7) sp (LogFileId_first (StreamId 0)) None \<lparr>script = example_recovery_answers @ as, trace = tr\<rparr> =
    Some (Ok (Partial (Some example_end) 2 3),
      \<lparr>script = as, trace = tr @ example_opening sp @ example_scanning @ example_indexing @ example_positioning\<rparr>)"
proof -
  let ?f = "LogFileId_first (StreamId 0)"
  have log: "open_log_for_validation sp ?f \<lparr>script = example_recovery_answers @ as, trace = tr\<rparr> =
      (Ok 2, \<lparr>script = drop 1 example_recovery_answers @ as, trace = tr @ take 1 (example_opening sp)\<rparr>)" for tr
    by (simp add: open_log_for_validation_def Let_def typed_call_def example_recovery_answers_def example_opening_def)
  have index: "open_index_for_repair sp ?f \<lparr>script = drop 1 example_recovery_answers @ as, trace = tr @ take 1 (example_opening sp)\<rparr> =
      (Ok 3, \<lparr>script = drop 4 example_recovery_answers @ as, trace = tr @ example_opening sp\<rparr>)" for tr
    by (simp add: open_index_for_repair_def Let_def typed_call_def sync_directory_def example_recovery_answers_def
        example_opening_def)
  have entries: "index_validate 3 None [LogFilePosition 16] \<lparr>script = drop 10 example_recovery_answers @ as, trace = tr\<rparr> =
      (Ok 3, \<lparr>script = drop 15 example_recovery_answers @ as, trace = tr @ example_indexing\<rparr>)" for tr
    by (simp add: index_validate_def check_trusted_entry_def replace_suffix_def Let_def example_frame_record
        example_recovery_answers_def example_indexing_def typed_call_def layout iw_with_file_def iw_check_usable_def
        iw_flush_buffer_def iw_flush_def iw_write_def send_loop.simps)
  show ?thesis
    unfolding pair_validate_def log index into_err_simps try_run_simps example_scanned option.map(2)
      ValidatedLogFile.select_convs entries
    by (simp add: pair_position_def Let_def example_end_def typed_call_def record_count_through_def layout
        example_recovery_answers_def example_positioning_def)
qed

theorem synchronized_records_survive_a_crash_witness:
  "let sp = \<lparr>sp_config = \<lparr>root_directory = [''d'']\<rparr>\<rparr>;
       w = fst (pair_run [AppendRecord example_record, SyncPair] (example_pair, start_env example_answers, []));
       l = \<lparr>content = example_frame, cursor = 0, synced = []\<rparr>; t = \<lparr>content = [], cursor = 0, synced = []\<rparr> in
   \<exists>e' l' t' k more. pair_validate (\<lambda>_. 7) sp (init_file_id example_stream) None (start_env example_recovery_answers) =
       Some (Ok (Partial (Some example_end) 2 3), e') \<and>
     replay 2 (trace e') l = Some l' \<and> replay 3 (trace e') t = Some t' \<and>
     ilw_synced_end w = Some example_end \<and> ilw_synced_end w = end_after None (take k [example_record]) \<and>
     content l' = concat (frames (take k [example_record]) @ more) \<and>
     content t' = index_of 0 (frames (take k [example_record]) @ more)"
proof -
  let ?sp = "\<lparr>sp_config = \<lparr>root_directory = [''d'']\<rparr>\<rparr>"
  let ?l = "\<lparr>content = example_frame, cursor = 0, synced = []\<rparr>" and ?t = "\<lparr>content = [], cursor = 0, synced = []\<rparr>"
  let ?e = "\<lparr>script = [], trace = example_opening ?sp @ example_scanning @ example_indexing @ example_positioning\<rparr>"
  have run: "pair_validate (\<lambda>_. 7) ?sp (init_file_id example_stream) (init_end example_stream) (start_env example_recovery_answers) =
      Some (Ok (Partial (Some example_end) 2 3), ?e)"
    using example_recovered [of ?sp "[]" "[]"] by (simp add: start_env_def example_stream_def)
  have l: "replay 2 (trace ?e) ?l = Some \<lparr>content = example_frame, cursor = 16, synced = example_frame\<rparr>"
    by (simp add: example_opening_def example_scanning_def example_indexing_def example_positioning_def example_frame_def)
  have t: "replay 3 (trace ?e) ?t = Some \<lparr>content = [16, 0, 0, 0, 0, 0, 0, 0], cursor = 8, synced = [16, 0, 0, 0, 0, 0, 0, 0]\<rparr>"
    by (simp add: example_opening_def example_scanning_def example_indexing_def example_positioning_def
        set_length_def write_at_def)
  have opened: "trace ?e = (OpenExisting (log_file_path ?sp (LogFileId_first (StreamId 0))), Ready (Opened 2)) #
      (OpenOrCreate (index_file_path ?sp (LogFileId_first (StreamId 0))), Ready (Opened 3)) #
      drop 2 (trace ?e)"
    by (simp add: example_opening_def)
  have "settled (SyncData 0) 0 example_trace = example_frame"
    by (simp add: settled_def example_trace_def example_frame_record) (simp add: example_frame_def)
  then have synced: "prefix (concat [] @ settled (SyncData (init_log example_stream)) (init_log example_stream)
      (trace (\<lparr>script = [], trace = example_trace\<rparr> :: nat env))) (content ?l)"
    by (simp add: example_stream_def)
  have base: "length (concat ([] :: bytes list)) = base_pos (init_end example_stream)"
      "length ([] :: bytes list) = trusted_count (init_end example_stream)"
      "take (trusted_count (init_end example_stream) * 8) (content ?t) = index_of 0 []"
    by (simp_all add: example_stream_def base_pos_def trusted_count_def index_of_def)
  have ops: "list_all (valid_op (\<lambda>_. 7)) [AppendRecord example_record, SyncPair]"
    using example_valid by (simp add: valid_op_def)
  from synchronized_records_survive_a_crash [OF example_taken_over example_from ops example_run_synced synced base run opened _ l t]
  show ?thesis using run l t unfolding Let_def example_run_synced fst_conv
    by (simp add: example_stream_def) blast
qed

end
