(* ===== verification/Disk.thy ===== *)
theory Disk
  imports Storage
begin

text \<open>
  The documented behaviour of named files under the calls that publish and read metadata, as a
  step relation on a disk, and the atomicity of publication under it. A call that fails or is
  cancelled may have had a part of its effect.
\<close>

subsection \<open>The step relation\<close>

record 'h disk =
  files :: "path \<Rightarrow> bytes option"
  opened :: "'h \<Rightarrow> path option"

inductive disk_step :: "'h call \<times> 'h answer \<Rightarrow> 'h disk \<Rightarrow> 'h disk \<Rightarrow> bool" where
  open_read: "disk_step (OpenRead p, Ready (Opened h)) d (d\<lparr>opened := (opened d)(h \<mapsto> p)\<rparr>)"
| open_absent: "files d p = None \<Longrightarrow> disk_step (OpenRead p, Failed NotFound) d d"
| open_failed: "x \<noteq> NotFound \<Longrightarrow> disk_step (OpenRead p, Failed x) d d"
| open_dropped: "disk_step (OpenRead p, Dropped) d d"
| truncate_ok: "disk_step (OpenTruncate p, Ready (Opened h)) d
    (d\<lparr>files := (files d)(p \<mapsto> []), opened := (opened d)(h \<mapsto> p)\<rparr>)"
| truncate_failed: "files d' = files d \<or> files d' = (files d)(p \<mapsto> []) \<Longrightarrow> opened d' = opened d \<Longrightarrow>
    a \<in> {Dropped} \<union> range Failed \<Longrightarrow> disk_step (OpenTruncate p, a) d d'"
| write_ok: "opened d h = Some p \<Longrightarrow> files d p = Some bs0 \<Longrightarrow>
    disk_step (WriteAll h bs, Ready Unit) d (d\<lparr>files := (files d)(p \<mapsto> bs0 @ bs)\<rparr>)"
| write_failed: "opened d h = Some p \<Longrightarrow> files d p = Some bs0 \<Longrightarrow> prefix part bs \<Longrightarrow>
    a \<in> {Dropped} \<union> range Failed \<Longrightarrow>
    disk_step (WriteAll h bs, a) d (d\<lparr>files := (files d)(p \<mapsto> bs0 @ part)\<rparr>)"
| flush_any: "disk_step (Flush h, a) d d"
| sync_any: "disk_step (SyncAll h, a) d d"
| rename_ok: "files d p = Some bs \<Longrightarrow>
    disk_step (Rename p q, Ready Unit) d (d\<lparr>files := (files d)(p := None, q \<mapsto> bs)\<rparr>)"
| rename_failed: "files d p = Some bs \<Longrightarrow> files d' = files d \<or> files d' = (files d)(p := None, q \<mapsto> bs) \<Longrightarrow>
    opened d' = opened d \<Longrightarrow> a \<in> {Dropped} \<union> range Failed \<Longrightarrow> disk_step (Rename p q, a) d d'"
| read_all: "opened d h = Some p \<Longrightarrow> files d p = Some bs \<Longrightarrow>
    disk_step (ReadToEnd h n, Ready (Bytes (take (unat n) bs))) d d"
| read_failed: "a \<in> {Dropped} \<union> range Failed \<Longrightarrow> disk_step (ReadToEnd h n, a) d d"

inductive_cases open_read_stepE: "disk_step (OpenRead p, a) d d'"
inductive_cases truncate_stepE: "disk_step (OpenTruncate p, a) d d'"
inductive_cases write_stepE: "disk_step (WriteAll h bs, a) d d'"
inductive_cases rename_stepE: "disk_step (Rename p q, a) d d'"
inductive_cases read_all_stepE: "disk_step (ReadToEnd h n, a) d d'"
inductive_simps flush_step_iff [simp]: "disk_step (Flush h, a) d d'"
inductive_simps sync_step_iff [simp]: "disk_step (SyncAll h, a) d d'"

inductive disk_run :: "('h call \<times> 'h answer) list \<Rightarrow> 'h disk \<Rightarrow> 'h disk \<Rightarrow> bool" where
  run_Nil: "disk_run [] d d"
| run_Cons: "disk_step ev d d1 \<Longrightarrow> disk_run tr d1 d2 \<Longrightarrow> disk_run (ev # tr) d d2"

inductive_simps disk_run_Nil [simp]: "disk_run [] d d'"
inductive_simps disk_run_Cons: "disk_run (ev # tr) d d'"

lemma disk_run_append: "disk_run (tr @ tr') d d2 \<longleftrightarrow> (\<exists>d1. disk_run tr d d1 \<and> disk_run tr' d1 d2)"
  by (induction tr arbitrary: d) (auto simp: disk_run_Cons)

subsection \<open>Crash triples\<close>

text \<open>
  \<open>keeps I P m Q\<close>: from a disk with \<open>P\<close>, at every moment of a run of \<open>m\<close>, a crash included, the
  disk satisfies \<open>I\<close>; when \<open>m\<close> succeeds with \<open>x\<close>, it satisfies \<open>Q x\<close>.
\<close>

definition keeps ::
    "('h disk \<Rightarrow> bool) \<Rightarrow> ('h disk \<Rightarrow> bool) \<Rightarrow> ('h env \<Rightarrow> ('a, 'x) outcome \<times> 'h env) \<Rightarrow>
     ('a \<Rightarrow> 'h disk \<Rightarrow> bool) \<Rightarrow> bool" where
  "keeps I P m Q \<longleftrightarrow>
     (\<forall>e. \<exists>evs. trace (snd (m e)) = trace e @ evs \<and>
        (\<forall>d. P d \<longrightarrow>
           (\<forall>tr d'. prefix tr evs \<longrightarrow> disk_run tr d d' \<longrightarrow> I d') \<and>
           (\<forall>x d'. fst (m e) = Ok x \<longrightarrow> disk_run evs d d' \<longrightarrow> Q x d')))"

lemma keepsE:
  assumes "keeps I P m Q"
  obtains evs where "trace (snd (m e)) = trace e @ evs"
    "\<And>d tr d'. P d \<Longrightarrow> prefix tr evs \<Longrightarrow> disk_run tr d d' \<Longrightarrow> I d'"
    "\<And>d x d'. P d \<Longrightarrow> fst (m e) = Ok x \<Longrightarrow> disk_run evs d d' \<Longrightarrow> Q x d'"
  using assms unfolding keeps_def by meson

lemma keeps_run:
  assumes "keeps I P m Q" and "m (start_env answers) = (r, e')" and "P d"
  shows "prefix tr (trace e') \<Longrightarrow> disk_run tr d d' \<Longrightarrow> I d'"
    and "r = Ok x \<Longrightarrow> disk_run (trace e') d d' \<Longrightarrow> Q x d'"
proof -
  from keepsE [OF assms(1)] obtain evs where "trace (snd (m (start_env answers))) = trace (start_env answers) @ evs"
    "\<And>d tr d'. P d \<Longrightarrow> prefix tr evs \<Longrightarrow> disk_run tr d d' \<Longrightarrow> I d'"
    "\<And>d x d'. P d \<Longrightarrow> fst (m (start_env answers)) = Ok x \<Longrightarrow> disk_run evs d d' \<Longrightarrow> Q x d'" by metis
  then show "prefix tr (trace e') \<Longrightarrow> disk_run tr d d' \<Longrightarrow> I d'"
    and "r = Ok x \<Longrightarrow> disk_run (trace e') d d' \<Longrightarrow> Q x d'"
    using assms(2,3) by (simp_all add: start_env_def)
qed

lemma keeps_pure: "(\<And>d. P d \<Longrightarrow> I d) \<Longrightarrow> (\<And>x d. r = Ok x \<Longrightarrow> P d \<Longrightarrow> Q x d) \<Longrightarrow> keeps I P (\<lambda>e. (r, e)) Q"
  by (simp add: keeps_def)

lemma keeps_call:
  assumes "\<And>d. P d \<Longrightarrow> I d" and "\<And>a d d'. P d \<Longrightarrow> disk_step (c, a) d d' \<Longrightarrow> I d'"
    and "\<And>r x d d'. P d \<Longrightarrow> f r = Some x \<Longrightarrow> disk_step (c, Ready r) d d' \<Longrightarrow> Q x d'"
  shows "keeps I P (typed_call f c) Q"
  unfolding keeps_def
proof
  fix e :: "'a env"
  obtain r e' where c: "typed_call f c e = (r, e')" by fastforce
  obtain a where a: "trace e' = trace e @ [(c, a)]" "\<forall>x. r = Ok x \<longrightarrow> (\<exists>q. f q = Some x \<and> a = Ready q)"
    using typed_call_trace [OF c] typed_call_Ok [of f c e _ e'] c by (cases r) auto
  have "prefix tr [(c, a)] \<Longrightarrow> disk_run tr d d' \<Longrightarrow> P d \<Longrightarrow> I d'" for tr d d'
    using assms(1,2) by (cases tr) (auto simp: disk_run_Cons)
  then show "\<exists>evs. trace (snd (typed_call f c e)) = trace e @ evs \<and> (\<forall>d. P d \<longrightarrow>
      (\<forall>tr d'. prefix tr evs \<longrightarrow> disk_run tr d d' \<longrightarrow> I d') \<and>
      (\<forall>x d'. fst (typed_call f c e) = Ok x \<longrightarrow> disk_run evs d d' \<longrightarrow> Q x d'))"
    using a c assms(3) by (intro exI [of _ "[(c, a)]"]) (auto simp: disk_run_Cons)
qed

lemma fst_at_path_Ok [simp]: "fst (at_path p r) = Ok x \<longleftrightarrow> fst r = Ok x"
  by (cases r) (simp add: at_path_def)

lemma keeps_at_path: "keeps I P m Q \<Longrightarrow> keeps I P (\<lambda>e. at_path p (m e)) Q"
  by (simp add: keeps_def)

lemma keeps_try:
  assumes m: "keeps I P m Q" and k: "\<And>x. keeps I (Q x) (k x) R"
  shows "keeps I P (\<lambda>e. try_io (m e) k) R"
  unfolding keeps_def
proof
  fix e
  from keepsE [OF m] obtain evs where evs: "trace (snd (m e)) = trace e @ evs"
    "\<And>d tr d'. P d \<Longrightarrow> prefix tr evs \<Longrightarrow> disk_run tr d d' \<Longrightarrow> I d'"
    "\<And>d x d'. P d \<Longrightarrow> fst (m e) = Ok x \<Longrightarrow> disk_run evs d d' \<Longrightarrow> Q x d'" by metis
  obtain r e1 where r: "m e = (r, e1)" by fastforce
  show "\<exists>evs. trace (snd (try_io (m e) k)) = trace e @ evs \<and> (\<forall>d. P d \<longrightarrow>
      (\<forall>tr d'. prefix tr evs \<longrightarrow> disk_run tr d d' \<longrightarrow> I d') \<and>
      (\<forall>x d'. fst (try_io (m e) k) = Ok x \<longrightarrow> disk_run evs d d' \<longrightarrow> R x d'))"
  proof (cases r)
    case (Ok x)
    from keepsE [OF k] obtain evs' where evs': "trace (snd (k x e1)) = trace e1 @ evs'"
      "\<And>d tr d'. Q x d \<Longrightarrow> prefix tr evs' \<Longrightarrow> disk_run tr d d' \<Longrightarrow> I d'"
      "\<And>d y d'. Q x d \<Longrightarrow> fst (k x e1) = Ok y \<Longrightarrow> disk_run evs' d d' \<Longrightarrow> R y d'" by metis
    have q: "Q x d1" if "P d" "disk_run evs d d1" for d d1 using evs(3) [of d x d1] that r Ok by simp
    have "I d'" if p: "P d" "prefix tr (evs @ evs')" "disk_run tr d d'" for d tr d'
    proof (cases "prefix tr evs")
      case False
      then obtain us d1 where "prefix us evs'" "disk_run evs d d1" "disk_run us d1 d'"
        using p(2,3) by (auto simp: prefix_append disk_run_append)
      then show ?thesis using evs'(2) q p(1) by blast
    qed (use evs(2) p in blast)
    moreover have "R y d'" if p: "P d" "fst (k x e1) = Ok y" "disk_run (evs @ evs') d d'" for d y d'
    proof -
      obtain d1 where "disk_run evs d d1" "disk_run evs' d1 d'" using p(3) by (auto simp: disk_run_append)
      then show ?thesis using evs'(3) q p(1,2) by blast
    qed
    ultimately show ?thesis using evs(1) evs'(1) r Ok
      by (intro exI [of _ "evs @ evs'"]) simp
  next
    case (Err x)
    then show ?thesis using evs r by auto
  next
    case (Stop x)
    then show ?thesis using evs r by auto
  qed
qed

lemma keeps_weaken:
  "keeps I P m Q \<Longrightarrow> (\<And>d. P' d \<Longrightarrow> P d) \<Longrightarrow> (\<And>x d. Q x d \<Longrightarrow> Q' x d) \<Longrightarrow> keeps I P' m Q'"
  unfolding keeps_def by meson

subsection \<open>Publication\<close>

text \<open>
  All files but the two of a publication are as they were, and the published one has its old or
  its new content.
\<close>

definition old_or_new :: "path \<Rightarrow> bytes \<Rightarrow> (path \<Rightarrow> bytes option) \<Rightarrow> 'h disk \<Rightarrow> bool" where
  "old_or_new p bs before d \<longleftrightarrow>
     (files d p = before p \<or> files d p = Some bs) \<and>
     (\<forall>q. q \<noteq> p \<and> q \<noteq> with_added_extension p ''pending'' \<longrightarrow> files d q = before q)"

definition staged :: "path \<Rightarrow> (path \<Rightarrow> bytes option) \<Rightarrow> 'h \<Rightarrow> bytes \<Rightarrow> 'h disk \<Rightarrow> bool" where
  "staged p before h bs d \<longleftrightarrow>
     files d = before(with_added_extension p ''pending'' \<mapsto> bs) \<and>
     opened d h = Some (with_added_extension p ''pending'')"

lemma pending_differs: "p \<noteq> [] \<Longrightarrow> with_added_extension p ''pending'' \<noteq> p"
proof
  assume "p \<noteq> []" and "with_added_extension p ''pending'' = p"
  then have "last (with_added_extension p ''pending'') = last p" by simp
  then show False by (simp add: with_added_extension_def)
qed

lemma staged_old: "p \<noteq> [] \<Longrightarrow> staged p before h bs d \<Longrightarrow> old_or_new p bs' before d"
  using pending_differs [of p] by (auto simp: staged_def old_or_new_def)

lemma sync_directory_keeps: "(\<And>d. P d \<Longrightarrow> I d) \<Longrightarrow> (\<And>d g. P d \<Longrightarrow> P (d\<lparr>opened := g\<rparr>)) \<Longrightarrow>
    keeps I P (sync_directory p) (\<lambda>_. P)"
  unfolding sync_directory_def
  by (intro keeps_try [where Q = "\<lambda>_. P"] keeps_at_path keeps_call) (auto elim!: open_read_stepE)

lemma write_json_keeps:
  assumes p: "p \<noteq> []" and v: "to_vec json v = Inr bs"
  shows "keeps (old_or_new p bs before) (\<lambda>d. files d = before) (write_json_atomic json p v)
    (\<lambda>_ d. files d = before(with_added_extension p ''pending'' := None, p \<mapsto> bs))"
proof -
  let ?pending = "with_added_extension p ''pending''"
  let ?I = "old_or_new p bs before"
  note differs = pending_differs [OF p] pending_differs [OF p, symmetric]
  have "keeps ?I (\<lambda>d. files d = before) (open_call (OpenTruncate ?pending)) (\<lambda>h. staged p before h [])"
    by (rule keeps_call) (auto elim!: truncate_stepE simp: old_or_new_def staged_def differs)
  moreover have "keeps ?I (staged p before h []) (unit_call (WriteAll h bs)) (\<lambda>_. staged p before h bs)" for h
    by (rule keeps_call) (auto elim!: write_stepE simp: old_or_new_def staged_def differs)
  moreover have "keeps ?I (staged p before h bs) (unit_call (Flush h)) (\<lambda>_. staged p before h bs)" for h
    by (rule keeps_call) (auto intro: staged_old [OF p])
  moreover have "keeps ?I (staged p before h bs) (unit_call (SyncAll h)) (\<lambda>_. staged p before h bs)" for h
    by (rule keeps_call) (auto intro: staged_old [OF p])
  moreover have "keeps ?I (staged p before h bs) (unit_call (Rename ?pending p))
      (\<lambda>_ d. files d = before(?pending := None, p \<mapsto> bs))" for h
    by (rule keeps_call) (auto elim!: rename_stepE simp: old_or_new_def staged_def differs fun_upd_twist)
  moreover have "keeps ?I (\<lambda>d. files d = before(?pending := None, p \<mapsto> bs)) (sync_directory (parent p))
      (\<lambda>_ d. files d = before(?pending := None, p \<mapsto> bs))"
    by (rule sync_directory_keeps) (auto simp: old_or_new_def)
  ultimately show ?thesis unfolding write_json_atomic_def v sum.case Let_def
    by (intro keeps_try keeps_at_path)
qed

text \<open>The order of the calls: the destination is named only when the staged bytes are synchronized.\<close>

text \<open>The tail of an atomic write: the rename, and when it succeeded the sync of the directory.\<close>

lemma renamed_then_synced:
  assumes c: "unit_call (Rename q p) e = (r1, e1)"
    and eq: "(r, e') = try_io (at_path p (r1, e1)) (\<lambda>_. sync_directory (parent p))"
  shows "\<exists>a rest. trace e' = trace e @ (Rename q p, a) # rest \<and>
    (\<forall>ev\<in>set rest. fst ev = OpenRead (parent p) \<or> (\<exists>g. fst ev = SyncAll g)) \<and>
    (r = Ok () \<longrightarrow> a = Ready Unit \<and>
       (\<exists>g. rest = [(OpenRead (parent p), Ready (Opened g)), (SyncAll g, Ready Unit)]))"
proof -
  obtain a where t: "trace e1 = trace e @ [(Rename q p, a)]" "is_ok r1 \<longrightarrow> a = Ready Unit"
    using unit_call_trace [OF c] by blast
  show ?thesis
  proof (cases r1)
    case (Ok u)
    then have "sync_directory (parent p) e1 = (r, e')" using eq by simp
    then obtain rest where "trace e' = trace e1 @ rest"
        "\<forall>ev\<in>set rest. fst ev = OpenRead (parent p) \<or> (\<exists>g. fst ev = SyncAll g)"
        "r = Ok () \<longrightarrow> (\<exists>g. rest = [(OpenRead (parent p), Ready (Opened g)), (SyncAll g, Ready Unit)])"
      using sync_directory_trace [of "parent p" e1 r e'] sync_directory_Ok [of "parent p" e1 "()" e'] by fastforce
    then show ?thesis using t Ok by simp
  qed (use eq t in auto)
qed

lemma write_json_until_rename:
  assumes v: "to_vec json v = Inr bs" and w: "write_json_atomic json p v e = (r, e')"
  shows "\<exists>evs. trace e' = trace e @ evs \<and>
    ((\<forall>ev\<in>set evs. \<forall>q q'. fst ev \<noteq> Rename q q') \<and> r \<noteq> Ok () \<or>
     (\<exists>h a rest. evs = [(OpenTruncate (with_added_extension p ''pending''), Ready (Opened h)),
        (WriteAll h bs, Ready Unit), (Flush h, Ready Unit), (SyncAll h, Ready Unit),
        (Rename (with_added_extension p ''pending'') p, a)] @ rest \<and>
        (\<forall>ev\<in>set rest. fst ev = OpenRead (parent p) \<or> (\<exists>g. fst ev = SyncAll g)) \<and>
        (r = Ok () \<longrightarrow> a = Ready Unit \<and>
           (\<exists>g. rest = [(OpenRead (parent p), Ready (Opened g)), (SyncAll g, Ready Unit)]))))"
proof -
  let ?q = "with_added_extension p ''pending''"
  note eq = w [unfolded write_json_atomic_def v sum.case Let_def]
  obtain r1 e1 where c1: "open_call (OpenTruncate ?q) e = (r1, e1)" by fastforce
  obtain a1 where t1: "trace e1 = trace e @ [(OpenTruncate ?q, a1)]" using typed_call_trace [OF c1] by blast
  show ?thesis
  proof (cases r1)
    case (Ok h)
    have a1: "a1 = Ready (Opened h)" using typed_call_Ok [OF c1 [unfolded Ok]] t1 by simp
    obtain r2 e2 where c2: "unit_call (WriteAll h bs) e1 = (r2, e2)" by fastforce
    obtain r3 e3 where c3: "unit_call (Flush h) e2 = (r3, e3)" by fastforce
    obtain r4 e4 where c4: "unit_call (SyncAll h) e3 = (r4, e4)" by fastforce
    obtain a2 where t2: "trace e2 = trace e1 @ [(WriteAll h bs, a2)]" "is_ok r2 \<longrightarrow> a2 = Ready Unit"
      using unit_call_trace [OF c2] by blast
    obtain a3 where t3: "trace e3 = trace e2 @ [(Flush h, a3)]" "is_ok r3 \<longrightarrow> a3 = Ready Unit"
      using unit_call_trace [OF c3] by blast
    obtain a4 where t4: "trace e4 = trace e3 @ [(SyncAll h, a4)]" "is_ok r4 \<longrightarrow> a4 = Ready Unit"
      using unit_call_trace [OF c4] by blast
    show ?thesis
    proof (cases "is_ok r2 \<and> is_ok r3 \<and> is_ok r4")
      case ok: True
      obtain r5 e5 where c5: "unit_call (Rename ?q p) e4 = (r5, e5)" by fastforce
      have pre: "trace e4 = trace e @ [(OpenTruncate ?q, Ready (Opened h)),
        (WriteAll h bs, Ready Unit), (Flush h, Ready Unit), (SyncAll h, Ready Unit)]"
        using t1 a1 t2 t3 t4 ok by simp
      have "(r, e') = try_io (at_path p (r5, e5)) (\<lambda>_. sync_directory (parent p))"
        using eq c1 Ok c2 c3 c4 c5 ok by (auto simp: is_ok_iff)
      from renamed_then_synced [OF c5 this] show ?thesis unfolding pre by fastforce
    next
      case False
      then consider "\<not> is_ok r2" | "is_ok r2" "\<not> is_ok r3" | "is_ok r2" "is_ok r3" "\<not> is_ok r4" by blast
      then show ?thesis
      proof cases
        case 1
        then show ?thesis using eq c1 Ok c2 t1 t2 by (cases r2) auto
      next
        case 2
        then show ?thesis using eq c1 Ok c2 c3 t1 t2 t3 by (cases r3) (auto simp: is_ok_iff)
      next
        case 3
        then show ?thesis using eq c1 Ok c2 c3 c4 t1 t2 t3 t4 by (cases r4) (auto simp: is_ok_iff)
      qed
    qed
  qed (use eq c1 t1 in auto)
qed

subsection \<open>Reading\<close>

lemma limit_plus_one:
  assumes "max_bytes < (- 1 :: u64)"
  shows "unat (saturating_add max_bytes 1) = Suc (unat max_bytes)"
    "length bs \<le> Suc (unat max_bytes) \<Longrightarrow> max_bytes < of_nat (length bs) \<longleftrightarrow> unat max_bytes < length bs"
proof -
  have "unat max_bytes < unat (- 1 :: u64)" using assms by (simp only: word_less_nat_alt)
  then have m: "unat max_bytes < 2 ^ 64 - 1" unfolding unat_minus_one_word by simp
  then show "unat (saturating_add max_bytes 1) = Suc (unat max_bytes)" by (simp add: unat_saturating_add)
  assume "length bs \<le> Suc (unat max_bytes)"
  then have "unat (of_nat (length bs) :: u64) = length bs" using m by (simp add: unat_of_nat)
  then show "max_bytes < of_nat (length bs) \<longleftrightarrow> unat max_bytes < length bs" by (simp add: word_less_nat_alt)
qed

lemma read_json_spec:
  assumes "read_json json p max_bytes e = (r, e')" and m: "max_bytes < - 1"
  shows "\<exists>evs. trace e' = trace e @ evs \<and> (\<forall>d d'. disk_run evs d d' \<longrightarrow> files d' = files d \<and>
    (case r of
       Ok None \<Rightarrow> files d p = None
     | Ok (Some v) \<Rightarrow> (\<exists>bs. files d p = Some bs \<and> length bs \<le> unat max_bytes \<and> from_slice json bs = Inr v)
     | Err (StorageTooLarge q n) \<Rightarrow> q = p \<and> n = max_bytes \<and> (\<exists>bs. files d p = Some bs \<and> unat max_bytes < length bs)
     | Err (StorageJson q x) \<Rightarrow> q = p \<and>
         (\<exists>bs. files d p = Some bs \<and> length bs \<le> unat max_bytes \<and> from_slice json bs = Inl x)
     | Err (StorageIo q x) \<Rightarrow> q = p
     | Stop s \<Rightarrow> s = Cancelled))"
proof -
  obtain r1 e1 where c1: "open_call (OpenRead p) e = (r1, e1)" by fastforce
  show ?thesis
  proof (cases r1)
    case (Ok h)
    note t1 = typed_call_Ok [OF c1 [unfolded Ok]]
    let ?n = "saturating_add max_bytes 1"
    obtain r2 e2 where c2: "bytes_call (ReadToEnd h ?n) e1 = (r2, e2)" by fastforce
    show ?thesis
    proof (cases r2)
      case bs: (Ok bs)
      have t: "trace e2 = trace e @ [(OpenRead p, Ready (Opened h)), (ReadToEnd h ?n, Ready (Bytes bs))]"
        using t1 typed_call_Ok [OF c2 [unfolded bs]] by simp
      have run: "files d' = files d \<and> (\<exists>all. files d p = Some all \<and> bs = take (Suc (unat max_bytes)) all)"
        if "disk_run [(OpenRead p, Ready (Opened h)), (ReadToEnd h ?n, Ready (Bytes bs))] d d'" for d d'
        using that by (auto simp: disk_run_Cons limit_plus_one(1) [OF m] elim!: open_read_stepE read_all_stepE)
      have res: "(r, e') = (if max_bytes < of_nat (length bs) then (Err (StorageTooLarge p max_bytes), e2)
          else (case from_slice json bs of Inr value \<Rightarrow> (Ok (Some value), e2) | Inl x \<Rightarrow> (Err (StorageJson p x), e2)))"
        using assms(1) c1 Ok c2 bs by (simp add: read_json_def)
      have "case r of
           Ok (Some v) \<Rightarrow> length all \<le> unat max_bytes \<and> from_slice json all = Inr v
         | Err (StorageTooLarge q n) \<Rightarrow> q = p \<and> n = max_bytes \<and> unat max_bytes < length all
         | Err (StorageJson q x) \<Rightarrow> q = p \<and> length all \<le> unat max_bytes \<and> from_slice json all = Inl x
         | _ \<Rightarrow> False" if "bs = take (Suc (unat max_bytes)) all" for all
        using that res limit_plus_one(2) [OF m, of bs] by (auto split: if_splits sum.splits)
      moreover have "e' = e2" using res by (auto split: if_splits sum.splits)
      ultimately show ?thesis using t run
        by (intro exI [of _ "[(OpenRead p, Ready (Opened h)), (ReadToEnd h ?n, Ready (Bytes bs))]"])
           (fastforce split: outcome.splits option.splits StorageError.splits)
    next
      case (Err x)
      then show ?thesis using assms(1) c1 Ok c2 t1 typed_call_Err [OF c2 [unfolded Err]]
        by (auto simp: read_json_def disk_run_Cons elim!: open_read_stepE read_all_stepE)
    next
      case (Stop x)
      then show ?thesis using assms(1) c1 Ok c2 t1 typed_call_Stop [OF c2 [unfolded Stop]]
        by (auto simp: read_json_def disk_run_Cons elim!: open_read_stepE read_all_stepE)
    qed
  next
    case (Err x)
    have "files d' = files d \<and> (x = NotFound \<longrightarrow> files d p = None)"
      if "disk_run [(OpenRead p, Failed x)] d d'" for d d'
      using that by (auto simp: disk_run_Cons elim!: open_read_stepE)
    then show ?thesis using assms(1) c1 Err typed_call_Err [OF c1 [unfolded Err]]
      by (intro exI [of _ "[(OpenRead p, Failed x)]"]) (auto simp: read_json_def split: if_splits)
  next
    case (Stop x)
    then show ?thesis using assms(1) c1 typed_call_Stop [OF c1 [unfolded Stop]]
      by (auto simp: read_json_def disk_run_Cons elim!: open_read_stepE)
  qed
qed

subsection \<open>Properties\<close>

text \<open>
  C10. Publication of metadata is atomic: at every moment of every run, failed and cancelled ones
  included, the published file has its old or its complete new content and no file but it and its
  staging file has changed; on success it has the new content.
\<close>

theorem publication_is_atomic:
  assumes "p \<noteq> []" and "to_vec json v = Inr bs"
    and "write_json_atomic json p v (start_env answers) = (r, e')"
    and "prefix tr (trace e')" and "disk_run tr d d'"
  shows "(files d' p = files d p \<or> files d' p = Some bs) \<and>
    (\<forall>q. q \<noteq> p \<and> q \<noteq> with_added_extension p ''pending'' \<longrightarrow> files d' q = files d q) \<and>
    (r = Ok () \<and> tr = trace e' \<longrightarrow>
       files d' = (files d)(with_added_extension p ''pending'' := None, p \<mapsto> bs))"
proof -
  note run = keeps_run [OF write_json_keeps [OF assms(1,2), of "files d"] assms(3), of d]
  have "old_or_new p bs (files d) d'" by (rule run(1) [OF refl assms(4,5)])
  moreover have "files d' = (files d)(with_added_extension p ''pending'' := None, p \<mapsto> bs)"
    if "r = Ok ()" "tr = trace e'"
    using run(2) [OF refl that(1)] assms(5) that(2) by simp
  ultimately show ?thesis by (simp add: old_or_new_def)
qed

text \<open>
  The staged bytes are durable before they are published: a rename is made only after the
  complete bytes were written to the staging file, flushed and synchronized, and success is
  reported only after the directory was synchronized too.
\<close>

theorem publication_syncs_before_rename:
  assumes "to_vec json v = Inr bs" and "write_json_atomic json p v (start_env answers) = (r, e')"
  shows "((\<exists>q q' a. (Rename q q', a) \<in> set (trace e')) \<or> r = Ok () \<longrightarrow>
    (\<exists>h a rest. trace e' = [(OpenTruncate (with_added_extension p ''pending''), Ready (Opened h)),
        (WriteAll h bs, Ready Unit), (Flush h, Ready Unit), (SyncAll h, Ready Unit),
        (Rename (with_added_extension p ''pending'') p, a)] @ rest \<and>
        (r = Ok () \<longrightarrow> a = Ready Unit \<and>
           (\<exists>g. rest = [(OpenRead (parent p), Ready (Opened g)), (SyncAll g, Ready Unit)]))))"
  using write_json_until_rename [OF assms] by (fastforce simp: start_env_def)

text \<open>
  Reading metadata on a disk: absence is reported only when there is no file, a value only
  when it is the decoding of the complete file within the limit, an oversized or malformed file is
  an error, and nothing is changed.
\<close>

theorem read_json_reads_disk:
  assumes "read_json json p max_bytes (start_env answers) = (r, e')" and "max_bytes < - 1"
    and "disk_run (trace e') d d'"
  shows "files d' = files d \<and>
    (case r of
       Ok None \<Rightarrow> files d p = None
     | Ok (Some v) \<Rightarrow> (\<exists>bs. files d p = Some bs \<and> length bs \<le> unat max_bytes \<and> from_slice json bs = Inr v)
     | Err (StorageTooLarge q n) \<Rightarrow> q = p \<and> n = max_bytes \<and> (\<exists>bs. files d p = Some bs \<and> unat max_bytes < length bs)
     | Err (StorageJson q x) \<Rightarrow> q = p \<and>
         (\<exists>bs. files d p = Some bs \<and> length bs \<le> unat max_bytes \<and> from_slice json bs = Inl x)
     | Err (StorageIo q x) \<Rightarrow> q = p
     | Stop s \<Rightarrow> s = Cancelled)"
  using read_json_spec [OF assms(1,2)] assms(3) by (auto simp: start_env_def)

text \<open>
  C34. What was published is read back: after a successful publication of a checkpoint, reading the
  stream's checkpoint yields it, unless the read itself fails.
\<close>

theorem checkpoint_read_back:
  assumes "to_vec json cp = Inr bs" and "from_slice json bs = Inr cp" and "length bs \<le> 4096"
    and "write_checkpoint json sp cp (start_env answers) = (Ok (), e1)"
    and "read_checkpoint json sp (stream_id (end_record_id (checkpoint_end cp))) e1 = (r, e2)"
    and "disk_run (trace e2) d d2"
  shows "r = Ok (Some cp) \<or> r = Stop Cancelled \<or>
    (\<exists>x. r = Err (StorageIo (checkpoint_file_path sp (stream_id (end_record_id (checkpoint_end cp)))) x))"
proof -
  let ?p = "checkpoint_file_path sp (stream_id (end_record_id (checkpoint_end cp)))"
  have p: "?p \<noteq> []" by (simp add: checkpoint_file_path_def)
  have m: "MAX_CHECKPOINT_BYTES < - 1" "unat MAX_CHECKPOINT_BYTES = 4096"
    by (simp_all add: MAX_CHECKPOINT_BYTES_def word_less_nat_alt unat_minus_one_word)
  obtain evs where evs: "trace e2 = trace e1 @ evs" and rd: "\<And>d d'. disk_run evs d d' \<Longrightarrow> files d' = files d \<and>
    (case r of
       Ok None \<Rightarrow> files d ?p = None
     | Ok (Some v) \<Rightarrow> (\<exists>bs. files d ?p = Some bs \<and> length bs \<le> 4096 \<and> from_slice json bs = Inr v)
     | Err (StorageTooLarge q n) \<Rightarrow> q = ?p \<and> n = MAX_CHECKPOINT_BYTES \<and> (\<exists>bs. files d ?p = Some bs \<and> 4096 < length bs)
     | Err (StorageJson q x) \<Rightarrow> q = ?p \<and>
         (\<exists>bs. files d ?p = Some bs \<and> length bs \<le> 4096 \<and> from_slice json bs = Inl x)
     | Err (StorageIo q x) \<Rightarrow> q = ?p
     | Stop s \<Rightarrow> s = Cancelled)"
    using read_json_spec [OF assms(5) [unfolded read_checkpoint_def] m(1)] unfolding m(2) by blast
  obtain d1 where d1: "disk_run (trace e1) d d1" "disk_run evs d1 d2"
    using assms(6) evs by (auto simp: disk_run_append)
  note run = keeps_run [OF write_json_keeps [OF p assms(1), of "files d"] assms(4) [unfolded write_checkpoint_def], of d]
  have "files d1 = (files d)(with_added_extension ?p ''pending'' := None, ?p \<mapsto> bs)"
    by (rule run(2) [OF refl refl d1(1)])
  then have "files d1 ?p = Some bs" by simp
  with rd [OF d1(2)] assms(2,3) show ?thesis
    by (cases r) (auto split: option.splits StorageError.splits)
qed

text \<open>A run: publication on an empty disk with a serializer that writes one byte, and its reading.\<close>

definition example_json :: "nat json" where
  "example_json = \<lparr>to_vec = (\<lambda>n. Inr [of_nat n]), from_slice = (\<lambda>bs. Inr (unat (hd bs)))\<rparr>"

definition example_path :: path where
  "example_path = [''data'', ''clustering.json'']"

definition empty_disk :: "nat disk" where
  "empty_disk = \<lparr>files = (\<lambda>_. None), opened = (\<lambda>_. None)\<rparr>"

text \<open>The answers of a destination that lets a publication succeed, and the trace they give.\<close>

definition publication_answers :: "nat answer list" where
  "publication_answers =
     [Ready (Opened 3), Ready Unit, Ready Unit, Ready Unit, Ready Unit, Ready (Opened 4), Ready Unit]"

definition publication :: "path \<Rightarrow> bytes \<Rightarrow> (nat call \<times> nat answer) list" where
  "publication p bs =
     (let q = with_added_extension p ''pending'' in
      [(OpenTruncate q, Ready (Opened 3)), (WriteAll 3 bs, Ready Unit), (Flush 3, Ready Unit),
       (SyncAll 3, Ready Unit), (Rename q p, Ready Unit), (OpenRead (parent p), Ready (Opened 4)),
       (SyncAll 4, Ready Unit)])"

lemma publication_run_from:
  assumes "to_vec json v = Inr bs"
  shows "write_json_atomic json p v \<lparr>script = publication_answers @ rest, trace = tr\<rparr> =
    (Ok (), \<lparr>script = rest, trace = tr @ publication p bs\<rparr>)"
  by (simp add: write_json_atomic_def assms typed_call_def sync_directory_def
      publication_def publication_answers_def Let_def)

lemma publication_run:
  assumes "to_vec json v = Inr bs"
  shows "write_json_atomic json p v (start_env (publication_answers @ rest)) =
    (Ok (), \<lparr>script = rest, trace = publication p bs\<rparr>)"
  using publication_run_from [OF assms, of p rest "[]"] by (simp add: start_env_def)

lemma publication_disk_run:
  assumes "p \<noteq> []"
  shows "\<exists>d'. disk_run (publication p bs) d d' \<and> files d' p = Some bs"
proof -
  let ?q = "with_added_extension p ''pending''"
  let ?d1 = "d\<lparr>files := (files d)(?q \<mapsto> []), opened := (opened d)(3 \<mapsto> ?q)\<rparr>"
  let ?d2 = "?d1\<lparr>files := (files ?d1)(?q \<mapsto> [] @ bs)\<rparr>"
  let ?d3 = "?d2\<lparr>files := (files ?d2)(?q := None, p \<mapsto> bs)\<rparr>"
  let ?d4 = "?d3\<lparr>opened := (opened ?d3)(4 \<mapsto> parent p)\<rparr>"
  have "disk_step (OpenTruncate ?q, Ready (Opened 3)) d ?d1" by (rule truncate_ok)
  moreover have "disk_step (WriteAll 3 bs, Ready Unit) ?d1 ?d2" by (rule write_ok) simp_all
  moreover have "disk_step (Rename ?q p, Ready Unit) ?d2 ?d3" by (rule rename_ok) simp
  moreover have "disk_step (OpenRead (parent p), Ready (Opened 4)) ?d3 ?d4" by (rule open_read)
  ultimately have "disk_run (publication p bs) d ?d4" unfolding publication_def Let_def
    by (intro run_Cons [OF _ run_Cons [OF _ run_Cons [OF flush_any run_Cons [OF sync_any
          run_Cons [OF _ run_Cons [OF _ run_Cons [OF sync_any run_Nil]]]]]]])
  then show ?thesis by (intro exI [of _ ?d4]) simp
qed

lemma example_write:
  "to_vec example_json 7 = Inr [7]"
  "write_json_atomic example_json example_path 7 (start_env publication_answers) =
     (Ok (), \<lparr>script = [], trace = publication example_path [7]\<rparr>)"
  using publication_run [of example_json 7 "[7]" example_path "[]"] by (simp_all add: example_json_def)

theorem publication_is_atomic_witness:
  "\<exists>d'. disk_run (publication example_path [7]) empty_disk d' \<and> files d' example_path = Some [7]"
proof -
  have p: "example_path \<noteq> []" by (simp add: example_path_def)
  obtain d' where run: "disk_run (publication example_path [7]) empty_disk d'"
    using publication_disk_run [OF p] by blast
  from publication_is_atomic [OF p example_write, of "publication example_path [7]" empty_disk d'] run
  show ?thesis by auto
qed

theorem publication_syncs_before_rename_witness:
  "\<exists>h a rest. publication example_path [7] =
     [(OpenTruncate (with_added_extension example_path ''pending''), Ready (Opened h)),
      (WriteAll h [7], Ready Unit), (Flush h, Ready Unit), (SyncAll h, Ready Unit),
      (Rename (with_added_extension example_path ''pending'') example_path, a)] @ rest"
  using publication_syncs_before_rename [OF example_write] by auto

lemma example_read:
  "read_json example_json example_path 4096
     (start_env [Ready (Opened 3), Ready (Bytes [7])]) =
   (Ok (Some 7), \<lparr>script = [], trace = [(OpenRead example_path, Ready (Opened (3 :: nat))),
      (ReadToEnd 3 4097, Ready (Bytes [7]))]\<rparr>)"
  by (simp add: read_json_def example_json_def start_env_def typed_call_def saturating_add_def)

theorem read_json_reads_disk_witness:
  "let d = empty_disk\<lparr>files := [example_path \<mapsto> [7]]\<rparr> in
   \<exists>e'. read_json example_json example_path 4096 (start_env [Ready (Opened 3), Ready (Bytes [7])]) =
       (Ok (Some 7), e') \<and>
     (\<exists>d'. disk_run (trace e') d d' \<and> files d' = files d) \<and>
     (\<exists>bs. files d example_path = Some bs \<and> from_slice example_json bs = Inr 7)"
proof -
  let ?d = "empty_disk\<lparr>files := [example_path \<mapsto> [7]]\<rparr>"
  let ?tr = "[(OpenRead example_path, Ready (Opened (3 :: nat))), (ReadToEnd 3 4097, Ready (Bytes [7]))]"
  have "disk_step (ReadToEnd 3 4097, Ready (Bytes (take (unat (4097 :: u64)) [7])))
      (?d\<lparr>opened := (opened ?d)(3 \<mapsto> example_path)\<rparr>) (?d\<lparr>opened := (opened ?d)(3 \<mapsto> example_path)\<rparr>)"
    by (rule read_all [where p = example_path]) simp_all
  then have "disk_run ?tr ?d (?d\<lparr>opened := (opened ?d)(3 \<mapsto> example_path)\<rparr>)"
    by (intro run_Cons [OF open_read] run_Cons [OF _ run_Nil]) simp
  moreover have "(4096 :: u64) < - 1" by simp
  ultimately show ?thesis
    using read_json_reads_disk [OF example_read] example_read unfolding Let_def by fastforce
qed

definition example_checkpoint :: StreamCheckpoint where
  "example_checkpoint = StreamCheckpoint_new
     (RecordEndLocation_new (RecordId (StreamId 5) (SequenceNumber 0)) (LogFilePosition 20))"

definition checkpoint_json :: "StreamCheckpoint json" where
  "checkpoint_json = \<lparr>to_vec = (\<lambda>_. Inr [7]), from_slice = (\<lambda>_. Inr example_checkpoint)\<rparr>"

theorem checkpoint_read_back_witness:
  "let sp = \<lparr>sp_config = \<lparr>root_directory = [''data'']\<rparr>\<rparr>; sid = StreamId 5;
       p = checkpoint_file_path sp sid;
       e1 = snd (write_checkpoint checkpoint_json sp example_checkpoint
              (start_env (publication_answers @ [Ready (Opened 5), Ready (Bytes [7])]))) in
   fst (read_checkpoint checkpoint_json sp sid e1) \<in>
     {Ok (Some example_checkpoint), Stop Cancelled} \<union> range (\<lambda>x. Err (StorageIo p x)) \<and>
   fst (read_checkpoint checkpoint_json sp sid e1) = Ok (Some example_checkpoint)"
proof -
  define sp where "sp = \<lparr>sp_config = \<lparr>root_directory = [''data'']\<rparr>\<rparr>"
  define p where "p = checkpoint_file_path sp (StreamId 5)"
  have p: "p \<noteq> []" by (simp add: p_def checkpoint_file_path_def)
  let ?e0 = "start_env (publication_answers @ [Ready (Opened 5), Ready (Bytes [7])])"
  let ?e1 = "\<lparr>script = [Ready (Opened 5), Ready (Bytes [7])], trace = publication p [7]\<rparr>"
  let ?rd = "[(OpenRead p, Ready (Opened 5)), (ReadToEnd 5 4097, Ready (Bytes [7]))]"
  let ?e2 = "\<lparr>script = [], trace = publication p [7] @ ?rd\<rparr>"
  have sid: "stream_id (end_record_id (checkpoint_end example_checkpoint)) = StreamId 5"
    by (simp add: example_checkpoint_def StreamCheckpoint_new_def RecordEndLocation_new_def)
  have json: "to_vec checkpoint_json example_checkpoint = Inr [7]" "from_slice checkpoint_json [7] = Inr example_checkpoint"
    by (simp_all add: checkpoint_json_def)
  have w: "write_checkpoint checkpoint_json sp example_checkpoint ?e0 = (Ok (), ?e1)"
    using publication_run [OF json(1), of p] by (simp add: write_checkpoint_def sid p_def)
  have r: "read_checkpoint checkpoint_json sp (StreamId 5) ?e1 = (Ok (Some example_checkpoint), ?e2)"
    by (simp add: read_checkpoint_def read_json_def typed_call_def saturating_add_def MAX_CHECKPOINT_BYTES_def
        checkpoint_json_def flip: p_def)
  obtain d1 where d1: "disk_run (publication p [7]) empty_disk d1" "files d1 p = Some [7]"
    using publication_disk_run [OF p] by blast
  let ?d2 = "d1\<lparr>opened := (opened d1)(5 \<mapsto> p)\<rparr>"
  have "disk_step (ReadToEnd 5 4097, Ready (Bytes (take (unat (4097 :: u64)) [7]))) ?d2 ?d2"
    by (rule read_all [where p = p]) (simp_all add: d1(2))
  then have "disk_run ?rd d1 ?d2" by (intro run_Cons [OF open_read] run_Cons [OF _ run_Nil]) simp
  with d1(1) have run: "disk_run (trace ?e2) empty_disk ?d2" by (auto simp: disk_run_append)
  from checkpoint_read_back [OF json _ w _ run, unfolded sid, OF _ r] r w
  show ?thesis by (simp add: Let_def p_def [symmetric] sp_def [symmetric])
qed

end
