(* ===== verification/Initializer.thy ===== *)
theory Initializer
  imports LogSearch Recovery Disk
begin

text \<open>
  \<^verbatim>\<open>stream_initializer.rs\<close>: recovery of one stream at startup. The checkpoint is loaded, the logs
  are discovered and validated in order, ids behind the recovered prefix are removed, the
  checkpoint is advanced and the active pair is prepared for its writer.
\<close>

subsection \<open>The state\<close>

text \<open>The errors, which the source erases into \<^verbatim>\<open>anyhow::Error\<close>.\<close>

datatype InitializationError =
    InitStorage StorageError
  | InitValidation IndexedLogValidationError
  | InitRange LogFileIdRangeError
  | CheckpointOfOtherStream path StreamId StreamId
  | CheckpointWithoutLogs StreamId LogFileNumber
  | MaximumBelowCheckpoint LogFileNumber StreamId LogFileNumber

record 'h InitializationState =
  is_stream_id :: StreamId
  is_storage_provider :: StorageProvider
  is_checkpoint :: "StreamCheckpoint option"
  is_maximum_log_file :: "LogFileId option"
  is_recovered_end :: "RecordEndLocation option"
  is_active_pair :: "'h InitializedStream option"
  is_first_file_to_remove :: "LogFileId option"

definition InitializationState_new :: "StreamId \<Rightarrow> StorageProvider \<Rightarrow> 'h InitializationState" where
  "InitializationState_new sid storage_provider =
     \<lparr>is_stream_id = sid, is_storage_provider = storage_provider, is_checkpoint = None,
      is_maximum_log_file = None, is_recovered_end = None, is_active_pair = None,
      is_first_file_to_remove = None\<rparr>"

text \<open>The type of a step: it may fail, and leaves the state it has reached.\<close>

type_synonym 'h step_result = "(unit, InitializationError) outcome \<times> 'h InitializationState \<times> 'h env"

text \<open>\<^verbatim>\<open>?\<close> on a call of the storage provider within a step.\<close>

definition step_try ::
    "'h InitializationState \<Rightarrow> ('a, StorageError) outcome \<times> 'h env \<Rightarrow> ('a \<Rightarrow> 'h env \<Rightarrow> 'h step_result) \<Rightarrow>
     'h step_result" where
  "step_try st r k =
     (case r of
        (Ok x, e) \<Rightarrow> k x e
      | (Err x, e) \<Rightarrow> (Err (InitStorage x), st, e)
      | (Stop s, e) \<Rightarrow> (Stop s, st, e))"

subsection \<open>The steps\<close>

definition load_checkpoint ::
    "StreamCheckpoint json \<Rightarrow> 'h InitializationState \<Rightarrow> 'h env \<Rightarrow> 'h step_result" where
  "load_checkpoint json st e =
     step_try st (read_checkpoint json (is_storage_provider st) (is_stream_id st) e) (\<lambda>checkpoint e.
       case checkpoint of
         None \<Rightarrow> (Ok (), st\<lparr>is_checkpoint := checkpoint\<rparr>, e)
       | Some cp \<Rightarrow>
           (let checkpoint_stream_id = stream_id (end_record_id (checkpoint_end cp)) in
            if checkpoint_stream_id \<noteq> is_stream_id st
            then (Err (CheckpointOfOtherStream (checkpoint_file_path (is_storage_provider st) (is_stream_id st))
                        checkpoint_stream_id (is_stream_id st)), st, e)
            else (Ok (), st\<lparr>is_checkpoint := checkpoint\<rparr>, e)))"

definition discover_log_files :: "'h InitializationState \<Rightarrow> 'h env \<Rightarrow> 'h step_result" where
  "discover_log_files st e =
     step_try st (maximum_log_file (is_storage_provider st) (is_stream_id st) e) (\<lambda>maximum_log_file e.
       let found = (Ok (), st\<lparr>is_maximum_log_file := maximum_log_file\<rparr>, e) in
       case is_checkpoint st of
         None \<Rightarrow> found
       | Some checkpoint \<Rightarrow>
           (let checkpoint_file = end_log_file_id (checkpoint_end checkpoint) in
            case maximum_log_file of
              None \<Rightarrow> (Err (CheckpointWithoutLogs (is_stream_id st) (file_number checkpoint_file)), st, e)
            | Some maximum \<Rightarrow>
                if \<not> file_number maximum \<ge> file_number checkpoint_file
                then (Err (MaximumBelowCheckpoint (file_number maximum) (is_stream_id st)
                            (file_number checkpoint_file)), st, e)
                else found))"

text \<open>The loop \<^verbatim>\<open>for file_id in first.iter_to(maximum)?\<close>.\<close>

primrec validate_each ::
    "crc_fun \<Rightarrow> RecordEndLocation option \<Rightarrow> LogFileId \<Rightarrow> LogFileId list \<Rightarrow> 'h InitializationState \<Rightarrow>
     'h env \<Rightarrow> 'h step_result option" where
  "validate_each crc32c cp_end maximum [] st e = Some (Ok (), st, e)"
| "validate_each crc32c cp_end maximum (file_id # ids) st e =
     (let last_trusted = (case cp_end of
                            None \<Rightarrow> None
                          | Some end \<Rightarrow> if end_log_file_id end = file_id then Some end else None) in
      case pair_validate crc32c (is_storage_provider st) file_id last_trusted e of
        None \<Rightarrow> None
      | Some (res, e) \<Rightarrow>
          (case res of
             Ok (Complete end) \<Rightarrow>
               validate_each crc32c cp_end maximum ids (st\<lparr>is_recovered_end := Some end\<rparr>) e
           | Ok (Partial end log index) \<Rightarrow>
               (let st = st\<lparr>is_recovered_end := (case end of None \<Rightarrow> is_recovered_end st | Some _ \<Rightarrow> end),
                            is_active_pair := Some \<lparr>init_file_id = file_id, init_log = log,
                                                    init_index = index, init_end = end\<rparr>\<rparr> in
                if file_id = maximum then Some (Ok (), st\<lparr>is_first_file_to_remove := None\<rparr>, e)
                else
                  (case LogFileId_next file_id of
                     None \<Rightarrow> Some (Stop Panic, st, e)
                   | Some next \<Rightarrow> Some (Ok (), st\<lparr>is_first_file_to_remove := Some next\<rparr>, e)))
           | Stop s \<Rightarrow> Some (Stop s, st, e)
           | Err error \<Rightarrow>
               (if last_trusted = None \<and>
                   error = PairStorage (StorageIo (log_file_path (is_storage_provider st) file_id) NotFound)
                then Some (Ok (), st\<lparr>is_first_file_to_remove := Some file_id\<rparr>, e)
                else Some (Err (InitValidation error), st, e))))"

definition validate_files :: "crc_fun \<Rightarrow> 'h InitializationState \<Rightarrow> 'h env \<Rightarrow> 'h step_result option" where
  "validate_files crc32c st e =
     (case is_maximum_log_file st of
        None \<Rightarrow> Some (Ok (), st, e)
      | Some maximum \<Rightarrow>
          (let cp_end = map_option checkpoint_end (is_checkpoint st);
               first = (case cp_end of
                          None \<Rightarrow> LogFileId_first (is_stream_id st) | Some end \<Rightarrow> end_log_file_id end) in
           case iter_to first maximum of
             Err x \<Rightarrow> Some (Err (InitRange x), st, e)
           | Stop s \<Rightarrow> Some (Stop s, st, e)
           | Ok None \<Rightarrow> Some (Stop Panic, st, e)
           | Ok (Some ids) \<Rightarrow> validate_each crc32c cp_end maximum ids st e))"

definition remove_later_files :: "'h InitializationState \<Rightarrow> 'h env \<Rightarrow> 'h step_result" where
  "remove_later_files st e =
     (case is_first_file_to_remove st of
        None \<Rightarrow> (Ok (), st, e)
      | Some first \<Rightarrow>
          (case is_maximum_log_file st of
             None \<Rightarrow> (Stop Panic, st, e)
           | Some maximum \<Rightarrow>
               step_try st (remove_log_and_index (is_storage_provider st) first maximum e) (\<lambda>_ e. (Ok (), st, e))))"

definition advance_checkpoint ::
    "StreamCheckpoint json \<Rightarrow> 'h InitializationState \<Rightarrow> 'h env \<Rightarrow> 'h step_result" where
  "advance_checkpoint json st e =
     (case is_recovered_end st of
        None \<Rightarrow> (Ok (), st, e)
      | Some end \<Rightarrow>
          (let checkpoint = StreamCheckpoint_new end in
           if is_checkpoint st \<noteq> Some checkpoint
           then step_try st (write_checkpoint json (is_storage_provider st) checkpoint e) (\<lambda>_ e. (Ok (), st, e))
           else (Ok (), st, e)))"

definition prepare_active_pair :: "'h InitializationState \<Rightarrow> 'h env \<Rightarrow> 'h step_result" where
  "prepare_active_pair st e =
     (if is_active_pair st \<noteq> None then (Ok (), st, e)
      else
        (case (case is_recovered_end st of
                 None \<Rightarrow> Some (LogFileId_first (is_stream_id st))
               | Some end \<Rightarrow> LogFileId_next (end_log_file_id end)) of
           None \<Rightarrow> (Stop Panic, st, e)
         | Some file_id \<Rightarrow>
             step_try st (create_log_and_index (is_storage_provider st) file_id e) (\<lambda>(log, index) e.
               (Ok (), st\<lparr>is_active_pair := Some \<lparr>init_file_id = file_id, init_log = log,
                                                  init_index = index, init_end = None\<rparr>\<rparr>, e))))"

definition finish :: "'h InitializationState \<Rightarrow> 'h InitializedStream option" where
  "finish st = is_active_pair st"

text \<open>\<^verbatim>\<open>?\<close> between the steps, one of which may not return.\<close>

definition next_step ::
    "'h step_result option \<Rightarrow> ('h InitializationState \<Rightarrow> 'h env \<Rightarrow> 'h step_result option) \<Rightarrow>
     'h step_result option" where
  "next_step r k =
     (case r of
        None \<Rightarrow> None
      | Some (Ok _, st, e) \<Rightarrow> k st e
      | Some (Err x, st, e) \<Rightarrow> Some (Err x, st, e)
      | Some (Stop s, st, e) \<Rightarrow> Some (Stop s, st, e))"

definition initialize_steps ::
    "crc_fun \<Rightarrow> StreamCheckpoint json \<Rightarrow> StreamId \<Rightarrow> StorageProvider \<Rightarrow> 'h env \<Rightarrow> 'h step_result option" where
  "initialize_steps crc32c json sid storage_provider e =
     next_step (Some (load_checkpoint json (InitializationState_new sid storage_provider) e)) (\<lambda>st e.
     next_step (Some (discover_log_files st e)) (\<lambda>st e.
     next_step (validate_files crc32c st e) (\<lambda>st e.
     next_step (Some (remove_later_files st e)) (\<lambda>st e.
     next_step (Some (advance_checkpoint json st e)) (\<lambda>st e.
     Some (prepare_active_pair st e))))))"

definition initialize ::
    "crc_fun \<Rightarrow> StreamCheckpoint json \<Rightarrow> StreamId \<Rightarrow> StorageProvider \<Rightarrow> 'h env \<Rightarrow>
     (('h InitializedStream, InitializationError) outcome \<times> 'h env) option" where
  "initialize crc32c json sid storage_provider e =
     (case initialize_steps crc32c json sid storage_provider e of
        None \<Rightarrow> None
      | Some (Err x, st, e) \<Rightarrow> Some (Err x, e)
      | Some (Stop s, st, e) \<Rightarrow> Some (Stop s, e)
      | Some (Ok _, st, e) \<Rightarrow> Some (case finish st of None \<Rightarrow> Stop Panic | Some s \<Rightarrow> Ok s, e))"

subsection \<open>What the validation of one pair establishes\<close>

definition pair_end :: "'h ValidatedFilePair \<Rightarrow> RecordEndLocation option" where
  "pair_end p = (case p of Complete end \<Rightarrow> Some end | Partial end log index \<Rightarrow> end)"

definition is_complete :: "'h ValidatedFilePair \<Rightarrow> bool" where
  "is_complete p = (case p of Complete end \<Rightarrow> True | Partial end log index \<Rightarrow> False)"

lemma pair_end_simps [simp]:
  "pair_end (Complete end) = Some end" "pair_end (Partial end' log index) = end'"
  "is_complete (Complete end)" "\<not> is_complete (Partial end' log index)"
  by (simp_all add: pair_end_def is_complete_def)

lemma log_validate_end:
  assumes "log_validate c h f b e = Some (Ok v, e')"
  shows "within f b \<and> (\<exists>fs. vl_validated_end v = end_of b fs \<and> consecutive (first_expected f b) fs \<and>
    trusted_count b + length fs \<le> 100000)"
proof (cases rule: log_validate_cases [of c h f b e])
  case (early res e'' evs)
  then show ?thesis using assms by auto
next
  case (found res e'' sr e1 looks)
  then have "log_truncate_and_sync h sr e1 = (Ok v, e')" using assms by simp
  then have "vl_validated_end v = scan_validated_end sr" using log_truncate_and_sync_Ok by fastforce
  moreover have "within f b" using assms by (auto simp: within_def log_validate_def split: option.splits if_splits)
  ultimately show ?thesis using found(3) unfolding scanned_def scan_inv_def by force
qed

lemma pair_validate_end:
  assumes "pair_validate c sp f b e = Some (Ok p, e')" and "valid_log_file f"
  shows "within f b \<and> within f (pair_end p) \<and> trusted_count b \<le> trusted_count (pair_end p) \<and>
    (trusted_count (pair_end p) = 100000 \<longleftrightarrow> is_complete p) \<and> (is_complete p \<longrightarrow> pair_end p \<noteq> None)"
proof -
  obtain h i d1 d2 e2 v e3 e4 where log: "log_validate c h f b e2 = Some (Ok v, e3)"
    and pos: "pair_position v i e4 = (Ok p, e')"
    by (rule pair_validate_parts [OF assms(1)]) (rule that)
  obtain fs where fs: "within f b" "vl_validated_end v = end_of b fs" "consecutive (first_expected f b) fs"
      "trusted_count b + length fs \<le> 100000"
    using log_validate_end [OF log] by blast
  have "pair_end p = vl_validated_end v" and "trusted_count (vl_validated_end v) = 100000 \<longleftrightarrow> is_complete p"
      and "is_complete p \<longrightarrow> pair_end p \<noteq> None"
    using pair_position_Ok [OF pos] by (auto simp: pair_end_def is_complete_def split: if_splits)
  then show ?thesis using end_of_within [OF assms(2) fs(1,3,4)] fs(1,2) by simp
qed

subsection \<open>The recovered prefix\<close>

text \<open>
  \<open>reaches sid n r\<close>: the stream-wide end \<open>r\<close> is exactly in front of file \<open>n\<close>; it is the last record
  that fits into file \<open>n - 1\<close>, or the stream is empty and \<open>n\<close> is its first file.
\<close>

definition reaches :: "StreamId \<Rightarrow> nat \<Rightarrow> RecordEndLocation option \<Rightarrow> bool" where
  "reaches sid n r \<longleftrightarrow>
     (case r of None \<Rightarrow> n = 0
      | Some x \<Rightarrow> 0 < n \<and> end_log_file_id x = file_at sid (n - 1) \<and> trusted_count r = 100000)"

definition end_seq :: "RecordEndLocation \<Rightarrow> nat" where
  "end_seq x = seq_nat (sequence_number (end_record_id x))"

text \<open>The recovered end is not behind the checkpoint.\<close>

definition not_behind :: "RecordEndLocation option \<Rightarrow> RecordEndLocation option \<Rightarrow> bool" where
  "not_behind cp r \<longleftrightarrow> (\<forall>x. cp = Some x \<longrightarrow> (\<exists>y. r = Some y \<and> end_seq x \<le> end_seq y))"

text \<open>
  Before the pair of file \<open>k\<close> is validated: the walk is past the checkpoint's file, or at it.
\<close>

definition settled_inv :: "StreamId \<Rightarrow> RecordEndLocation option \<Rightarrow> nat \<Rightarrow> RecordEndLocation option \<Rightarrow> bool" where
  "settled_inv sid cp k r \<longleftrightarrow> reaches sid k r \<and> not_behind cp r \<and>
     (\<forall>x. cp = Some x \<longrightarrow> file_nat (file_number (end_log_file_id x)) < k)"

definition walk_inv :: "StreamId \<Rightarrow> RecordEndLocation option \<Rightarrow> nat \<Rightarrow> RecordEndLocation option \<Rightarrow> bool" where
  "walk_inv sid cp k r \<longleftrightarrow>
     (\<exists>x. cp = Some x \<and> end_log_file_id x = file_at sid k \<and> r = None) \<or> settled_inv sid cp k r"

text \<open>The outcome of the walk, up to the last discovered file \<open>m\<close>.\<close>

definition walk_post ::
    "StreamId \<Rightarrow> RecordEndLocation option \<Rightarrow> nat \<Rightarrow> nat \<Rightarrow> 'h InitializationState \<Rightarrow> bool" where
  "walk_post sid cp k m st \<longleftrightarrow>
     not_behind cp (is_recovered_end st) \<and>
     (case is_active_pair st of
        Some s \<Rightarrow> \<exists>n. k \<le> n \<and> n \<le> m \<and> init_file_id s = file_at sid n \<and> within (file_at sid n) (init_end s) \<and>
          trusted_count (init_end s) < 100000 \<and>
          (if init_end s = None then reaches sid n (is_recovered_end st) else is_recovered_end st = init_end s) \<and>
          is_first_file_to_remove st = (if n = m then None else Some (file_at sid (Suc n)))
      | None \<Rightarrow> \<exists>n. k \<le> n \<and> n \<le> Suc m \<and> reaches sid n (is_recovered_end st) \<and>
          is_first_file_to_remove st = (if n = Suc m then None else Some (file_at sid n)))"

lemma end_seq_count: "within f (Some x) \<Longrightarrow> Suc (end_seq x) = file_nat (file_number f) * 100000 + trusted_count (Some x)"
  using next_seq_Some [of f x] by (simp add: end_seq_def next_seq_def)

lemma end_seq_file: "end_seq x div 100000 = file_nat (file_number (end_log_file_id x))"
  by (simp add: end_seq_def end_log_file_id_def)

lemma first_file_at: "LogFileId_first s = file_at s 0" "valid_log_file (file_at s 0)"
  by (simp add: LogFileId_first_def file_at_def LogFileNumber_MIN_def) (rule valid_file_at, simp)

abbreviation trusted_in :: "RecordEndLocation option \<Rightarrow> LogFileId \<Rightarrow> RecordEndLocation option" where
  "trusted_in cp f \<equiv> (case cp of None \<Rightarrow> None | Some end \<Rightarrow> if end_log_file_id end = f then Some end else None)"

text \<open>One iteration on file \<open>k\<close>.\<close>

text \<open>A file whose validation found an end is not behind a checkpoint of that file or an earlier one.\<close>

lemma walked_end_not_behind:
  assumes inv: "walk_inv sid cp k r" and k: "k \<le> max_file" and y: "fin = Some y" "within (file_at sid k) fin"
    and grown: "trusted_count (trusted_in cp (file_at sid k)) \<le> trusted_count fin"
  shows "not_behind cp fin"
  unfolding not_behind_def
proof (intro allI impI)
  let ?f = "file_at sid k"
  have f: "valid_log_file ?f" "file_nat (file_number ?f) = k" using k by (simp_all add: valid_file_at)
  fix x
  assume x: "cp = Some x"
  have seq: "Suc (end_seq y) = k * 100000 + trusted_count fin" using end_seq_count [of ?f y] y f(2) by simp
  show "\<exists>y. fin = Some y \<and> end_seq x \<le> end_seq y"
  proof (cases "end_log_file_id x = ?f")
    case True
    then have "Suc (end_seq x) = k * 100000 + trusted_count (Some x)"
      using end_seq_count [of ?f x] f(2) by (simp add: within_def)
    then show ?thesis using grown seq y x True by simp
  next
    case False
    then have "file_nat (file_number (end_log_file_id x)) < k"
      using inv x by (auto simp: walk_inv_def settled_inv_def)
    then have "end_seq x < k * 100000" by (simp add: end_seq_file [symmetric] div_less_iff_less_mult)
    moreover have "0 < trusted_count fin" by (simp add: y trusted_count_def record_count_nat)
    ultimately show ?thesis using y seq by simp
  qed
qed

lemma walk_step:
  assumes inv: "walk_inv sid cp k r" and k: "k \<le> max_file"
    and run: "pair_validate c sp (file_at sid k) (trusted_in cp (file_at sid k)) e = Some (Ok p, e')"
  shows "if is_complete p then settled_inv sid cp (Suc k) (pair_end p)
    else within (file_at sid k) (pair_end p) \<and> trusted_count (pair_end p) < 100000 \<and>
      (if pair_end p = None then reaches sid k r \<and> not_behind cp r else not_behind cp (pair_end p))"
proof -
  let ?f = "file_at sid k"
  have f: "valid_log_file ?f" "file_nat (file_number ?f) = k" using k by (simp_all add: valid_file_at)
  note p = pair_validate_end [OF run f(1)]
  have behind: "not_behind cp (pair_end p)" if "pair_end p = Some y" for y
    using walked_end_not_behind [OF inv k that] p by simp
  show ?thesis
  proof (cases "is_complete p")
    case True
    then obtain y where y: "pair_end p = Some y" using p by auto
    have "reaches sid (Suc k) (pair_end p)" using p True y by (simp add: reaches_def within_def)
    moreover have "file_nat (file_number (end_log_file_id x)) < Suc k" if "cp = Some x" for x
      using inv that k by (auto simp: walk_inv_def settled_inv_def)
    ultimately show ?thesis using True behind [OF y] by (auto simp: settled_inv_def)
  next
    case False
    have count: "trusted_count (pair_end p) < 100000"
      using p False trusted_count_le [of "pair_end p"] by (simp add: le_neq_implies_less)
    show ?thesis
    proof (cases "pair_end p")
      case None
      then have "trusted_count (trusted_in cp ?f) = 0" using p by (simp add: trusted_count_def)
      then have "trusted_in cp ?f = None"
        by (cases "trusted_in cp ?f") (simp_all add: trusted_count_def record_count_nat)
      then have "settled_inv sid cp k r" using inv by (auto simp: walk_inv_def)
      then show ?thesis using False count None p by (simp add: settled_inv_def)
    next
      case (Some y)
      then show ?thesis using False count p behind by simp
    qed
  qed
qed

lemma walk_post_partial:
  assumes "k \<le> n" "n \<le> m" "within (file_at sid n) end" "trusted_count end < 100000"
    and "if end = None then reaches sid n r \<and> not_behind cp r else not_behind cp end"
    and "is_recovered_end st = (case end of None \<Rightarrow> r | Some _ \<Rightarrow> end)"
    and "is_active_pair st = Some \<lparr>init_file_id = file_at sid n, init_log = log, init_index = index, init_end = end\<rparr>"
    and "is_first_file_to_remove st = (if n = m then None else Some (file_at sid (Suc n)))"
  shows "walk_post sid cp k m st"
  using assms by (auto simp: walk_post_def split: if_splits option.splits)

text \<open>What the walk leaves of the state.\<close>

definition same_stream :: "'h InitializationState \<Rightarrow> 'h InitializationState \<Rightarrow> bool" where
  "same_stream st st' \<longleftrightarrow> is_stream_id st' = is_stream_id st \<and> is_storage_provider st' = is_storage_provider st \<and>
     is_checkpoint st' = is_checkpoint st \<and> is_maximum_log_file st' = is_maximum_log_file st"

lemma walk_post_le: "walk_post sid cp (Suc k) m st \<Longrightarrow> walk_post sid cp k m st"
  unfolding walk_post_def by (cases "is_active_pair st") (simp_all only: option.case, (meson Suc_leD)+)

lemma validate_each_walk:
  assumes "m \<le> max_file"
  shows "validate_each c cp (file_at sid m) (map (file_at sid) [k..<Suc m]) st e = Some (Ok u, st', e') \<Longrightarrow>
    k \<le> Suc m \<Longrightarrow> walk_inv sid cp k (is_recovered_end st) \<Longrightarrow>
    (k = Suc m \<Longrightarrow> settled_inv sid cp k (is_recovered_end st)) \<Longrightarrow>
    is_active_pair st = None \<Longrightarrow> is_first_file_to_remove st = None \<Longrightarrow>
    walk_post sid cp k m st' \<and> same_stream st st'"
proof (induction "Suc m - k" arbitrary: k st e)
  case 0
  then have "k = Suc m" "st' = st" by simp_all
  then show ?case using 0 by (auto simp: walk_post_def settled_inv_def same_stream_def)
next
  case (Suc n)
  let ?f = "file_at sid k"
  have k: "k \<le> m" "k \<le> max_file" using Suc.hyps(2) assms by simp_all
  then have ids: "map (file_at sid) [k..<Suc m] = ?f # map (file_at sid) [Suc k..<Suc m]"
    by (simp add: upt_conv_Cons del: upt_Suc)
  have "pair_validate c (is_storage_provider st) ?f (trusted_in cp ?f) e \<noteq> None"
    using Suc.prems(1) unfolding ids validate_each.simps Let_def by (metis option.case(1) option.discI)
  then obtain res e1 where c: "pair_validate c (is_storage_provider st) ?f (trusted_in cp ?f) e = Some (res, e1)"
    by fastforce
  note run = Suc.prems(1) [unfolded ids validate_each.simps Let_def c option.case prod.case]
  consider (complete) fin where "res = Ok (Complete fin)" | (partial) fin log index where "res = Ok (Partial fin log index)"
    | (missing) "trusted_in cp ?f = None" "st' = st\<lparr>is_first_file_to_remove := Some ?f\<rparr>"
    using run by (auto split: outcome.splits ValidatedFilePair.splits if_splits)
  then show ?case
  proof cases
    case complete
    have set: "settled_inv sid cp (Suc k) (Some fin)"
      using walk_step [OF Suc.prems(3) k(2), of c _ e "Complete fin" e1] c complete
      by (simp add: is_complete_def pair_end_def)
    have again: "validate_each c cp (file_at sid m) (map (file_at sid) [Suc k..<Suc m])
        (st\<lparr>is_recovered_end := Some fin\<rparr>) e1 = Some (Ok u, st', e')"
      using run unfolding complete by (simp only: outcome.case ValidatedFilePair.case)
    have "walk_post sid cp (Suc k) m st' \<and> same_stream (st\<lparr>is_recovered_end := Some fin\<rparr>) st'"
      by (rule Suc.hyps(1) [OF _ again]) (use set Suc.hyps(2) Suc.prems(5,6) k(1) in \<open>simp_all add: walk_inv_def\<close>)
    then show ?thesis using walk_post_le by (auto simp: same_stream_def)
  next
    case partial
    have step: "within ?f fin" "trusted_count fin < 100000"
        "if fin = None then reaches sid k (is_recovered_end st) \<and> not_behind cp (is_recovered_end st) else not_behind cp fin"
      using walk_step [OF Suc.prems(3) k(2), of c _ e "Partial fin log index" e1, unfolded pair_end_simps] c partial
      by auto
    have same: "?f = file_at sid m \<longleftrightarrow> k = m" by (rule file_at_inject [OF k(2) assms])
    have "LogFileId_next ?f = Some (file_at sid (Suc k))" if "k \<noteq> m"
      using that k assms by (intro LogFileId_next_file_at) simp
    then have st': "is_recovered_end st' = (case fin of None \<Rightarrow> is_recovered_end st | Some _ \<Rightarrow> fin)"
        "is_active_pair st' = Some \<lparr>init_file_id = ?f, init_log = log, init_index = index, init_end = fin\<rparr>"
        "is_first_file_to_remove st' = (if k = m then None else Some (file_at sid (Suc k)))" "same_stream st st'"
      using run partial same by (auto simp: same_stream_def split: if_splits)
    then show ?thesis using walk_post_partial [OF le_refl k(1) step st'(1-3)] by blast
  next
    case missing
    then have "settled_inv sid cp k (is_recovered_end st)"
      using Suc.prems(3) by (auto simp: walk_inv_def)
    then show ?thesis using missing Suc.prems(5) k(1)
      by (auto simp: walk_post_def same_stream_def settled_inv_def intro!: exI [of _ k])
  qed
qed

subsection \<open>The steps in order\<close>

abbreviation certified :: "'h InitializationState \<Rightarrow> RecordEndLocation option" where
  "certified st \<equiv> map_option checkpoint_end (is_checkpoint st)"

text \<open>After discovery: the checkpoint and the last log are of this stream.\<close>

definition discovered :: "StreamId \<Rightarrow> 'h InitializationState \<Rightarrow> bool" where
  "discovered sid st \<longleftrightarrow>
     is_stream_id st = sid \<and> is_recovered_end st = None \<and> is_active_pair st = None \<and>
     is_first_file_to_remove st = None \<and>
     (\<forall>f. is_maximum_log_file st = Some f \<longrightarrow> file_stream f = sid \<and> valid_log_file f) \<and>
     (\<forall>x. certified st = Some x \<longrightarrow> stream_id (end_record_id x) = sid \<and> is_maximum_log_file st \<noteq> None)"

text \<open>After validation.\<close>

definition recovered :: "StreamId \<Rightarrow> 'h InitializationState \<Rightarrow> bool" where
  "recovered sid st \<longleftrightarrow>
     is_stream_id st = sid \<and>
     (case is_maximum_log_file st of
        None \<Rightarrow> certified st = None \<and> is_recovered_end st = None \<and> is_active_pair st = None \<and>
          is_first_file_to_remove st = None
      | Some f \<Rightarrow> \<exists>k m. m \<le> max_file \<and> f = file_at sid m \<and> walk_post sid (certified st) k m st)"

lemma load_then_discover:
  assumes "load_checkpoint json (InitializationState_new sid sp) e = (Ok u, st1, e1)"
    and "discover_log_files st1 e1 = (Ok u', st2, e2)"
  shows "discovered sid st2 \<and> is_storage_provider st2 = sp"
proof -
  have 1: "st1 = (InitializationState_new sid sp)\<lparr>is_checkpoint := is_checkpoint st1\<rparr>"
      "\<forall>x. certified st1 = Some x \<longrightarrow> stream_id (end_record_id x) = sid"
    using assms(1) by (auto simp: load_checkpoint_def step_try_def InitializationState_new_def Let_def
        split: prod.splits outcome.splits option.splits if_splits)
  have base: "is_storage_provider st1 = sp" "is_stream_id st1 = sid" "is_recovered_end st1 = None"
      "is_active_pair st1 = None" "is_first_file_to_remove st1 = None"
    by (subst 1(1), simp add: InitializationState_new_def)+
  obtain mx e3 where m: "maximum_log_file sp sid e1 = (Ok mx, e3)"
      and st2: "st2 = st1\<lparr>is_maximum_log_file := mx\<rparr>" "is_checkpoint st1 \<noteq> None \<longrightarrow> mx \<noteq> None"
    using assms(2) base(1,2) by (auto simp: discover_log_files_def step_try_def Let_def
        split: prod.splits outcome.splits option.splits if_splits)
  have "file_stream f = sid \<and> valid_log_file f" if "mx = Some f" for f
    using maximum_log_file_valid [of sp sid e1 f e3] m that by simp
  then show ?thesis using base 1(2) st2 by (auto simp: discovered_def)
qed

lemma validate_files_recovers:
  assumes d: "discovered sid st" and run: "validate_files c st e = Some (Ok u, st', e')"
  shows "recovered sid st' \<and> same_stream st st'"
proof (cases "is_maximum_log_file st")
  case None
  then have "is_checkpoint st = None" using d by (cases "is_checkpoint st") (auto simp: discovered_def)
  then show ?thesis using None d run by (auto simp: validate_files_def recovered_def discovered_def same_stream_def)
next
  case (Some f)
  let ?cp = "certified st"
  define first where "first = (case ?cp of None \<Rightarrow> LogFileId_first (is_stream_id st) | Some x \<Rightarrow> end_log_file_id x)"
  have f: "file_stream f = sid" "valid_log_file f" using d Some by (auto simp: discovered_def)
  have first_ok: "file_stream first = sid" "valid_log_file first"
    using d by (auto simp: first_def discovered_def end_log_file_id_def first_file_at split: option.splits)
  define k m where "k = file_nat (file_number first)" and "m = file_nat (file_number f)"
  have at: "first = file_at sid k" "f = file_at sid m" "m \<le> max_file" "k \<le> max_file"
    using file_at_eq [OF f(2)] file_at_eq [OF first_ok(2)] f first_ok
    by (simp_all add: k_def m_def valid_log_file_def valid_file_def)
  obtain ids where it: "iter_to first f = Ok (Some ids)"
      and v: "validate_each c ?cp f ids st e = Some (Ok u, st', e')"
    using run Some unfolding validate_files_def Let_def first_def [symmetric]
    by (auto split: outcome.splits option.splits)
  have ids: "ids = map (file_at sid) [k..<Suc m]" "k \<le> m"
    using iter_to_files [OF it first_ok(2) f(2)] it first_ok(1) by (auto simp: k_def m_def iter_to_def file_less_iff split: if_splits)
  have "walk_inv sid ?cp k (is_recovered_end st)"
  proof (cases ?cp)
    case None
    then have "k = 0" by (simp add: k_def first_def first_file_at)
    then show ?thesis using None d by (simp add: walk_inv_def settled_inv_def reaches_def not_behind_def discovered_def)
  next
    case cp: (Some x)
    then have "end_log_file_id x = file_at sid k" using at(1) by (simp add: first_def cp del: map_option_eq_Some)
    moreover have "is_recovered_end st = None" using d by (simp add: discovered_def)
    ultimately show ?thesis unfolding walk_inv_def cp by simp
  qed
  then have "walk_post sid ?cp k m st' \<and> same_stream st st'"
    using validate_each_walk [OF at(3) v [unfolded ids at(2)]] ids(2) d by (simp add: discovered_def)
  then show ?thesis using Some at(2,3) d by (auto simp: recovered_def same_stream_def discovered_def)
qed

text \<open>The steps up to the removal of later files: what is recovered before anything is published.\<close>

definition recovery ::
    "crc_fun \<Rightarrow> StreamCheckpoint json \<Rightarrow> StreamId \<Rightarrow> StorageProvider \<Rightarrow> 'h env \<Rightarrow> 'h step_result option" where
  "recovery crc32c json sid sp e =
     next_step (Some (load_checkpoint json (InitializationState_new sid sp) e)) (\<lambda>st e.
     next_step (Some (discover_log_files st e)) (\<lambda>st e.
     next_step (validate_files crc32c st e) (\<lambda>st e. Some (remove_later_files st e))))"

lemma next_step_assoc: "next_step (next_step r k) k' = next_step r (\<lambda>st e. next_step (k st e) k')"
  by (auto simp: next_step_def split: option.splits prod.splits outcome.splits)

lemma initialize_steps_recovery:
  "initialize_steps c json sid sp e =
     next_step (recovery c json sid sp e) (\<lambda>st e.
     next_step (Some (advance_checkpoint json st e)) (\<lambda>st e. Some (prepare_active_pair st e)))"
  by (simp add: initialize_steps_def recovery_def next_step_assoc)

lemma next_step_eq_Ok:
  "next_step r k = Some (Ok y, st', e') \<longleftrightarrow> (\<exists>x st e. r = Some (Ok x, st, e) \<and> k st e = Some (Ok y, st', e'))"
  by (auto simp: next_step_def split: option.splits outcome.splits)

lemma step_try_eq_Ok: "step_try st r k = (Ok y, st', e') \<longleftrightarrow> (\<exists>x e. r = (Ok x, e) \<and> k x e = (Ok y, st', e'))"
  by (auto simp: step_try_def split: prod.splits outcome.splits)

lemma remove_later_files_keeps: "remove_later_files st e = (Ok u, st', e') \<Longrightarrow> st' = st"
  by (auto simp: remove_later_files_def step_try_eq_Ok split: option.splits)

lemma advance_checkpoint_keeps: "advance_checkpoint json st e = (Ok u, st', e') \<Longrightarrow> st' = st"
  by (auto simp: advance_checkpoint_def step_try_eq_Ok Let_def split: option.splits if_splits)

lemma recovery_recovers:
  assumes "recovery c json sid sp e = Some (Ok u, st, e')"
  shows "recovered sid st \<and> is_storage_provider st = sp"
proof -
  obtain u1 st1 e1 u2 st2 e2 u3 st3 e3 where
    "load_checkpoint json (InitializationState_new sid sp) e = (Ok u1, st1, e1)"
    "discover_log_files st1 e1 = (Ok u2, st2, e2)" "validate_files c st2 e2 = Some (Ok u3, st3, e3)"
    "remove_later_files st3 e3 = (Ok u, st, e')"
    using assms by (auto simp: recovery_def next_step_eq_Ok)
  then show ?thesis
    using load_then_discover validate_files_recovers remove_later_files_keeps unfolding same_stream_def by metis
qed

text \<open>\<open>prepared sid st s\<close>: the active pair \<open>s\<close> continues the recovered stream.\<close>

definition prepared :: "StreamId \<Rightarrow> RecordEndLocation option \<Rightarrow> 'h InitializedStream \<Rightarrow> nat \<Rightarrow> bool" where
  "prepared sid r s n \<longleftrightarrow>
     n \<le> max_file \<and> init_file_id s = file_at sid n \<and> within (file_at sid n) (init_end s) \<and>
     trusted_count (init_end s) < 100000 \<and> (if init_end s = None then reaches sid n r else r = init_end s)"

lemma prepare_active_pair_prepares:
  assumes r: "recovered sid st" and run: "prepare_active_pair st e = (Ok u, st', e')"
  shows "\<exists>s n. is_active_pair st' = Some s \<and> prepared sid (is_recovered_end st') s n \<and>
    is_recovered_end st' = is_recovered_end st \<and> is_checkpoint st' = is_checkpoint st \<and>
    not_behind (certified st) (is_recovered_end st) \<and>
    (case is_first_file_to_remove st of None \<Rightarrow> True
     | Some g \<Rightarrow> \<exists>j. g = file_at sid j \<and> (j = Suc n \<or> j = n \<and> is_active_pair st = None))"
proof (cases "is_active_pair st")
  case (Some s)
  then have same: "st' = st" using run by (simp add: prepare_active_pair_def)
  obtain f k m where f: "is_maximum_log_file st = Some f" "m \<le> max_file" "walk_post sid (certified st) k m st"
    using r Some by (auto simp: recovered_def split: option.splits)
  then obtain n where "n \<le> m" "init_file_id s = file_at sid n" "within (file_at sid n) (init_end s)"
      "trusted_count (init_end s) < 100000"
      "if init_end s = None then reaches sid n (is_recovered_end st) else is_recovered_end st = init_end s"
      "is_first_file_to_remove st = (if n = m then None else Some (file_at sid (Suc n)))"
    using Some by (auto simp: walk_post_def)
  then have "prepared sid (is_recovered_end st) s n" using f(2) by (simp add: prepared_def)
  then show ?thesis using same Some f(3) \<open>is_first_file_to_remove st = _\<close>
    by (intro exI [of _ s] exI [of _ n]) (simp add: walk_post_def split: option.splits)
next
  case None
  obtain n where n: "reaches sid n (is_recovered_end st)" "n \<le> Suc max_file"
      "not_behind (certified st) (is_recovered_end st)"
      "is_first_file_to_remove st = None \<or> is_first_file_to_remove st = Some (file_at sid n)"
    using r None by (force simp: recovered_def walk_post_def reaches_def not_behind_def split: option.splits if_splits)
  obtain file_id log index where g: "(case is_recovered_end st of None \<Rightarrow> Some (LogFileId_first (is_stream_id st))
      | Some x \<Rightarrow> LogFileId_next (end_log_file_id x)) = Some file_id"
    and st': "st' = st\<lparr>is_active_pair := Some \<lparr>init_file_id = file_id, init_log = log, init_index = index, init_end = None\<rparr>\<rparr>"
    using run None by (auto simp: prepare_active_pair_def step_try_eq_Ok split: option.splits)
  have "file_id = file_at sid n \<and> n \<le> max_file"
  proof (cases "is_recovered_end st")
    case None
    then show ?thesis using g n(1) r by (simp add: reaches_def first_file_at recovered_def)
  next
    case (Some x)
    then obtain j where j: "n = Suc j" "end_log_file_id x = file_at sid j" "j \<le> max_file"
      using n(1,2) by (cases n) (auto simp: reaches_def)
    have "j < max_file"
      using g Some j by (auto simp: LogFileId_next_eq_Some)
    then show ?thesis using g Some j LogFileId_next_file_at [of j sid] by simp
  qed
  then have "prepared sid (is_recovered_end st') \<lparr>init_file_id = file_id, init_log = log, init_index = index, init_end = None\<rparr> n"
    using n(1) st' by (simp add: prepared_def within_def trusted_count_def)
  then show ?thesis using n st' None by (intro exI [of _ "\<lparr>init_file_id = file_id, init_log = log, init_index = index, init_end = None\<rparr>"]
      exI [of _ n]) auto
qed

subsection \<open>The calls of the steps\<close>

text \<open>The paths that a call names.\<close>

fun call_paths :: "'h call \<Rightarrow> path list" where
  "call_paths (OpenRead p) = [p]"
| "call_paths (OpenExisting p) = [p]"
| "call_paths (OpenOrCreate p) = [p]"
| "call_paths (OpenNew p) = [p]"
| "call_paths (OpenTruncate p) = [p]"
| "call_paths (CreateDirAll p) = [p]"
| "call_paths (RemoveFile p) = [p]"
| "call_paths (Rename p q) = [p, q]"
| "call_paths (ReadDir p) = [p]"
| "call_paths (NextEntry p) = [p]"
| "call_paths (FileType p) = [p]"
| "call_paths _ = []"

definition in_stream :: "StorageProvider \<Rightarrow> StreamId \<Rightarrow> 'h call \<Rightarrow> bool" where
  "in_stream sp sid c \<longleftrightarrow> (\<forall>p\<in>set (call_paths c). prefix (stream_directory sp sid) p)"

fun removes :: "'h call \<Rightarrow> bool" where
  "removes (RemoveFile p) = True"
| "removes _ = False"

fun renames :: "'h call \<Rightarrow> bool" where
  "renames (Rename p q) = True"
| "renames _ = False"

text \<open>Calls that change or remove an existing file.\<close>

fun alters :: "'h call \<Rightarrow> bool" where
  "alters (Write h bs) = True"
| "alters (WriteAll h bs) = True"
| "alters (SetLen h n) = True"
| "alters (OpenTruncate p) = True"
| "alters (RemoveFile p) = True"
| "alters (Rename p q) = True"
| "alters _ = False"

definition recovery_call :: "StorageProvider \<Rightarrow> StreamId \<Rightarrow> 'h call \<Rightarrow> bool" where
  "recovery_call sp sid c \<longleftrightarrow> in_stream sp sid c \<and> \<not> renames c \<and> \<not> removes c"

lemma on_handle_call: "on_handle h c \<Longrightarrow> recovery_call sp sid c"
  by (cases c) (auto simp: recovery_call_def in_stream_def)

lemma browses_call: "browses (stream_directory sp sid) c \<Longrightarrow> recovery_call sp sid c"
  by (cases c) (auto simp: recovery_call_def in_stream_def)

lemma extends_mono: "extends Q e e' \<Longrightarrow> (\<And>c. Q c \<Longrightarrow> Q' c) \<Longrightarrow> extends Q' e e'"
  by (auto simp: extends_def)

lemma only_callsD: "only_calls Q m \<Longrightarrow> m e = (r, e') \<Longrightarrow> extends Q e e'"
  by (auto simp: only_calls_extends)

lemma stream_paths:
  "prefix (stream_directory sp sid) (checkpoint_file_path sp sid)"
  "prefix (stream_directory sp sid) (with_added_extension (checkpoint_file_path sp sid) ''pending'')"
  "prefix (stream_directory sp sid) (parent (checkpoint_file_path sp sid))"
  "file_stream f = sid \<Longrightarrow> prefix (stream_directory sp sid) (log_file_path sp f)"
  "file_stream f = sid \<Longrightarrow> prefix (stream_directory sp sid) (index_file_path sp f)"
  "file_stream f = sid \<Longrightarrow> prefix (stream_directory sp sid) (parent (log_file_path sp f))"
  "file_stream f = sid \<Longrightarrow> prefix (stream_directory sp sid) (parent (index_file_path sp f))"
  by (auto simp: checkpoint_file_path_def with_added_extension_def parent_def log_file_path_def index_file_path_def
      log_or_index_file_path_def Let_def butlast_append)

lemma step_try_extends:
  assumes "step_try st (m e) k = (r, st', e')" and "only_calls Q m"
    and "\<And>x e1. k x e1 = (r, st', e') \<Longrightarrow> extends Q e1 e'"
  shows "extends Q e e'"
proof -
  obtain q e1 where q: "m e = (q, e1)" by fastforce
  note 1 = only_callsD [OF assms(2) q]
  show ?thesis
  proof (cases q)
    case (Ok x)
    then show ?thesis using assms(1,3) q 1 extends_trans by (fastforce simp: step_try_def)
  qed (use assms(1) q 1 in \<open>auto simp: step_try_def\<close>)
qed

lemma log_validate_extends:
  assumes "log_validate c h f b e = Some (res, e')"
  shows "extends (on_handle h) e e'"
proof (cases rule: log_validate_cases [of c h f b e])
  case (early res' e'' evs)
  then show ?thesis using assms only_looks_on_handle [of h] by (auto simp: extends_def)
next
  case (found res' e'' sr e1 looks)
  then have t: "log_truncate_and_sync h sr e1 = (res, e')" using assms by simp
  have "extends (on_handle h) e1 e'" using log_truncate_and_sync_trace [OF t] by (auto simp: extends_def)
  moreover have "extends (on_handle h) e e1"
    using found(2) scanned_looks [OF found(3)] only_looks_on_handle [of h] by (auto simp: extends_def)
  ultimately show ?thesis by (rule extends_trans [rotated])
qed

lemma replace_suffix_extends:
  assumes run: "replace_suffix h start ends e = (res, e')"
  shows "extends (on_handle h) e e'"
proof -
  let ?w = "(iw_with_file h)\<lparr>iw_buffer := concat (map encode_position ends)\<rparr>"
  have w: "write_entries ends (iw_with_file h) = (Ok (), ?w)" "iw_usable ?w" "iw_file ?w = h"
    by (simp_all add: write_entries_usable iw_with_file_def)
  obtain r1 e1 where c1: "unit_call (SetLen h start) e = (r1, e1)" by fastforce
  obtain r2 e2 where c2: "size_call (Seek h start) e1 = (r2, e2)" by fastforce
  obtain r3 w3 e3 where c3: "iw_flush_buffer ?w e2 = (r3, w3, e3)" by (cases "iw_flush_buffer ?w e2") auto
  obtain r4 w4 e4 where c4: "iw_flush w3 e3 = (r4, w4, e4)" by (cases "iw_flush w3 e3") auto
  obtain r5 e5 where c5: "unit_call (SyncData h) e4 = (r5, e5)" by fastforce
  have x1: "extends (on_handle h) e e1" by (rule extends_typed [OF c1]) simp
  have x2: "extends (on_handle h) e e2" by (rule extends_trans [OF x1 extends_typed [OF c2]]) simp
  obtain evs where b: "trace e3 = trace e2 @ evs" "writes_on h evs" "iw_file w3 = h" "iw_usable w3 = is_ok r3"
    using iw_flush_buffer_sends [OF w(2) c3] w(3) by auto
  have x3: "extends (on_handle h) e e3"
    by (rule extends_trans [OF x2]) (use b(1,2) in \<open>auto simp: extends_def writes_on_handle\<close>)
  have x4: "extends (on_handle h) e e4" if "is_ok r3"
    by (rule extends_trans [OF x3]) (use index_output.flush_calls [OF _ c4] b that in \<open>auto simp: extends_def\<close>)
  have x5: "extends (on_handle h) e e5" if "is_ok r3"
    by (rule extends_trans [OF x4 [OF that] extends_typed [OF c5]]) simp
  note run = run [unfolded replace_suffix_def c1 c2 w(1) c3 c4 c5 prod.case]
  show ?thesis
  proof (cases "is_ok r1 \<and> is_ok r2 \<and> is_ok r3")
    case False
    then show ?thesis using run x1 x2 x3 c1 c2 c3 w(1) by (auto split: outcome.splits)
  next
    case True
    then obtain u1 u2 u3 where "r1 = Ok u1" "r2 = Ok u2" "r3 = Ok u3" by (auto simp: is_ok_iff)
    then show ?thesis using run x4 x5 True c1 c2 c3 c4 c5 w(1) by (auto split: outcome.splits)
  qed
qed

lemma index_validate_extends:
  assumes run: "index_validate h b ends e = (res, e')"
  shows "extends (on_handle h) e e'"
proof -
  obtain r e1 where c: "check_trusted_entry h b e = (r, e1)" by fastforce
  have 1: "extends (on_handle h) e e1" using check_trusted_entry_trace [OF c] by (auto simp: extends_def)
  have "e' = e \<or> e' = e1 \<or> (\<exists>start. replace_suffix h start ends e1 = (res, e'))"
    using run c by (cases r) (auto simp: index_validate_def Let_def split: if_splits)
  then show ?thesis using 1 replace_suffix_extends extends_trans by (metis extends_refl)
qed

text \<open>\<open>?\<close> on computations that may not return.\<close>

lemma try_run_extends:
  assumes "try_run r k = Some (res, e')" and "\<And>q e1. r = Some (q, e1) \<Longrightarrow> extends Q e e1"
    and "\<And>x e1. k x e1 = Some (res, e') \<Longrightarrow> extends Q e1 e'"
  shows "extends Q e e'"
proof -
  obtain q e1 where q: "r = Some (q, e1)" using assms(1) by (cases r) (auto simp: try_run_def)
  note 1 = assms(2) [OF q]
  show ?thesis
  proof (cases q)
    case (Ok x)
    then show ?thesis using assms(1,3) q 1 extends_trans by fastforce
  qed (use assms(1) q 1 in auto)
qed

lemma only_calls_into_err [intro]: "only_calls Q m \<Longrightarrow> only_calls Q (\<lambda>e. into_err f (m e))"
  by (simp add: only_calls_def into_err_def split_beta)

lemma pair_position_calls:
  assumes Q: "\<And>h c. on_handle h c \<Longrightarrow> Q c"
  shows "only_calls Q (pair_position v i)"
proof -
  have "only_calls Q (\<lambda>e. try_io (into_err f (size_call (Seek h n) e)) (\<lambda>_ e.
      try_io (into_err g (size_call (Seek i m) e)) (\<lambda>_ e. (Ok x, e))))" for f g h n m x
    by (intro only_calls_try only_calls_into_err only_calls_typed only_calls_pure Q) simp_all
  note partial = this
  show ?thesis unfolding pair_position_def [abs_def] Let_def
    by (cases "vl_validated_end v"; simp only: option.case)
      (rule partial, rule only_calls_if [OF only_calls_pure partial])
qed

lemma open_index_calls:
  assumes "Q (OpenOrCreate (index_file_path sp f))" "Q (OpenRead (parent (index_file_path sp f)))"
    and Q: "\<And>h c. on_handle h c \<Longrightarrow> Q c"
  shows "only_calls Q (open_index_for_repair sp f)"
  unfolding open_index_for_repair_def [abs_def] Let_def
  by (intro only_calls_try only_calls_at_path only_calls_typed sync_directory_calls only_calls_pure assms Q) simp_all

text \<open>A validation opens the log, and then works on its two files.\<close>

definition validate_opened ::
    "crc_fun \<Rightarrow> StorageProvider \<Rightarrow> LogFileId \<Rightarrow> RecordEndLocation option \<Rightarrow> 'h \<Rightarrow> 'h env \<Rightarrow>
     (('h ValidatedFilePair, IndexedLogValidationError) outcome \<times> 'h env) option" where
  "validate_opened c sp f b log e =
     try_run (Some (into_err PairStorage (open_index_for_repair sp f e))) (\<lambda>index e.
     try_run (map_option (into_err PairLog) (log_validate c log f b e)) (\<lambda>v e.
     try_run (Some (into_err PairIndex (index_validate index b (vl_suffix_ends v) e))) (\<lambda>index e.
     Some (pair_position v index e))))"

lemma pair_validate_opened:
  "pair_validate c sp f b e =
     try_run (Some (into_err PairStorage (open_log_for_validation sp f e))) (validate_opened c sp f b)"
  by (simp add: pair_validate_def validate_opened_def [abs_def])

lemma validate_opened_extends:
  assumes run: "validate_opened c sp f b log e = Some (res, e')"
    and paths: "Q (OpenOrCreate (index_file_path sp f))" "Q (OpenRead (parent (index_file_path sp f)))"
    and Q: "\<And>h c. on_handle h c \<Longrightarrow> Q c"
  shows "extends Q e e'"
proof -
  have index: "only_calls Q (open_index_for_repair sp f)" using paths Q by (rule open_index_calls)
  have position: "only_calls Q (pair_position v i)" for v i using Q by (rule pair_position_calls)
  show ?thesis using run unfolding validate_opened_def
  proof (rule try_run_extends)
    fix q e2
    assume "Some (into_err PairStorage (open_index_for_repair sp f e)) = Some (q, e2)"
    then show "extends Q e e2"
      using only_callsD [OF only_calls_into_err [OF index]] by (metis option.inject)
  next
    fix index e2
    assume "try_run (map_option (into_err PairLog) (log_validate c log f b e2)) (\<lambda>v e.
      try_run (Some (into_err PairIndex (index_validate index b (vl_suffix_ends v) e))) (\<lambda>index e.
      Some (pair_position v index e))) = Some (res, e')"
    then show "extends Q e2 e'"
    proof (rule try_run_extends)
      fix q e3
      assume "map_option (into_err PairLog) (log_validate c log f b e2) = Some (q, e3)"
      then show "extends Q e2 e3" using log_validate_extends extends_mono [OF _ Q] by (fastforce simp: into_err_def)
    next
      fix v e3
      assume "try_run (Some (into_err PairIndex (index_validate index b (vl_suffix_ends v) e3))) (\<lambda>index e.
        Some (pair_position v index e)) = Some (res, e')"
      then show "extends Q e3 e'"
      proof (rule try_run_extends)
        fix q e4
        assume "Some (into_err PairIndex (index_validate index b (vl_suffix_ends v) e3)) = Some (q, e4)"
        then show "extends Q e3 e4"
          using index_validate_extends extends_mono [OF _ Q] by (fastforce simp: into_err_def split: prod.splits)
      next
        fix i e4
        assume "Some (pair_position v i e4) = Some (res, e')"
        then show "extends Q e4 e'" using only_callsD [OF position] by simp
      qed
    qed
  qed
qed

lemma pair_validate_opens:
  assumes run: "pair_validate c sp f b e = Some (res, e')"
    and paths: "Q (OpenOrCreate (index_file_path sp f))" "Q (OpenRead (parent (index_file_path sp f)))"
    and Q: "\<And>h c. on_handle h c \<Longrightarrow> Q c"
  shows "\<exists>a e1. trace e1 = trace e @ [(OpenExisting (log_file_path sp f), a)] \<and> extends Q e1 e'"
proof -
  obtain q e1 where c: "open_call (OpenExisting (log_file_path sp f)) e = (q, e1)" by fastforce
  have "extends Q e1 e'"
  proof (cases q)
    case (Ok log)
    then have "validate_opened c sp f b log e1 = Some (res, e')"
      using run c by (simp add: pair_validate_opened open_log_for_validation_def Let_def)
    then show ?thesis using paths Q by (rule validate_opened_extends)
  qed (use run c in \<open>auto simp: pair_validate_opened open_log_for_validation_def Let_def\<close>)
  then show ?thesis using typed_call_trace [OF c] by blast
qed

lemma pair_validate_extends:
  assumes run: "pair_validate c sp f b e = Some (res, e')" and f: "file_stream f = sid"
  shows "extends (recovery_call sp sid) e e'"
proof -
  have "recovery_call sp sid c" if "on_handle h c" for h :: 'a and c by (rule on_handle_call [OF that])
  then obtain a e1 where e1: "trace e1 = trace e @ [(OpenExisting (log_file_path sp f), a)]" "extends (recovery_call sp sid) e1 e'"
    using pair_validate_opens [OF run, of "recovery_call sp sid"] f
    by (auto simp: recovery_call_def in_stream_def stream_paths)
  have "extends (recovery_call sp sid) e e1"
    using e1(1) f by (auto simp: extends_def recovery_call_def in_stream_def stream_paths)
  then show ?thesis using e1(2) by (rule extends_trans)
qed

text \<open>The steps, whatever their outcome.\<close>

definition at_stream :: "StreamId \<Rightarrow> StorageProvider \<Rightarrow> 'h InitializationState \<Rightarrow> bool" where
  "at_stream sid sp st \<longleftrightarrow> is_stream_id st = sid \<and> is_storage_provider st = sp"

lemma read_json_calls:
  assumes "Q (OpenRead p)" and "\<And>h n. Q (ReadToEnd h n)"
  shows "only_calls Q (read_json json p n)"
  unfolding read_json_def [abs_def]
proof (rule only_calls_case)
  show "only_calls Q (open_call (OpenRead p))" by (rule only_calls_typed) (rule assms(1))
  show "only_calls Q (\<lambda>e. if x = NotFound then (Ok None, e) else (Err (StorageIo p x), e))" for x
    by (intro only_calls_if only_calls_pure)
  show "only_calls Q (\<lambda>e. try_io (at_path p (bytes_call (ReadToEnd h (saturating_add n 1)) e)) (\<lambda>bytes e.
      if n < of_nat (length bytes) then (Err (StorageTooLarge p n), e)
      else (case from_slice json bytes of Inr value \<Rightarrow> (Ok (Some value), e) | Inl x \<Rightarrow> (Err (StorageJson p x), e))))" for h
  proof (intro only_calls_try only_calls_at_path only_calls_typed assms(2) only_calls_if only_calls_pure)
    show "only_calls Q (\<lambda>e. case from_slice json bytes of Inr value \<Rightarrow> (Ok (Some value), e) | Inl x \<Rightarrow> (Err (StorageJson p x), e))" for bytes
      by (cases "from_slice json bytes") auto
  qed
qed

lemma load_checkpoint_extends:
  assumes "load_checkpoint json st e = (r, st', e')" and st: "at_stream sid sp st"
  shows "extends (recovery_call sp sid) e e' \<and> at_stream sid sp st'"
proof
  have "only_calls (recovery_call sp sid) (read_checkpoint json sp sid)"
    unfolding read_checkpoint_def
    by (rule read_json_calls) (simp_all add: recovery_call_def in_stream_def stream_paths)
  then show "extends (recovery_call sp sid) e e'"
    using assms unfolding load_checkpoint_def at_stream_def
    by (elim conjE step_try_extends) (auto simp: Let_def split: option.splits if_splits)
  show "at_stream sid sp st'" using assms
    by (auto simp: load_checkpoint_def step_try_def at_stream_def Let_def split: prod.splits outcome.splits option.splits if_splits)
qed

lemma discover_extends:
  assumes "discover_log_files st e = (r, st', e')" and st: "at_stream sid sp st"
  shows "extends (recovery_call sp sid) e e' \<and> at_stream sid sp st'"
proof
  have "only_calls (recovery_call sp sid) (maximum_log_file sp sid)"
    by (rule only_calls_mono [OF maximum_log_file_calls browses_call])
  then show "extends (recovery_call sp sid) e e'"
    using assms unfolding discover_log_files_def at_stream_def
    by (elim conjE step_try_extends) (auto simp: Let_def split: option.splits if_splits)
  show "at_stream sid sp st'" using assms
    by (auto simp: discover_log_files_def step_try_def at_stream_def Let_def split: prod.splits outcome.splits option.splits if_splits)
qed

lemma validate_each_extends:
  "validate_each c cp mx ids st e = Some (r, st', e') \<Longrightarrow> \<forall>f\<in>set ids. file_stream f = sid \<Longrightarrow> at_stream sid sp st \<Longrightarrow>
   extends (recovery_call sp sid) e e' \<and> at_stream sid sp st'"
proof (induction ids arbitrary: st e)
  case (Cons f ids)
  have "pair_validate c (is_storage_provider st) f (trusted_in cp f) e \<noteq> None"
    using Cons.prems(1) unfolding validate_each.simps Let_def by (metis option.case(1) option.discI)
  then obtain res e1 where c: "pair_validate c (is_storage_provider st) f (trusted_in cp f) e = Some (res, e1)"
    by fastforce
  have 1: "extends (recovery_call sp sid) e e1"
    using pair_validate_extends [OF c, of sid] Cons.prems(2,3) by (simp add: at_stream_def)
  note run = Cons.prems(1) [unfolded validate_each.simps Let_def c option.case prod.case]
  show ?case
  proof (cases "\<exists>fin. res = Ok (Complete fin)")
    case True
    then obtain fin where "validate_each c cp mx ids (st\<lparr>is_recovered_end := Some fin\<rparr>) e1 = Some (r, st', e')"
      using run by auto
    from Cons.IH [OF this] Cons.prems(2,3) show ?thesis using extends_trans [OF 1] by (simp add: at_stream_def)
  next
    case False
    then have "e' = e1 \<and> at_stream sid sp st'" using run Cons.prems(3)
      by (auto simp: at_stream_def split: outcome.splits ValidatedFilePair.splits if_splits option.splits)
    then show ?thesis using 1 by simp
  qed
qed simp

lemma file_successors_stream: "file_successors a b = Some fs \<Longrightarrow> f \<in> set fs \<Longrightarrow> file_stream f = file_stream a"
proof (induction a b arbitrary: fs rule: file_successors.induct)
  case (1 a b)
  show ?case
  proof (cases "a = b")
    case True
    then have "fs = [a]" using "1.prems"(1) by (simp add: file_successors.simps)
    then show ?thesis using "1.prems"(2) by simp
  next
    case False
    then obtain g gs where "LogFileId_next a = Some g" "file_successors g b = Some gs" "fs = a # gs"
      using "1.prems"(1) by (auto simp: file_successors.simps [of a b] split: option.splits)
    then show ?thesis using "1.IH" [OF False] "1.prems"(2) by (auto simp: LogFileId_next_eq_Some)
  qed
qed

lemma validate_files_extends:
  assumes "validate_files c st e = Some (r, st', e')" and d: "discovered sid st" "is_storage_provider st = sp"
  shows "extends (recovery_call sp sid) e e' \<and> at_stream sid sp st'"
proof -
  have st: "at_stream sid sp st" using d by (simp add: at_stream_def discovered_def)
  define first where "first = (case certified st of None \<Rightarrow> LogFileId_first (is_stream_id st) | Some x \<Rightarrow> end_log_file_id x)"
  have first: "file_stream first = sid"
    using d by (auto simp: first_def discovered_def end_log_file_id_def first_file_at split: option.splits)
  note run = assms(1) [unfolded validate_files_def Let_def first_def [symmetric]]
  consider "e' = e" "st' = st"
    | mx ids where "iter_to first mx = Ok (Some ids)" "validate_each c (certified st) mx ids st e = Some (r, st', e')"
    using run by (auto split: option.splits outcome.splits)
  then show ?thesis
  proof cases
    case 1
    then show ?thesis using st by simp
  next
    case 2
    have "\<forall>f\<in>set ids. file_stream f = sid"
      using 2(1) file_successors_stream [of first mx ids] first by (auto simp: iter_to_def split: if_splits)
    then show ?thesis using validate_each_extends [OF 2(2) _ st] by blast
  qed
qed

text \<open>Removal is limited to the files from the first one to remove on.\<close>

definition removal_from :: "StorageProvider \<Rightarrow> StreamId \<Rightarrow> LogFileId option \<Rightarrow> 'h call \<Rightarrow> bool" where
  "removal_from sp sid g c \<longleftrightarrow> in_stream sp sid c \<and> \<not> renames c \<and>
     (\<forall>p. c = RemoveFile p \<longrightarrow> (\<exists>j k. g = Some (file_at sid j) \<and> j \<le> k \<and> k \<le> max_file \<and>
        (p = log_file_path sp (file_at sid k) \<or> p = index_file_path sp (file_at sid k))))"

lemma first_to_remove:
  assumes "recovered sid st" and "is_first_file_to_remove st = Some g"
  shows "\<exists>m j. is_maximum_log_file st = Some (file_at sid m) \<and> g = file_at sid j \<and> j \<le> m \<and> m \<le> max_file"
proof -
  obtain k m where m: "m \<le> max_file" "is_maximum_log_file st = Some (file_at sid m)" "walk_post sid (certified st) k m st"
    using assms by (auto simp: recovered_def split: option.splits)
  then have "\<exists>j. g = file_at sid j \<and> j \<le> m"
    using assms(2) by (auto simp: walk_post_def Suc_le_eq le_Suc_eq split: option.splits if_splits)
  then show ?thesis using m by blast
qed

lemma remove_later_files_extends:
  assumes "remove_later_files st e = (r, st', e')" and d: "recovered sid st" "is_storage_provider st = sp"
  shows "extends (removal_from sp sid (is_first_file_to_remove st)) e e'"
proof (cases "is_first_file_to_remove st")
  case None
  then show ?thesis using assms(1) by (simp add: remove_later_files_def)
next
  case (Some g)
  obtain m j where m: "is_maximum_log_file st = Some (file_at sid m)" "g = file_at sid j" "j \<le> m" "m \<le> max_file"
    using first_to_remove [OF d(1) Some] by blast
  have it: "iter_to g (file_at sid m) = Ok (Some (map (file_at sid) [j..<Suc m]))"
    using m file_successors_enumerates [OF m(3,4), of sid]
    by (simp add: iter_to_def file_less_iff del: upt_Suc)
  have "only_calls (removal_from sp sid (Some g)) (remove_log_and_index sp g (file_at sid m))"
  proof (rule only_calls_mono [OF remove_log_and_index_calls [OF it]])
    fix c :: "'b call"
    assume "removal_call sp (set (map (file_at sid) [j..<Suc m])) c"
    then show "removal_from sp sid (Some g) c"
    proof (cases c)
      case (RemoveFile p)
      then obtain i where "j \<le> i" "i \<le> m" "p = log_file_path sp (file_at sid i) \<or> p = index_file_path sp (file_at sid i)"
        using \<open>removal_call sp _ c\<close> by (auto simp del: upt_Suc)
      moreover from this have "prefix (stream_directory sp sid) p" by (auto simp: stream_paths)
      ultimately show ?thesis using RemoveFile m(2,4) order_trans unfolding removal_from_def in_stream_def by fastforce
    qed (auto simp: removal_from_def in_stream_def stream_paths simp del: upt_Suc)
  qed
  then show ?thesis using assms(1) Some m(1) d(2) by (auto simp: remove_later_files_def elim!: step_try_extends)
qed

lemma recovered_end_stream:
  assumes "recovered sid st" and "is_recovered_end st = Some x"
  shows "stream_id (end_record_id x) = sid"
proof -
  have "\<exists>n. end_log_file_id x = file_at sid n"
    using assms by (auto simp: recovered_def walk_post_def reaches_def within_def split: option.splits if_splits)
  then show ?thesis unfolding end_log_file_id_def by (metis file_at_sel(1) from_record_id_sel(1))
qed

definition publishing_call :: "StorageProvider \<Rightarrow> StreamId \<Rightarrow> 'h call \<Rightarrow> bool" where
  "publishing_call sp sid c \<longleftrightarrow> in_stream sp sid c \<and> \<not> removes c"

lemma write_json_calls:
  assumes "\<And>h. Q (SyncAll h)" "\<And>h bs. Q (WriteAll h bs)" "\<And>h. Q (Flush h)"
    and "Q (OpenTruncate (with_added_extension p ''pending''))" "Q (Rename (with_added_extension p ''pending'') p)"
    and "Q (OpenRead (parent p))"
  shows "only_calls Q (write_json_atomic json p v)"
  unfolding write_json_atomic_def [abs_def] Let_def
proof (cases "to_vec json v")
  case (Inr bs)
  show "only_calls Q (\<lambda>e. case to_vec json v of Inl x \<Rightarrow> (Err (StorageJson p x), e)
    | Inr bytes \<Rightarrow> try_io (at_path (with_added_extension p ''pending'') (open_call (OpenTruncate (with_added_extension p ''pending'')) e)) (\<lambda>file e.
           try_io (at_path (with_added_extension p ''pending'') (unit_call (WriteAll file bytes) e)) (\<lambda>_ e.
           try_io (at_path (with_added_extension p ''pending'') (unit_call (Flush file) e)) (\<lambda>_ e.
           try_io (at_path (with_added_extension p ''pending'') (unit_call (SyncAll file) e)) (\<lambda>_ e.
           try_io (at_path p (unit_call (Rename (with_added_extension p ''pending'') p) e)) (\<lambda>_ e.
           sync_directory (parent p) e))))))"
    unfolding Inr sum.case
    by (intro only_calls_try only_calls_at_path only_calls_typed sync_directory_calls assms)
qed auto

lemma advance_checkpoint_extends:
  assumes "advance_checkpoint json st e = (r, st', e')" and d: "recovered sid st" "is_storage_provider st = sp"
  shows "extends (publishing_call sp sid) e e'"
proof (cases "is_recovered_end st")
  case (Some x)
  have sid: "stream_id (end_record_id x) = sid" by (rule recovered_end_stream [OF d(1) Some])
  have "only_calls (publishing_call sp sid) (write_checkpoint json sp (StreamCheckpoint_new x))"
    unfolding write_checkpoint_def StreamCheckpoint_new_def StreamCheckpoint.select_convs sid
    by (rule write_json_calls) (simp_all add: publishing_call_def in_stream_def stream_paths)
  then show ?thesis using assms(1) Some d(2)
    by (auto simp: advance_checkpoint_def Let_def split: if_splits elim!: step_try_extends)
qed (use assms(1) in \<open>simp add: advance_checkpoint_def\<close>)

definition preparing_call :: "StorageProvider \<Rightarrow> StreamId \<Rightarrow> 'h call \<Rightarrow> bool" where
  "preparing_call sp sid c \<longleftrightarrow> in_stream sp sid c \<and> \<not> alters c"

lemma prepare_active_pair_extends:
  assumes "prepare_active_pair st e = (r, st', e')" and d: "recovered sid st" "is_storage_provider st = sp"
  shows "extends (preparing_call sp sid) e e'"
proof -
  have create: "only_calls (preparing_call sp sid) (create_log_and_index sp f)" if "file_stream f = sid" for f
    unfolding create_log_and_index_def [abs_def] Let_def
    by (intro only_calls_try only_calls_at_path only_calls_typed only_calls_pure)
      (simp_all add: preparing_call_def in_stream_def stream_paths that)
  define next_file where "next_file = (case is_recovered_end st of None \<Rightarrow> Some (LogFileId_first (is_stream_id st))
      | Some x \<Rightarrow> LogFileId_next (end_log_file_id x))"
  have stream: "file_stream f = sid" if "next_file = Some f" for f
    using that d(1) recovered_end_stream [OF d(1)] unfolding next_file_def
    by (auto simp: first_file_at recovered_def LogFileId_next_eq_Some end_log_file_id_def split: option.splits)
  consider "e' = e" | f where "next_file = Some f"
      "step_try st (create_log_and_index sp f e) (\<lambda>(log, index) e.
         (Ok (), st\<lparr>is_active_pair := Some \<lparr>init_file_id = f, init_log = log, init_index = index, init_end = None\<rparr>\<rparr>, e)) = (r, st', e')"
    using assms(1) d(2) unfolding prepare_active_pair_def next_file_def [symmetric]
    by (auto split: if_splits option.splits)
  then show ?thesis
  proof cases
    case 2
    then show ?thesis using create [OF stream [OF 2(1)]] by (auto elim!: step_try_extends split: prod.splits)
  qed simp
qed

text \<open>The runs of the whole operation.\<close>

lemma next_step_cases:
  assumes "next_step r k = Some (res, st', e')"
  obtains (stopped) "r = Some (res, st', e')" "\<nexists>u. res = Ok u"
  | (went_on) u st e where "r = Some (Ok u, st, e)" "k st e = Some (res, st', e')"
proof -
  obtain q st e where r: "r = Some (q, st, e)" using assms by (cases r) (auto simp: next_step_def)
  show thesis
  proof (cases q)
    case (Ok u)
    then show thesis using went_on assms r by (simp add: next_step_def)
  qed (use stopped assms r in \<open>auto simp: next_step_def\<close>)
qed

definition validated ::
    "crc_fun \<Rightarrow> StreamCheckpoint json \<Rightarrow> StreamId \<Rightarrow> StorageProvider \<Rightarrow> 'h env \<Rightarrow> 'h step_result option" where
  "validated crc32c json sid sp e =
     next_step (Some (load_checkpoint json (InitializationState_new sid sp) e)) (\<lambda>st e.
     next_step (Some (discover_log_files st e)) (\<lambda>st e. validate_files crc32c st e))"

lemma recovery_validated:
  "recovery c json sid sp e = next_step (validated c json sid sp e) (\<lambda>st e. Some (remove_later_files st e))"
  by (simp add: recovery_def validated_def next_step_assoc)

lemma at_stream_new: "at_stream sid sp (InitializationState_new sid sp)"
  by (simp add: at_stream_def InitializationState_new_def)

lemma validated_extends:
  assumes "validated c json sid sp e = Some (r, st, e')"
  shows "extends (recovery_call sp sid) e e' \<and> (r = Ok u \<longrightarrow> recovered sid st \<and> is_storage_provider st = sp)"
proof -
  note new = at_stream_new [of sid sp]
  from assms show ?thesis unfolding validated_def
  proof (cases rule: next_step_cases)
    case stopped
    then show ?thesis using load_checkpoint_extends [of json "InitializationState_new sid sp" e r st e' sid sp] new by auto
  next
    case (went_on u1 st1 e1)
    note 1 = load_checkpoint_extends [OF went_on(1) [THEN option.inject [THEN iffD1]] new]
    from went_on(2) show ?thesis
    proof (cases rule: next_step_cases)
      case stopped
      then show ?thesis using discover_extends [OF _ conjunct2 [OF 1]] extends_trans [OF conjunct1 [OF 1]] by auto
    next
      case two: (went_on u2 st2 e2)
      have d: "discovered sid st2" "is_storage_provider st2 = sp"
        using load_then_discover [of json sid sp e u1 st1 e1 u2 st2 e2] went_on(1) two(1) by simp_all
      have "extends (recovery_call sp sid) e e2"
        using discover_extends [of st1 e1 "Ok u2" st2 e2 sid sp] 1 two(1) extends_trans by auto
      then show ?thesis using validate_files_extends [OF two(2) d] extends_trans d
          validate_files_recovers [OF d(1), of c e2 u st e'] two(2) by (auto simp: same_stream_def)
    qed
  qed
qed

lemma next_record_of_full:
  assumes "reaches sid n (Some x)" and "n \<le> max_file"
  shows "RecordId_next (end_record_id x) = Some (first_record_id (file_at sid n))"
proof -
  obtain j where j: "n = Suc j" "end_log_file_id x = file_at sid j" "trusted_count (Some x) = 100000" "j \<le> max_file"
    using assms by (cases n) (auto simp: reaches_def)
  have "Suc (end_seq x) = n * 100000" using end_seq_count [of "file_at sid j" x] j by (simp add: within_def)
  moreover have "stream_id (end_record_id x) = sid"
    using j(2) unfolding end_log_file_id_def by (metis file_at_sel(1) from_record_id_sel(1))
  ultimately show ?thesis
    using first_record_id_seq [OF valid_file_at [OF assms(2)], of sid] assms(2)
    by (simp add: RecordId_next_eq_Some end_seq_def)
qed

text \<open>A run of the recovery, and what follows it.\<close>

lemma recovery_cases:
  assumes "recovery c json sid sp e = Some (r, st, e')"
  obtains (invalid) "validated c json sid sp e = Some (r, st, e')" "\<nexists>u. r = Ok u" "extends (recovery_call sp sid) e e'"
  | (removing) st1 e1 where "validated c json sid sp e = Some (Ok (), st1, e1)" "recovered sid st1" "st = st1"
      "is_storage_provider st1 = sp" "extends (recovery_call sp sid) e e1"
      "extends (removal_from sp sid (is_first_file_to_remove st1)) e1 e'"
  using assms unfolding recovery_validated
proof (cases rule: next_step_cases)
  case stopped
  then show thesis using invalid validated_extends by fastforce
next
  case (went_on u st1 e1)
  have v: "recovered sid st1" "is_storage_provider st1 = sp" "extends (recovery_call sp sid) e e1"
    using validated_extends [OF went_on(1), of "()"] by simp_all
  have rm: "remove_later_files st1 e1 = (r, st, e')" using went_on(2) by simp
  then have "st = st1" by (auto simp: remove_later_files_def step_try_def split: option.splits prod.splits outcome.splits)
  then show thesis using removing went_on(1) v remove_later_files_extends [OF rm v(1,2)] by simp
qed

lemma recovery_extends:
  assumes "recovery c json sid sp e = Some (r, st, e')"
  shows "extends (\<lambda>c. in_stream sp sid c \<and> \<not> renames c) e e'"
  using assms
proof (cases rule: recovery_cases)
  case invalid
  show ?thesis by (rule extends_mono [OF invalid(3)]) (simp add: recovery_call_def)
next
  case (removing st1 e1)
  have "extends (\<lambda>c. in_stream sp sid c \<and> \<not> renames c) e e1" "extends (\<lambda>c. in_stream sp sid c \<and> \<not> renames c) e1 e'"
    by (rule extends_mono [OF removing(5)], simp add: recovery_call_def)
      (rule extends_mono [OF removing(6)], simp add: removal_from_def)
  then show ?thesis by (rule extends_trans)
qed

text \<open>The outcomes of initialization: within recovery, within the publication, or after it.\<close>

lemma initialize_cases:
  assumes "initialize c json sid sp e = Some (res, e')"
  obtains (recovering) r st where "recovery c json sid sp e = Some (r, st, e')" "\<nexists>s. res = Ok s"
  | (publishing) st e1 r st' where "recovery c json sid sp e = Some (Ok (), st, e1)" "\<nexists>s. res = Ok s"
      "advance_checkpoint json st e1 = (r, st', e')"
  | (preparing) st e1 e2 r st' where "recovery c json sid sp e = Some (Ok (), st, e1)"
      "advance_checkpoint json st e1 = (Ok (), st, e2)" "prepare_active_pair st e2 = (r, st', e')"
      "\<And>s. res = Ok s \<Longrightarrow> r = Ok () \<and> is_active_pair st' = Some s"
proof -
  obtain q st' where q: "initialize_steps c json sid sp e = Some (q, st', e')"
      "\<And>s. res = Ok s \<Longrightarrow> q = Ok () \<and> is_active_pair st' = Some s"
    using assms by (auto simp: initialize_def finish_def split: option.splits outcome.splits)
  from q(1) show thesis unfolding initialize_steps_recovery
  proof (cases rule: next_step_cases)
    case stopped
    then show thesis using recovering q(2) by blast
  next
    case (went_on u st e1)
    from went_on(2) show thesis
    proof (cases rule: next_step_cases)
      case stopped
      then show thesis using publishing [of st e1] went_on(1) q(2) by auto
    next
      case two: (went_on u2 st2 e2)
      then have "st2 = st" using advance_checkpoint_keeps by auto
      then show thesis using preparing [of st e1] went_on(1) two q(2) by auto
    qed
  qed
qed

lemma initialize_extends:
  assumes "initialize c json sid sp e = Some (res, e')"
  shows "extends (in_stream sp sid) e e'"
  using assms
proof (cases rule: initialize_cases)
  case (recovering r st)
  show ?thesis by (rule extends_mono [OF recovery_extends [OF recovering(1)]]) simp
next
  case (publishing st e1 r st')
  note d = recovery_recovers [OF publishing(1)]
  have "extends (in_stream sp sid) e e1" "extends (in_stream sp sid) e1 e'"
    by (rule extends_mono [OF recovery_extends [OF publishing(1)]], simp)
      (rule extends_mono [OF advance_checkpoint_extends [OF publishing(3) conjunct1 [OF d] conjunct2 [OF d]]], simp add: publishing_call_def)
  then show ?thesis by (rule extends_trans)
next
  case (preparing st e1 e2 r st')
  note d = recovery_recovers [OF preparing(1)]
  have "extends (in_stream sp sid) e e1"
    by (rule extends_mono [OF recovery_extends [OF preparing(1)]]) simp
  also have "extends (in_stream sp sid) e1 e2"
    by (rule extends_mono [OF advance_checkpoint_extends [OF preparing(2) conjunct1 [OF d] conjunct2 [OF d]]])
      (simp add: publishing_call_def)
  also have "extends (in_stream sp sid) e2 e'"
    by (rule extends_mono [OF prepare_active_pair_extends [OF preparing(3) conjunct1 [OF d] conjunct2 [OF d]]])
      (simp add: preparing_call_def)
  finally show ?thesis .
qed

lemma unique_split:
  "xs @ r # ys = as @ r' # bs \<Longrightarrow> P r \<Longrightarrow> (\<forall>x\<in>set as. \<not> P x) \<Longrightarrow> (\<forall>x\<in>set bs. \<not> P x) \<Longrightarrow>
   xs = as \<and> r = r' \<and> ys = bs"
proof (induction as arbitrary: xs)
  case Nil
  then show ?case by (cases xs) auto
next
  case (Cons a as)
  then show ?case by (cases xs) auto
qed

text \<open>The publication of a checkpoint: its one rename, and what it is preceded by.\<close>

definition publication_of ::
    "StreamCheckpoint json \<Rightarrow> StorageProvider \<Rightarrow> StreamId \<Rightarrow> RecordEndLocation \<Rightarrow> 'h \<Rightarrow>
     ('h call \<times> 'h answer) list \<Rightarrow> bool" where
  "publication_of json sp sid x h evs \<longleftrightarrow>
     (\<exists>bs. to_vec json (StreamCheckpoint_new x) = Inr bs \<and>
        evs = [(OpenTruncate (with_added_extension (checkpoint_file_path sp sid) ''pending''), Ready (Opened h)),
               (WriteAll h bs, Ready Unit), (Flush h, Ready Unit), (SyncAll h, Ready Unit)])"

lemma not_renames: "\<forall>q q'. c \<noteq> Rename q q' \<Longrightarrow> \<not> renames c"
  by (cases c) auto

lemma advance_checkpoint_trace:
  assumes run: "advance_checkpoint json st e = (r, st', e')" and d: "recovered sid st" "is_storage_provider st = sp"
  shows "\<exists>evs. trace e' = trace e @ evs \<and> ((\<forall>ev\<in>set evs. \<not> renames (fst ev)) \<or>
    (\<exists>x h as a rest. is_recovered_end st = Some x \<and> publication_of json sp sid x h as \<and>
       evs = as @ (Rename (with_added_extension (checkpoint_file_path sp sid) ''pending'') (checkpoint_file_path sp sid), a) # rest \<and>
       (\<forall>ev\<in>set rest. \<not> alters (fst ev) \<and> \<not> renames (fst ev))))"
proof (cases "is_recovered_end st = None \<or> is_checkpoint st = map_option StreamCheckpoint_new (is_recovered_end st)")
  case True
  then show ?thesis using run by (auto simp: advance_checkpoint_def Let_def split: option.splits if_splits)
next
  case False
  then obtain x where x: "is_recovered_end st = Some x" "is_checkpoint st \<noteq> Some (StreamCheckpoint_new x)" by auto
  obtain q where w: "write_checkpoint json sp (StreamCheckpoint_new x) e = (q, e')"
    using run x d(2) by (auto simp: advance_checkpoint_def Let_def step_try_def split: prod.splits outcome.splits)
  have sid: "stream_id (end_record_id x) = sid" by (rule recovered_end_stream [OF d(1) x(1)])
  have w: "write_json_atomic json (checkpoint_file_path sp sid) (StreamCheckpoint_new x) e = (q, e')"
    using w by (simp add: write_checkpoint_def StreamCheckpoint_new_def sid)
  show ?thesis
  proof (cases "to_vec json (StreamCheckpoint_new x)")
    case (Inl y)
    then show ?thesis using w by (simp add: write_json_atomic_def)
  next
    case (Inr bs)
    from write_json_until_rename [OF Inr w] obtain evs where evs: "trace e' = trace e @ evs"
      "(\<forall>ev\<in>set evs. \<forall>q q'. fst ev \<noteq> Rename q q') \<or>
       (\<exists>h a rest. evs = [(OpenTruncate (with_added_extension (checkpoint_file_path sp sid) ''pending''), Ready (Opened h)),
          (WriteAll h bs, Ready Unit), (Flush h, Ready Unit), (SyncAll h, Ready Unit),
          (Rename (with_added_extension (checkpoint_file_path sp sid) ''pending'') (checkpoint_file_path sp sid), a)] @ rest \<and>
          (\<forall>ev\<in>set rest. fst ev = OpenRead (parent (checkpoint_file_path sp sid)) \<or> (\<exists>g. fst ev = SyncAll g)))"
      by blast
    show ?thesis
    proof (cases "\<forall>ev\<in>set evs. \<forall>q q'. fst ev \<noteq> Rename q q'")
      case True
      then have "\<forall>ev\<in>set evs. \<not> renames (fst ev)" using not_renames by blast
      then show ?thesis using evs(1) by blast
    next
      case False
      with evs(2) obtain h a rest where w: "evs = [(OpenTruncate (with_added_extension (checkpoint_file_path sp sid) ''pending''), Ready (Opened h)),
          (WriteAll h bs, Ready Unit), (Flush h, Ready Unit), (SyncAll h, Ready Unit),
          (Rename (with_added_extension (checkpoint_file_path sp sid) ''pending'') (checkpoint_file_path sp sid), a)] @ rest"
          "\<forall>ev\<in>set rest. fst ev = OpenRead (parent (checkpoint_file_path sp sid)) \<or> (\<exists>g. fst ev = SyncAll g)" by blast
      define as where "as = [(OpenTruncate (with_added_extension (checkpoint_file_path sp sid) ''pending''), Ready (Opened h)),
          (WriteAll h bs, Ready Unit), (Flush h, Ready Unit), (SyncAll h, Ready Unit)]"
      have "publication_of json sp sid x h as" using Inr by (simp add: publication_of_def as_def)
      moreover have "evs = as @ (Rename (with_added_extension (checkpoint_file_path sp sid) ''pending'') (checkpoint_file_path sp sid), a) # rest"
        using w(1) by (simp add: as_def)
      moreover have "\<forall>ev\<in>set rest. \<not> alters (fst ev) \<and> \<not> renames (fst ev)" using w(2) by fastforce
      ultimately show ?thesis using evs(1) x(1) by blast
    qed
  qed
qed

text \<open>The operation returns.\<close>

lemma validate_each_returns: "validate_each c cp mx ids st e \<noteq> None"
proof (induction ids arbitrary: st e)
  case (Cons f ids)
  obtain res e1 where "pair_validate c (is_storage_provider st) f (trusted_in cp f) e = Some (res, e1)"
    using pair_validate_returns [of c "is_storage_provider st" f "trusted_in cp f" e] by blast
  then show ?case unfolding validate_each.simps Let_def using Cons.IH
    by (auto split: outcome.split ValidatedFilePair.split option.split)
qed simp

lemma validate_files_returns: "validate_files c st e \<noteq> None"
  unfolding validate_files_def Let_def using validate_each_returns
  by (auto split: option.split outcome.split)

lemma next_step_returns: "r \<noteq> None \<Longrightarrow> (\<And>st e. k st e \<noteq> None) \<Longrightarrow> next_step r k \<noteq> None"
  by (auto simp: next_step_def split: outcome.split)

lemma alters_removes: "removes c \<Longrightarrow> alters c"
  by (cases c) auto

text \<open>The first file to remove is beyond the recovered end and the retained pair.\<close>

lemma removal_beyond:
  assumes "recovered sid st" and "is_first_file_to_remove st = Some (file_at sid j)" and "j \<le> max_file"
  shows "(\<forall>x. is_recovered_end st = Some x \<longrightarrow> file_nat (file_number (end_log_file_id x)) < j) \<and>
    (\<forall>s. is_active_pair st = Some s \<longrightarrow> file_nat (file_number (init_file_id s)) < j)"
proof -
  obtain k m where m: "m \<le> max_file" "walk_post sid (certified st) k m st"
    using assms(1,2) by (auto simp: recovered_def split: option.splits)
  have reach: "file_nat (file_number (end_log_file_id x)) < n" if "reaches sid n (Some x)" "n \<le> max_file" for n x
    using that by (cases n) (auto simp: reaches_def)
  show ?thesis
  proof (cases "is_active_pair st")
    case None
    then obtain n where n: "n \<le> Suc m" "reaches sid n (is_recovered_end st)" "n \<noteq> Suc m" "file_at sid j = file_at sid n"
      using m assms(2) by (auto simp: walk_post_def split: if_splits)
    then have "j = n" using file_at_inject [OF assms(3), of n] m(1) by simp
    then show ?thesis using None n(2) reach assms(3) by auto
  next
    case (Some s)
    then obtain n where n: "n \<le> m" "n \<noteq> m" "init_file_id s = file_at sid n" "within (file_at sid n) (init_end s)"
        "(init_end s = None \<longrightarrow> reaches sid n (is_recovered_end st)) \<and>
         (init_end s \<noteq> None \<longrightarrow> is_recovered_end st = init_end s)"
        "file_at sid j = file_at sid (Suc n)"
      using m assms(2) by (auto simp: walk_post_def split: if_splits)
    then have "j = Suc n" using file_at_inject [OF assms(3), of "Suc n"] m(1) by simp
    moreover have "file_nat (file_number (end_log_file_id x)) \<le> n" if "is_recovered_end st = Some x" for x
      using n(1,4,5) that m(1) reach [of n x] by (cases "init_end s") (auto simp: within_def)
    ultimately show ?thesis using Some n(1,3) m(1) by auto
  qed
qed

subsection \<open>Publication and removal in the whole run\<close>

lemma only_rename_is_publication:
  assumes run: "recovery c json sid sp (start_env answers) = Some (Ok (), st, e1)"
      "advance_checkpoint json st e1 = (r, st', e2)"
    and more: "pre @ (Rename p q, a) # post = trace e2 @ evs2" "\<forall>ev\<in>set evs2. \<not> alters (fst ev)"
  shows "q = checkpoint_file_path sp sid \<and> p = with_added_extension q ''pending'' \<and>
    (\<forall>ev\<in>set post. \<not> alters (fst ev)) \<and>
    (\<exists>x h bs. is_recovered_end st = Some x \<and> to_vec json (StreamCheckpoint_new x) = Inr bs \<and>
       pre = trace e1 @ [(OpenTruncate p, Ready (Opened h)), (WriteAll h bs, Ready Unit), (Flush h, Ready Unit),
         (SyncAll h, Ready Unit)])"
proof -
  let ?q = "checkpoint_file_path sp sid"
  let ?p = "with_added_extension ?q ''pending''"
  have first: "\<forall>ev\<in>set (trace e1). \<not> renames (fst ev)"
    using recovery_extends [OF run(1)] by (auto simp: extends_def start_env_def)
  have last: "\<forall>ev\<in>set evs2. \<not> renames (fst ev)" using more(2) by (metis alters.simps(6) renames.elims(2))
  note d = recovery_recovers [OF run(1)]
  obtain evs where evs: "trace e2 = trace e1 @ evs" "(\<forall>ev\<in>set evs. \<not> renames (fst ev)) \<or>
    (\<exists>x h as a rest. is_recovered_end st = Some x \<and> publication_of json sp sid x h as \<and>
     evs = as @ (Rename ?p ?q, a) # rest \<and> (\<forall>ev\<in>set rest. \<not> alters (fst ev) \<and> \<not> renames (fst ev)))"
    using advance_checkpoint_trace [OF run(2) conjunct1 [OF d] conjunct2 [OF d]] by blast
  have "\<exists>ev\<in>set (trace e2 @ evs2). renames (fst ev)" unfolding more(1) [symmetric] by auto
  then have "\<not> (\<forall>ev\<in>set evs. \<not> renames (fst ev))" using first last evs(1) by auto
  with evs(2) obtain x h as b rest where pub: "is_recovered_end st = Some x" "publication_of json sp sid x h as"
     "evs = as @ (Rename ?p ?q, b) # rest" "\<forall>ev\<in>set rest. \<not> alters (fst ev) \<and> \<not> renames (fst ev)" by blast
  have cut: "pre @ (Rename p q, a) # post = (trace e1 @ as) @ (Rename ?p ?q, b) # rest @ evs2"
    using more(1) evs(1) pub(3) by simp
  have ren: "renames (fst (Rename p q, a))" by simp
  have "\<forall>ev\<in>set (trace e1 @ as). \<not> renames (fst ev)" "\<forall>ev\<in>set (rest @ evs2). \<not> renames (fst ev)"
    using first pub(2) last pub(4) by (auto simp: publication_of_def)
  from unique_split [where P = "\<lambda>ev. renames (fst ev)", OF cut ren this]
  have "pre = trace e1 @ as" "p = ?p" "q = ?q" "post = rest @ evs2" by simp_all
  then show ?thesis using pub(1,2,4) more(2) unfolding publication_of_def by auto
qed

lemma recovery_removes_beyond:
  assumes "recovery c json sid sp (start_env answers) = Some (r, st, e1)" and "(RemoveFile p, a) \<in> set (trace e1)"
  shows "\<exists>st e1 k. validated c json sid sp (start_env answers) = Some (Ok (), st, e1) \<and> k \<le> max_file \<and>
    (p = log_file_path sp (file_at sid k) \<or> p = index_file_path sp (file_at sid k)) \<and>
    (\<forall>x. is_recovered_end st = Some x \<longrightarrow> file_nat (file_number (end_log_file_id x)) < k) \<and>
    (\<forall>s. is_active_pair st = Some s \<longrightarrow> file_nat (file_number (init_file_id s)) < k)"
  using assms(1)
proof (cases rule: recovery_cases)
  case invalid
  have "extends (\<lambda>c. \<not> removes c) (start_env answers) e1"
    by (rule extends_mono [OF invalid(3)]) (simp add: recovery_call_def)
  then show ?thesis using assms(2) by (fastforce simp: extends_def start_env_def)
next
  case (removing st1 e2)
  have "extends (\<lambda>c. \<not> removes c) (start_env answers) e2"
    by (rule extends_mono [OF removing(5)]) (simp add: recovery_call_def)
  then obtain evs where evs: "trace e1 = trace e2 @ evs" "(RemoveFile p, a) \<in> set evs"
      "\<forall>ev\<in>set evs. removal_from sp sid (is_first_file_to_remove st1) (fst ev)"
    using removing(6) assms(2) by (fastforce simp: extends_def start_env_def)
  from bspec [OF evs(3,2)] obtain j k where jk: "is_first_file_to_remove st1 = Some (file_at sid j)" "j \<le> k" "k \<le> max_file"
      "p = log_file_path sp (file_at sid k) \<or> p = index_file_path sp (file_at sid k)"
    by (auto simp: removal_from_def)
  have "(\<forall>x. is_recovered_end st1 = Some x \<longrightarrow> file_nat (file_number (end_log_file_id x)) < j) \<and>
      (\<forall>s. is_active_pair st1 = Some s \<longrightarrow> file_nat (file_number (init_file_id s)) < j)"
    by (rule removal_beyond [OF removing(2) jk(1)]) (use jk in simp)
  then show ?thesis using jk removing(1) order_less_le_trans [OF _ jk(2)] by blast
qed

lemma after_recovery_no_removal:
  assumes "initialize c json sid sp e = Some (res, e')"
  shows "\<exists>r st e1. recovery c json sid sp e = Some (r, st, e1) \<and> extends (\<lambda>c. \<not> removes c) e1 e'"
  using assms
proof (cases rule: initialize_cases)
  case (recovering r st)
  then show ?thesis by auto
next
  case (publishing st e1 r st')
  note d = recovery_recovers [OF publishing(1)]
  have "extends (\<lambda>c. \<not> removes c) e1 e'"
    by (rule extends_mono [OF advance_checkpoint_extends [OF publishing(3) conjunct1 [OF d] conjunct2 [OF d]]])
      (simp add: publishing_call_def)
  then show ?thesis using publishing(1) by blast
next
  case (preparing st e1 e2 r st')
  note d = recovery_recovers [OF preparing(1)]
  have "extends (\<lambda>c. \<not> removes c) e1 e2"
    by (rule extends_mono [OF advance_checkpoint_extends [OF preparing(2) conjunct1 [OF d] conjunct2 [OF d]]])
      (simp add: publishing_call_def)
  also have "extends (\<lambda>c. \<not> removes c) e2 e'"
    by (rule extends_mono [OF prepare_active_pair_extends [OF preparing(3) conjunct1 [OF d] conjunct2 [OF d]]])
      (use alters_removes in \<open>auto simp: preparing_call_def\<close>)
  finally show ?thesis using preparing(1) by blast
qed

lemma initialize_prepares:
  assumes "initialize c json sid sp e = Some (Ok s, e')"
  shows "\<exists>st e1 n. recovery c json sid sp e = Some (Ok (), st, e1) \<and> prepared sid (is_recovered_end st) s n \<and>
    not_behind (certified st) (is_recovered_end st)"
  using assms
proof (cases rule: initialize_cases)
  case (preparing st e1 e2 r st')
  then have r: "r = Ok ()" "is_active_pair st' = Some s" by simp_all
  show ?thesis
    using prepare_active_pair_prepares [of sid st e2 "()" st' e'] recovery_recovers [OF preparing(1)] preparing(1,3) r
    by auto
qed auto

text \<open>The writer of a prepared pair expects the record after the recovered end.\<close>

lemma prepared_expects:
  assumes "prepared sid r s n" and "IndexedLogWriter_from s = Some w"
  shows "Some (ilw_expected w) =
    (case r of None \<Rightarrow> Some (first_record_id (LogFileId_first sid)) | Some x \<Rightarrow> RecordId_next (end_record_id x))"
proof -
  have "Some (ilw_expected w) = (case init_end s of None \<Rightarrow> Some (first_record_id (file_at sid n))
      | Some x \<Rightarrow> RecordId_next (end_record_id x))"
    using assms by (auto simp: IndexedLogWriter_from_def prepared_def Let_def split: option.splits)
  then show ?thesis using assms(1) next_record_of_full
    by (auto simp: prepared_def first_file_at reaches_def split: option.splits if_splits)
qed

subsection \<open>Properties\<close>

text \<open>
  C2. Initialization continues the recovered stream. When it succeeds, the pair that it hands over is
  a valid file of the stream with room for more records, whose end (if any) is the end of the
  recovered stream; an empty pair is the first file, or directly follows a file that is full up to
  the recovered end. The recovered end is never behind the loaded checkpoint, and the writer that
  takes the pair over expects exactly the record after the recovered end.
\<close>

theorem initialize_continues_the_stream:
  assumes "initialize c json sid sp e = Some (Ok s, e')"
  shows "\<exists>st e1 n. recovery c json sid sp e = Some (Ok (), st, e1) \<and>
    n \<le> max_file \<and> init_file_id s = file_at sid n \<and> trusted_count (init_end s) < 100000 \<and>
    (case init_end s of
       Some x \<Rightarrow> is_recovered_end st = Some x \<and> end_log_file_id x = file_at sid n
     | None \<Rightarrow>
         (case is_recovered_end st of
            None \<Rightarrow> n = 0
          | Some x \<Rightarrow> 0 < n \<and> end_log_file_id x = file_at sid (n - 1) \<and>
              record_count_through (end_record_id x) = RECORDS_PER_FILE)) \<and>
    (\<forall>cp. is_checkpoint st = Some cp \<longrightarrow> (\<exists>x. is_recovered_end st = Some x \<and>
       seq_nat (sequence_number (end_record_id (checkpoint_end cp))) \<le> seq_nat (sequence_number (end_record_id x)))) \<and>
    (\<forall>w. IndexedLogWriter_from s = Some w \<longrightarrow>
       Some (ilw_expected w) =
         (case is_recovered_end st of
            None \<Rightarrow> Some (first_record_id (LogFileId_first sid)) | Some x \<Rightarrow> RecordId_next (end_record_id x)))"
proof -
  obtain st e1 n where rec: "recovery c json sid sp e = Some (Ok (), st, e1)"
    and n: "prepared sid (is_recovered_end st) s n" "not_behind (certified st) (is_recovered_end st)"
    using initialize_prepares [OF assms] by blast
  have full: "record_count_through (end_record_id x) = RECORDS_PER_FILE" if "trusted_count (Some x) = 100000" for x
    using that unfolding trusted_count_def by (metis option.case(2) unat_RECORDS_PER_FILE unsigned_word_eqI)
  have checkpoint: "\<forall>cp. is_checkpoint st = Some cp \<longrightarrow> (\<exists>x. is_recovered_end st = Some x \<and>
      seq_nat (sequence_number (end_record_id (checkpoint_end cp))) \<le> seq_nat (sequence_number (end_record_id x)))"
    using n(2) by (auto simp: not_behind_def end_seq_def)
  show ?thesis
  proof (intro exI [of _ st] exI [of _ e1] exI [of _ n] conjI)
    show "case init_end s of
       Some x \<Rightarrow> is_recovered_end st = Some x \<and> end_log_file_id x = file_at sid n
     | None \<Rightarrow>
         (case is_recovered_end st of
            None \<Rightarrow> n = 0
          | Some x \<Rightarrow> 0 < n \<and> end_log_file_id x = file_at sid (n - 1) \<and>
              record_count_through (end_record_id x) = RECORDS_PER_FILE)"
      using n(1) full by (auto simp: prepared_def within_def reaches_def split: option.splits)
    show "\<forall>w. IndexedLogWriter_from s = Some w \<longrightarrow> Some (ilw_expected w) =
         (case is_recovered_end st of
            None \<Rightarrow> Some (first_record_id (LogFileId_first sid)) | Some x \<Rightarrow> RecordId_next (end_record_id x))"
      using prepared_expects [OF n(1)] by blast
  qed (use n(1) checkpoint rec in \<open>simp_all add: prepared_def\<close>)
qed

text \<open>
  C7. The checkpoint is published last. On every run of initialization, failed and cancelled ones
  included, the only rename is that of the staged checkpoint of this stream. It happens only after
  recovery and the removal of later files have succeeded, its content is the recovered end, written and
  synchronized, and nothing is changed or removed afterwards.
\<close>

theorem checkpoint_published_last:
  assumes "initialize c json sid sp (start_env answers) = Some (res, e')"
    and "trace e' = pre @ (Rename p q, a) # post"
  shows "q = checkpoint_file_path sp sid \<and> p = with_added_extension q ''pending'' \<and>
    (\<forall>ev\<in>set post. \<not> alters (fst ev)) \<and>
    (\<exists>st e1 x h bs. recovery c json sid sp (start_env answers) = Some (Ok (), st, e1) \<and>
       is_recovered_end st = Some x \<and> to_vec json (StreamCheckpoint_new x) = Inr bs \<and>
       pre = trace e1 @ [(OpenTruncate p, Ready (Opened h)), (WriteAll h bs, Ready Unit), (Flush h, Ready Unit),
         (SyncAll h, Ready Unit)])"
  using assms(1)
proof (cases rule: initialize_cases)
  case (recovering r st)
  have "(Rename p q, a) \<in> set (trace e')" using assms(2) by simp
  then show ?thesis using recovery_extends [OF recovering(1)] by (fastforce simp: extends_def start_env_def)
next
  case (publishing st e1 r st')
  have "pre @ (Rename p q, a) # post = trace e' @ []" using assms(2) by simp
  from only_rename_is_publication [OF publishing(1,3) this] publishing(1) show ?thesis by auto
next
  case (preparing st e1 e2 r st')
  then obtain evs2 where evs2: "trace e' = trace e2 @ evs2" "\<forall>ev\<in>set evs2. \<not> alters (fst ev)"
    using prepare_active_pair_extends [of st e2 r st' e' sid sp] recovery_recovers [OF preparing(1)]
    by (auto simp: extends_def preparing_call_def)
  have "pre @ (Rename p q, a) # post = trace e2 @ evs2" using assms(2) evs2(1) by simp
  from only_rename_is_publication [OF preparing(1,2) this evs2(2)] preparing(1) show ?thesis by auto
qed

text \<open>
  C8. Removal spares what was recovered. On every run, a file that initialization removes is the log
  or the index of a file number beyond the recovered records and beyond the retained pair; nothing is
  removed unless all files up to there were validated.
\<close>

theorem removal_spares_recovered_files:
  assumes "initialize c json sid sp (start_env answers) = Some (res, e')"
    and "(RemoveFile p, a) \<in> set (trace e')"
  shows "\<exists>st e1 k. validated c json sid sp (start_env answers) = Some (Ok (), st, e1) \<and> k \<le> max_file \<and>
    (p = log_file_path sp (file_at sid k) \<or> p = index_file_path sp (file_at sid k)) \<and>
    (\<forall>x. is_recovered_end st = Some x \<longrightarrow> file_nat (file_number (end_log_file_id x)) < k) \<and>
    (\<forall>s. is_active_pair st = Some s \<longrightarrow> file_nat (file_number (init_file_id s)) < k)"
proof -
  obtain r st e1 where run: "recovery c json sid sp (start_env answers) = Some (r, st, e1)"
    and more: "extends (\<lambda>c. \<not> removes c) e1 e'"
    using after_recovery_no_removal [OF assms(1)] by blast
  then have "(RemoveFile p, a) \<in> set (trace e1)" using assms(2) by (fastforce simp: extends_def)
  then show ?thesis by (rule recovery_removes_beyond [OF run])
qed

text \<open>
  C32. Initialization of a stream touches nothing outside the directory of this stream: every path of
  every call it makes, on every run, is in it.
\<close>

theorem initialize_stays_in_its_directory:
  assumes "initialize c json sid sp (start_env answers) = Some (res, e')"
  shows "\<forall>ev\<in>set (trace e'). \<forall>p\<in>set (call_paths (fst ev)). prefix (stream_directory sp sid) p"
  using initialize_extends [OF assms] by (auto simp: extends_def start_env_def in_stream_def)

text \<open>Initialization is total: the model's loops end with the answers.\<close>

lemma initialize_total: "\<exists>res e'. initialize c json sid sp e = Some (res, e')"
proof -
  have "initialize_steps c json sid sp e \<noteq> None"
    unfolding initialize_steps_def by (intro next_step_returns validate_files_returns) simp_all
  then show ?thesis by (auto simp: initialize_def split: option.splits outcome.splits)
qed

subsection \<open>Runs\<close>

text \<open>
  Three storages of stream 0: an empty one, one with the log of one record in file 0 and no
  checkpoint, and one where file 1 exists although file 0 does not.
\<close>

definition example_checkpoint_json :: "StreamCheckpoint json" where
  "example_checkpoint_json = \<lparr>to_vec = (\<lambda>_. Inr [1, 2]), from_slice = (\<lambda>_. Inl ''bad'')\<rparr>"

definition example_storage :: StorageProvider where
  "example_storage = \<lparr>sp_config = \<lparr>root_directory = [''d'']\<rparr>\<rparr>"

definition example_search_answers :: "string \<Rightarrow> nat answer list" where
  "example_search_answers name =
     concat (replicate 4 [Ready Unit, Ready (Entry (Some (Some ''000''))), Ready (Kind IsDir), Ready (Entry None)]) @
     [Ready Unit, Ready (Entry (Some (Some name))), Ready (Kind IsFile), Ready (Entry None)]"

lemma example_found:
  "(\<lambda>(r, st, e). (r, st, script e)) (discover_log_files (InitializationState_new (StreamId 0) example_storage)
      \<lparr>script = example_search_answers ''000000000000000.log'' @ example_recovery_answers @ publication_answers, trace = tr\<rparr>) =
    (Ok (), (InitializationState_new (StreamId 0) example_storage)\<lparr>is_maximum_log_file := Some (file_at (StreamId 0) 0)\<rparr>,
     example_recovery_answers @ publication_answers)"
  by code_simp

definition example_checkpoint_answers :: "nat answer list" where
  "example_checkpoint_answers = Failed NotFound # example_search_answers ''000000000000000.log'' @
     example_recovery_answers @ publication_answers"

lemma example_checkpoint_run:
  "\<exists>tr. initialize (\<lambda>_. 7) example_checkpoint_json (StreamId 0) example_storage (start_env example_checkpoint_answers) =
     Some (Ok \<lparr>init_file_id = file_at (StreamId 0) 0, init_log = 2, init_index = 3, init_end = Some example_end\<rparr>,
       \<lparr>script = [], trace = tr @ publication (checkpoint_file_path example_storage (StreamId 0)) [1, 2]\<rparr>)"
proof -
  let ?st = "InitializationState_new (StreamId 0) example_storage :: nat InitializationState"
  let ?f = "file_at (StreamId 0) 0"
  let ?tr = "[(OpenRead (checkpoint_file_path example_storage (StreamId 0)), Failed NotFound)]"
  have load: "load_checkpoint example_checkpoint_json ?st (start_env example_checkpoint_answers) =
      (Ok (), ?st, \<lparr>script = example_search_answers ''000000000000000.log'' @
         example_recovery_answers @ publication_answers, trace = ?tr\<rparr>)"
    by (simp add: load_checkpoint_def step_try_def read_checkpoint_def read_json_def typed_call_def start_env_def
      example_checkpoint_answers_def InitializationState_new_def)
  have env_of_script: "\<exists>t. e = \<lparr>script = s, trace = t\<rparr>" if "script e = s" for e :: "nat env" and s
    using that by (cases e) simp
  obtain t1 where found: "discover_log_files ?st
      \<lparr>script = example_search_answers ''000000000000000.log'' @ example_recovery_answers @ publication_answers, trace = ?tr\<rparr> =
      (Ok (), ?st\<lparr>is_maximum_log_file := Some ?f\<rparr>, \<lparr>script = example_recovery_answers @ publication_answers, trace = t1\<rparr>)"
    using example_found [of ?tr] by (auto split: prod.splits dest!: env_of_script)
  obtain t2 where pair: "pair_validate (\<lambda>_. 7) example_storage ?f None
      \<lparr>script = example_recovery_answers @ publication_answers, trace = t1\<rparr> =
    Some (Ok (Partial (Some example_end) 2 3), \<lparr>script = publication_answers, trace = t2\<rparr>)"
    using example_recovered [of example_storage publication_answers t1] by (auto simp: first_file_at(1))
  have f: "iter_to ?f ?f = Ok (Some [?f])" "LogFileId_first (StreamId 0) = ?f" by code_simp+
  have path: "stream_id (end_record_id example_end) = StreamId 0" by code_simp
  have publish: "write_json_atomic example_checkpoint_json p v \<lparr>script = publication_answers, trace = tr\<rparr> =
      (Ok (), \<lparr>script = [], trace = tr @ publication p [1, 2]\<rparr>)" for p v tr
    using publication_run_from [of example_checkpoint_json v "[1, 2]" p "[]" tr] by (simp add: example_checkpoint_json_def)
  show ?thesis
    unfolding initialize_def initialize_steps_def load found next_step_def option.case prod.case outcome.case
    by (simp add: validate_files_def InitializationState_new_def f pair remove_later_files_def advance_checkpoint_def
        write_checkpoint_def StreamCheckpoint_new_def path step_try_def publish
        prepare_active_pair_def finish_def)
qed

theorem checkpoint_published_last_witness:
  "\<exists>tr post. initialize (\<lambda>_. 7) example_checkpoint_json (StreamId 0) example_storage (start_env example_checkpoint_answers) =
     Some (Ok \<lparr>init_file_id = file_at (StreamId 0) 0, init_log = 2, init_index = 3, init_end = Some example_end\<rparr>,
       \<lparr>script = [], trace = tr @ publication (checkpoint_file_path example_storage (StreamId 0)) [1, 2]\<rparr>) \<and>
     (\<exists>st e1. recovery (\<lambda>_. 7) example_checkpoint_json (StreamId 0) example_storage (start_env example_checkpoint_answers) =
       Some (Ok (), st, e1) \<and> is_recovered_end st \<noteq> None \<and> trace e1 = tr) \<and>
     drop 5 (publication (checkpoint_file_path example_storage (StreamId 0)) [1, 2]) = post \<and> (\<forall>ev\<in>set post. \<not> alters (fst ev))"
proof -
  let ?q = "checkpoint_file_path example_storage (StreamId 0)"
  let ?p = "with_added_extension ?q ''pending''"
  obtain tr where run: "initialize (\<lambda>_. 7) example_checkpoint_json (StreamId 0) example_storage (start_env example_checkpoint_answers) =
     Some (Ok \<lparr>init_file_id = file_at (StreamId 0) 0, init_log = 2, init_index = 3, init_end = Some example_end\<rparr>,
       \<lparr>script = [], trace = tr @ publication ?q [1, 2]\<rparr>)" using example_checkpoint_run by blast
  have "trace \<lparr>script = [], trace = tr @ publication ?q [1, 2]\<rparr> =
    (tr @ [(OpenTruncate ?p, Ready (Opened 3)), (WriteAll 3 [1, 2], Ready Unit), (Flush 3, Ready Unit), (SyncAll 3, Ready Unit)]) @
     (Rename ?p ?q, Ready Unit) # drop 5 (publication ?q [1, 2])"
    by (simp add: publication_def Let_def)
  from checkpoint_published_last [OF run this]
  have "(\<forall>ev\<in>set (drop 5 (publication ?q [1, 2])). \<not> alters (fst ev)) \<and>
    (\<exists>st e1. recovery (\<lambda>_. 7) example_checkpoint_json (StreamId 0) example_storage (start_env example_checkpoint_answers) =
       Some (Ok (), st, e1) \<and> is_recovered_end st \<noteq> None \<and> trace e1 = tr)" by auto
  with run show ?thesis by blast
qed

definition example_empty_answers :: "nat answer list" where
  "example_empty_answers = [Failed NotFound, Failed NotFound, Ready Unit, Ready (Opened 2), Ready (Opened 3)]"

lemma example_empty_run:
  "map_option fst (initialize (\<lambda>_. 7) example_checkpoint_json (StreamId 0) example_storage (start_env example_empty_answers)) =
     Some (Ok \<lparr>init_file_id = file_at (StreamId 0) 0, init_log = 2, init_index = 3, init_end = None\<rparr>)"
  by code_simp

theorem initialize_continues_the_stream_witness:
  "\<exists>s e' st e1. initialize (\<lambda>_. 7) example_checkpoint_json (StreamId 0) example_storage (start_env example_checkpoint_answers) =
       Some (Ok s, e') \<and>
     recovery (\<lambda>_. 7) example_checkpoint_json (StreamId 0) example_storage (start_env example_checkpoint_answers) =
       Some (Ok (), st, e1) \<and>
     init_file_id s = file_at (StreamId 0) 0 \<and> is_recovered_end st = Some example_end"
proof -
  obtain e' where run: "initialize (\<lambda>_. 7) example_checkpoint_json (StreamId 0) example_storage
      (start_env example_checkpoint_answers) =
     Some (Ok \<lparr>init_file_id = file_at (StreamId 0) 0, init_log = 2, init_index = 3, init_end = Some example_end\<rparr>, e')"
    using example_checkpoint_run by blast
  from initialize_continues_the_stream [OF run] run show ?thesis by auto
qed

definition example_gap_answers :: "nat answer list" where
  "example_gap_answers =
     Failed NotFound # example_search_answers ''000000000000001.log'' @
     [Failed NotFound, Ready Unit, Ready Unit, Ready Unit, Ready Unit, Ready (Opened 4), Ready Unit, Ready Unit,
      Ready (Opened 2), Ready (Opened 3)]"

lemma example_gap_run:
  "(case initialize (\<lambda>_. 7) example_checkpoint_json (StreamId 0) example_storage (start_env example_gap_answers) of
     Some (r, e) \<Rightarrow> r = Ok \<lparr>init_file_id = file_at (StreamId 0) 0, init_log = 2, init_index = 3, init_end = None\<rparr> \<and>
        (RemoveFile (index_file_path example_storage (file_at (StreamId 0) 1)), Ready Unit) \<in> set (trace e)
   | None \<Rightarrow> False)"
  by code_simp


theorem removal_spares_recovered_files_witness:
  "\<exists>s e' st e1 k. initialize (\<lambda>_. 7) example_checkpoint_json (StreamId 0) example_storage (start_env example_gap_answers) =
       Some (Ok s, e') \<and>
     (RemoveFile (index_file_path example_storage (file_at (StreamId 0) 1)), Ready Unit) \<in> set (trace e') \<and>
     validated (\<lambda>_. 7) example_checkpoint_json (StreamId 0) example_storage (start_env example_gap_answers) =
       Some (Ok (), st, e1) \<and>
     (index_file_path example_storage (file_at (StreamId 0) 1) = log_file_path example_storage (file_at (StreamId 0) k) \<or>
      index_file_path example_storage (file_at (StreamId 0) 1) = index_file_path example_storage (file_at (StreamId 0) k))"
proof -
  obtain s e' where run: "initialize (\<lambda>_. 7) example_checkpoint_json (StreamId 0) example_storage
        (start_env example_gap_answers) = Some (Ok s, e')"
      "(RemoveFile (index_file_path example_storage (file_at (StreamId 0) 1)), Ready Unit) \<in> set (trace e')"
    using example_gap_run by (auto split: option.splits)
  from removal_spares_recovered_files [OF run] run show ?thesis by blast
qed

theorem initialize_stays_in_its_directory_witness:
  "\<exists>e'. initialize (\<lambda>_. 7) example_checkpoint_json (StreamId 0) example_storage (start_env example_empty_answers) =
      Some (Ok \<lparr>init_file_id = file_at (StreamId 0) 0, init_log = 2, init_index = 3, init_end = None\<rparr>, e') \<and>
    (\<forall>ev\<in>set (trace e'). \<forall>p\<in>set (call_paths (fst ev)). prefix [''d'', ''streams'', ''0000''] p)"
proof -
  have d: "stream_directory example_storage (StreamId 0) = [''d'', ''streams'', ''0000'']" by code_simp
  obtain e' where run: "initialize (\<lambda>_. 7) example_checkpoint_json (StreamId 0) example_storage
        (start_env example_empty_answers) =
      Some (Ok \<lparr>init_file_id = file_at (StreamId 0) 0, init_log = 2, init_index = 3, init_end = None\<rparr>, e')"
    using example_empty_run by auto
  from initialize_stays_in_its_directory [OF run] run show ?thesis by (simp add: d)
qed

end
