(* ===== verification/Restart.thy ===== *)
theory Restart
  imports Initializer
begin

text \<open>
  Initialization and the writer that continues its stream.
\<close>

subsection \<open>The writer of an initialized stream\<close>

lemma prepared_taken_over:
  assumes "prepared sid r s n" and "init_log s \<noteq> init_index s"
  shows "taken_over s" "file_stream (init_file_id s) = sid" "file_nat (file_number (init_file_id s)) = n"
  using assms by (auto simp: prepared_def taken_over_def within_def valid_log_file_def valid_file_def split: option.splits)

text \<open>The number of the first record behind an end.\<close>

definition next_number :: "RecordEndLocation option \<Rightarrow> nat" where
  "next_number r = (case r of None \<Rightarrow> 0 | Some x \<Rightarrow> Suc (seq_nat (sequence_number (end_record_id x))))"

lemma prepared_next_number:
  assumes "prepared sid r s n" and "IndexedLogWriter_from s = Some w"
  shows "seq_nat (sequence_number (ilw_expected w)) = next_number r"
proof (cases r)
  case None
  then show ?thesis using prepared_expects [OF assms] first_record_id_seq [of "LogFileId_first sid"]
    by (simp add: next_number_def first_file_at valid_log_file_def valid_file_def)
next
  case (Some x)
  then have "RecordId_next (end_record_id x) = Some (ilw_expected w)" using prepared_expects [OF assms] by simp
  then show ?thesis using Some by (simp add: next_number_def RecordId_next_eq_Some)
qed

subsection \<open>Properties\<close>

text \<open>
  C3. A restart continues the numbering. After a successful initialization, whatever the writer of
  the prepared pair does and however its files behave, the records that it accepts are records of
  this stream, all in the prepared file, and numbered one by one from the recovered end on: no number
  is used twice and none is skipped.
\<close>

theorem restart_continues_numbering:
  assumes "initialize c json sid sp e0 = Some (Ok s, e1)" and "init_log s \<noteq> init_index s"
    and "IndexedLogWriter_from s = Some w0" and "list_all (valid_op c) ops"
    and "pair_run ops (w0, start_env answers, []) = (w, e, recs)"
  shows "\<exists>st e2. recovery c json sid sp e0 = Some (Ok (), st, e2) \<and>
    map (\<lambda>rec. seq_nat (sequence_number (Record_id rec))) recs =
      [next_number (is_recovered_end st)..<next_number (is_recovered_end st) + length recs] \<and>
    list_all (\<lambda>rec. stream_id (Record_id rec) = sid \<and> from_record_id (Record_id rec) = init_file_id s) recs"
proof -
  obtain st e2 n where rec: "recovery c json sid sp e0 = Some (Ok (), st, e2)"
    and p: "prepared sid (is_recovered_end st) s n"
    using initialize_prepares [OF assms(1)] by blast
  obtain n0 where ok: "base_ok (init_file_id s) (init_end s) (ilw_expected w0) n0"
    and inv: "pair_inv (init_log s) (init_index s) (init_file_id s) (init_end s) (ilw_expected w0) n0 (w, e, recs)"
    using pair_reachable [OF prepared_taken_over(1) [OF p assms(2)] assms(3-5)] by blast
  then obtain x where ch: "chain (ilw_expected w0) recs = Some x" and fits: "n0 + length recs \<le> 100000"
    by (auto simp: pair_inv_def recs_ok_def)
  note first = base_first [OF ok] and place = prepared_taken_over(2,3) [OF p assms(2)]
  have nth: "stream_id (Record_id (recs ! i)) = sid"
      "seq_nat (sequence_number (Record_id (recs ! i))) = next_number (is_recovered_end st) + i"
      "from_record_id (Record_id (recs ! i)) = init_file_id s" if "i < length recs" for i
    using chain_nth [OF ch that] first place that fits prepared_next_number [OF p assms(3)]
    by (simp_all add: from_record_id_eq_iff)
  have "map (\<lambda>rec. seq_nat (sequence_number (Record_id rec))) recs =
      [next_number (is_recovered_end st)..<next_number (is_recovered_end st) + length recs]"
    by (rule nth_equalityI) (simp_all add: nth)
  then show ?thesis using rec nth by (intro exI [of _ st] exI [of _ e2]) (simp add: list_all_length)
qed

subsection \<open>A run\<close>

text \<open>The stream of \<open>example_checkpoint_run\<close> holds record 0; its writer accepts record 1.\<close>

definition example_restarted :: "nat InitializedStream" where
  "example_restarted = \<lparr>init_file_id = file_at (StreamId 0) 0, init_log = 2, init_index = 3, init_end = Some example_end\<rparr>"

definition example_second :: Record where
  "example_second = Record (encode_record (\<lambda>_. 7) (RecordId (StreamId 0) (SequenceNumber 1)) [])"

lemma example_second_valid: "valid_op (\<lambda>_. 7) (AppendRecord example_second)"
  using valid_frame_encode [of "[]" "RecordId (StreamId 0) (SequenceNumber 1)" "\<lambda>_. 7"]
  by (simp add: valid_op_def example_second_def valid_stream_def layout)

lemma example_second_fields:
  "Record_id example_second = RecordId (StreamId 0) (SequenceNumber 1)"
  "Record_length example_second = RecordLength 16"
  by (simp_all add: example_second_def id_encode Record_length_def RecordLength_new_unchecked_def)

lemma example_third: "RecordId_next (RecordId (StreamId 0) (SequenceNumber 1)) = Some (RecordId (StreamId 0) (SequenceNumber 2))"
  by (simp add: RecordId_next_eq_Some)

lemma example_continued:
  "\<exists>w0 w. IndexedLogWriter_from example_restarted = Some w0 \<and>
     pair_run [AppendRecord example_second] (w0, start_env [], []) = (w, start_env [], [example_second])"
  by (simp add: IndexedLogWriter_from_def example_restarted_def example_end_def example_next Let_def pair_run_def
      pair_write_record_def check_open_def is_full_def record_count_through_def layout append_start_def
      next_record_start_def end_log_file_id_def from_record_id_def LogFileNumber_from_sequence_number_def
      example_second_fields example_third to_end_def advance_cases pos_nat_def rw_write_record_def rw_check_usable_def
      iw_write_def iw_check_usable_def for_records_def with_mode_def IndexWriter_new_def iw_with_file_def)

theorem restart_continues_numbering_witness:
  "\<exists>e1 st e2. initialize (\<lambda>_. 7) example_checkpoint_json (StreamId 0) example_storage (start_env example_checkpoint_answers) =
      Some (Ok example_restarted, e1) \<and>
    recovery (\<lambda>_. 7) example_checkpoint_json (StreamId 0) example_storage (start_env example_checkpoint_answers) =
      Some (Ok (), st, e2) \<and>
    next_number (is_recovered_end st) = seq_nat (sequence_number (Record_id example_second)) \<and>
    from_record_id (Record_id example_second) = init_file_id example_restarted"
proof -
  obtain e1 where init: "initialize (\<lambda>_. 7) example_checkpoint_json (StreamId 0) example_storage
      (start_env example_checkpoint_answers) = Some (Ok example_restarted, e1)"
    using example_checkpoint_run unfolding example_restarted_def by blast
  obtain w0 w where w0: "IndexedLogWriter_from example_restarted = Some w0"
    and run: "pair_run [AppendRecord example_second] (w0, start_env [], []) = (w, start_env [], [example_second])"
    using example_continued by blast
  have "list_all (valid_op (\<lambda>_. 7)) [AppendRecord example_second]" using example_second_valid by simp
  moreover have "init_log example_restarted \<noteq> init_index example_restarted" by (simp add: example_restarted_def)
  ultimately show ?thesis using restart_continues_numbering [OF init _ w0 _ run] init by auto
qed

end
