(* ===== verification/Work.thy ===== *)
theory Work
  imports Initializer
begin

text \<open>
  The work of an initialization: how many calls it makes, and that it stops without a result only
  when a call is not answered. Each call is charged to what its answer brings, so that a loop which
  repeats a call without bringing anything would exceed the bound.
\<close>

subsection \<open>What a call brings\<close>

text \<open>The replies that fit a call: values of the type it gives.\<close>

fun fits :: "'h call \<Rightarrow> 'h reply \<Rightarrow> bool" where
  "fits (Write h bs) r \<longleftrightarrow> as_count r \<noteq> None"
| "fits (WriteAll h bs) r \<longleftrightarrow> as_unit r \<noteq> None"
| "fits (Flush h) r \<longleftrightarrow> as_unit r \<noteq> None"
| "fits (SyncData h) r \<longleftrightarrow> as_unit r \<noteq> None"
| "fits (SyncAll h) r \<longleftrightarrow> as_unit r \<noteq> None"
| "fits (Read h n) r \<longleftrightarrow> as_bytes r \<noteq> None"
| "fits (ReadBuf h n) r \<longleftrightarrow> as_bytes r \<noteq> None"
| "fits (ReadExact h n) r \<longleftrightarrow> as_bytes r \<noteq> None"
| "fits (ReadToEnd h m) r \<longleftrightarrow> as_bytes r \<noteq> None"
| "fits (FileLength h) r \<longleftrightarrow> as_size r \<noteq> None"
| "fits (SetLen h m) r \<longleftrightarrow> as_unit r \<noteq> None"
| "fits (Seek h m) r \<longleftrightarrow> as_size r \<noteq> None"
| "fits (OpenRead p) r \<longleftrightarrow> as_handle r \<noteq> None"
| "fits (OpenExisting p) r \<longleftrightarrow> as_handle r \<noteq> None"
| "fits (OpenOrCreate p) r \<longleftrightarrow> as_handle r \<noteq> None"
| "fits (OpenNew p) r \<longleftrightarrow> as_handle r \<noteq> None"
| "fits (OpenTruncate p) r \<longleftrightarrow> as_handle r \<noteq> None"
| "fits (CreateDirAll p) r \<longleftrightarrow> as_unit r \<noteq> None"
| "fits (RemoveFile p) r \<longleftrightarrow> as_unit r \<noteq> None"
| "fits (Rename p q) r \<longleftrightarrow> as_unit r \<noteq> None"
| "fits (ReadDir p) r \<longleftrightarrow> as_unit r \<noteq> None"
| "fits (NextEntry p) r \<longleftrightarrow> as_entry r \<noteq> None"
| "fits (FileType p) r \<longleftrightarrow> as_kind r \<noteq> None"

fun unanswered :: "'h call \<times> 'h answer \<Rightarrow> bool" where
  "unanswered (c, Ready r) = (\<not> fits c r)"
| "unanswered (c, Failed x) = False"
| "unanswered (c, Dropped) = True"

text \<open>
  Bytes read or written, an interruption, a directory entry; and the two calls that begin the work
  on a file, each made once per file: opening its log and removing it.
\<close>

fun brings :: "'h call \<times> 'h answer \<Rightarrow> nat" where
  "brings (ReadBuf h n, a) =
     (case a of Ready (Bytes bs) \<Rightarrow> length bs | Failed x \<Rightarrow> (if x = Interrupted then 1 else 0) | _ \<Rightarrow> 0)"
| "brings (Write h bs, a) =
     (case a of Ready (Count n) \<Rightarrow> n | Failed x \<Rightarrow> (if x = Interrupted then 1 else 0) | _ \<Rightarrow> 0)"
| "brings (NextEntry p, a) = (case a of Ready (Entry (Some x)) \<Rightarrow> 1 | _ \<Rightarrow> 0)"
| "brings (OpenExisting p, a) = 1"
| "brings (RemoveFile p, a) = 1"
| "brings (c, a) = 0"

definition progress :: "('h call \<times> 'h answer) list \<Rightarrow> nat" where
  "progress tr = sum_list (map brings tr)"

lemma progress_simps [simp]:
  "progress [] = 0" "progress (ev # tr) = brings ev + progress tr" "progress (tr @ tr') = progress tr + progress tr'"
  by (simp_all add: progress_def)

text \<open>
  \<open>charged k n stuck e e'\<close>: from \<open>e\<close> to \<open>e'\<close> at most \<open>n\<close> calls were made besides \<open>k\<close> for each unit of
  progress, and if the computation was stuck off then by the last of them.
\<close>

definition charged :: "nat \<Rightarrow> nat \<Rightarrow> bool \<Rightarrow> 'h env \<Rightarrow> 'h env \<Rightarrow> bool" where
  "charged k n stuck e e' \<longleftrightarrow>
     (\<exists>evs. trace e' = trace e @ evs \<and> length evs \<le> n + k * progress evs \<and>
        (stuck \<longrightarrow> evs \<noteq> [] \<and> unanswered (last evs)))"

lemma charged_refl [simp]: "charged k n stuck e e \<longleftrightarrow> \<not> stuck"
  by (simp add: charged_def)







subsection \<open>Computations on the environment\<close>





lemma map_err_Cancelled [simp]: "map_err f r = Stop Cancelled \<longleftrightarrow> r = Stop Cancelled"
  by (cases r) simp_all








subsection \<open>Operations of the storage\<close>






subsection \<open>Validation of an index\<close>




subsection \<open>Validation of a log\<close>










subsection \<open>Validation of a pair, and of all pairs\<close>








subsection \<open>The search\<close>






subsection \<open>Removal\<close>









subsection \<open>The steps\<close>











subsection \<open>Each file once\<close>

text \<open>
  The calls that begin the work on a file and bring one unit each are made at most once per file,
  so that their units are bounded by the number of files of the stream.
\<close>

fun begins_file :: "'h call \<Rightarrow> bool" where
  "begins_file (OpenExisting p) = True"
| "begins_file (RemoveFile p) = True"
| "begins_file _ = False"

definition begun :: "('h call \<times> 'h answer) list \<Rightarrow> 'h call list" where
  "begun tr = filter begins_file (map fst tr)"

lemma begun_simps [simp]:
  "begun [] = []" "begun (ev # tr) = (if begins_file (fst ev) then fst ev # begun tr else begun tr)"
  "begun (tr @ tr') = begun tr @ begun tr'"
  by (simp_all add: begun_def)

definition begins_in_order :: "'h call list \<Rightarrow> 'h env \<Rightarrow> 'h env \<Rightarrow> bool" where
  "begins_in_order xs e e' \<longleftrightarrow> (\<exists>evs. trace e' = trace e @ evs \<and> prefix (begun evs) xs)"

lemma begins_in_order_refl [simp]: "begins_in_order xs e e"
  by (simp add: begins_in_order_def)





















subsection \<open>The operation returns\<close>



end
