(* ===== verification/MessageIO.thy ===== *)
theory MessageIO
  imports Environment
begin

text \<open>
  The library \<^verbatim>\<open>lib/message-io\<close>: messages framed by a length prefix, on a byte stream. The
  serialization format (Postcard, with the message type's Serde implementations) is external: a
  message is written by a \<open>serialization\<close>, which is what its \<^verbatim>\<open>Serialize\<close> implementation does with
  the storage it is given, and read by a decoder that returns the value and the bytes it left.
\<close>

subsection \<open>Protocol and errors\<close>

definition LENGTH_PREFIX_LEN :: nat where
  [layout]: "LENGTH_PREFIX_LEN = 4"

definition MAX_MESSAGE_BODY_LEN :: nat where
  [layout]: "MAX_MESSAGE_BODY_LEN = 1024 * 1024"

datatype postcard_error = SerializeBufferFull | PostcardOther nat

datatype MessageWriteError = WriteTooLarge | Encode postcard_error | WriteIo io_error

datatype MessageReadError =
    EndOfStream
  | MessageReadIo io_error
  | ReadTooLarge u32
  | Decode postcard_error
  | TrailingBytes nat

subsection \<open>The bounded frame\<close>

record BoundedFrame =
  bf_bytes :: bytes
  bf_too_large :: bool

text \<open>The panics are the underflows of the two subtractions.\<close>

definition try_extend :: "bytes \<Rightarrow> BoundedFrame \<Rightarrow> (unit, postcard_error) outcome \<times> BoundedFrame" where
  "try_extend bs self =
     (if length (bf_bytes self) < LENGTH_PREFIX_LEN then (Stop Panic, self)
      else
        (let body_len = length (bf_bytes self) - LENGTH_PREFIX_LEN in
         if body_len > MAX_MESSAGE_BODY_LEN then (Stop Panic, self)
         else if length bs > MAX_MESSAGE_BODY_LEN - body_len
         then (Err SerializeBufferFull, self\<lparr>bf_too_large := True\<rparr>)
         else (Ok (), self\<lparr>bf_bytes := bf_bytes self @ bs\<rparr>)))"

definition try_push :: "u8 \<Rightarrow> BoundedFrame \<Rightarrow> (unit, postcard_error) outcome \<times> BoundedFrame" where
  "try_push byte self = try_extend [byte] self"

definition finalize_frame :: "BoundedFrame \<Rightarrow> (unit, postcard_error) outcome" where
  "finalize_frame self = Ok ()"

text \<open>
  A run of a \<^verbatim>\<open>Serialize\<close> implementation on Postcard's serializer: what it pushes, how it goes on
  when the storage takes the bytes and when it refuses them, and what it finally returns. A
  refusal is reported to the implementation, which may ignore it.
\<close>

datatype serialization =
    Push u8 serialization serialization
  | Extend bytes serialization serialization
  | Return "(unit, postcard_error) outcome"

primrec serialize :: "serialization \<Rightarrow> BoundedFrame \<Rightarrow> (unit, postcard_error) outcome \<times> BoundedFrame" where
  "serialize (Push byte taken refused) self =
     (case try_push byte self of
        (Ok _, self) \<Rightarrow> serialize taken self
      | (Err _, self) \<Rightarrow> serialize refused self
      | (Stop s, self) \<Rightarrow> (Stop s, self))"
| "serialize (Extend bs taken refused) self =
     (case try_extend bs self of
        (Ok _, self) \<Rightarrow> serialize taken self
      | (Err _, self) \<Rightarrow> serialize refused self
      | (Stop s, self) \<Rightarrow> (Stop s, self))"
| "serialize (Return r) self = (r, self)"

text \<open>\<^verbatim>\<open>postcard::serialize_with_flavor\<close>: the serialization, then the storage's \<^verbatim>\<open>finalize\<close>.\<close>

definition serialize_with_flavor ::
    "serialization \<Rightarrow> BoundedFrame \<Rightarrow> (unit, postcard_error) outcome \<times> BoundedFrame" where
  "serialize_with_flavor message self =
     (case serialize message self of
        (Ok _, self) \<Rightarrow> (finalize_frame self, self)
      | (Err x, self) \<Rightarrow> (Err x, self)
      | (Stop s, self) \<Rightarrow> (Stop s, self))"

subsection \<open>Writing and reading a message\<close>

definition write_message ::
    "('t \<Rightarrow> serialization) \<Rightarrow> 'h \<Rightarrow> 't \<Rightarrow> 'h env \<Rightarrow> (unit, MessageWriteError) outcome \<times> 'h env" where
  "write_message to_postcard self message e =
     (case serialize_with_flavor (to_postcard message)
             \<lparr>bf_bytes = replicate LENGTH_PREFIX_LEN 0, bf_too_large = False\<rparr> of
        (Stop s, _) \<Rightarrow> (Stop s, e)
      | (res, state) \<Rightarrow>
          if bf_too_large state then (Err WriteTooLarge, e)
          else
            (case res of
               Err x \<Rightarrow> (Err (Encode x), e)
             | Stop s \<Rightarrow> (Stop s, e)
             | Ok _ \<Rightarrow>
                 (let body_len = of_nat (length (bf_bytes state) - LENGTH_PREFIX_LEN) :: u32;
                      frame = to_le_bytes32 body_len @ drop LENGTH_PREFIX_LEN (bf_bytes state) in
                  case unit_call (WriteAll self frame) e of
                    (Err x, e) \<Rightarrow> (Err (WriteIo x), e)
                  | (Stop s, e) \<Rightarrow> (Stop s, e)
                  | (Ok _, e) \<Rightarrow> (Ok (), e))))"

definition read_message ::
    "(bytes \<Rightarrow> ('t \<times> bytes, postcard_error) outcome) \<Rightarrow> 'h \<Rightarrow> 'h env \<Rightarrow> ('t, MessageReadError) outcome \<times> 'h env" where
  "read_message take_from_bytes self e =
     (case bytes_call (Read self 1) e of
        (Err x, e) \<Rightarrow> (Err (MessageReadIo x), e)
      | (Stop s, e) \<Rightarrow> (Stop s, e)
      | (Ok [], e) \<Rightarrow> (Err EndOfStream, e)
      | (Ok (first # _), e) \<Rightarrow>
     (case bytes_call (ReadExact self (LENGTH_PREFIX_LEN - 1)) e of
        (Err x, e) \<Rightarrow> (Err (MessageReadIo x), e)
      | (Stop s, e) \<Rightarrow> (Stop s, e)
      | (Ok rest, e) \<Rightarrow>
          (let body_len = from_le_bytes32 (first # rest) in
           if body_len > of_nat MAX_MESSAGE_BODY_LEN then (Err (ReadTooLarge body_len), e)
           else
     (case bytes_call (ReadExact self (unat body_len)) e of
        (Err x, e) \<Rightarrow> (Err (MessageReadIo x), e)
      | (Stop s, e) \<Rightarrow> (Stop s, e)
      | (Ok body, e) \<Rightarrow>
     (case take_from_bytes body of
        Err x \<Rightarrow> (Err (Decode x), e)
      | Stop s \<Rightarrow> (Stop s, e)
      | Ok (message, remainder) \<Rightarrow>
          if remainder \<noteq> [] then (Err (TrailingBytes (length remainder)), e) else (Ok message, e))))))"

subsection \<open>Specification of the writer\<close>

text \<open>
  What a serialization pushes, and returns, when nothing is refused; and the results it can end
  with at all.
\<close>

primrec body_of :: "serialization \<Rightarrow> bytes" where
  "body_of (Push byte taken refused) = byte # body_of taken"
| "body_of (Extend bs taken refused) = bs @ body_of taken"
| "body_of (Return r) = []"

primrec result_of :: "serialization \<Rightarrow> (unit, postcard_error) outcome" where
  "result_of (Push byte taken refused) = result_of taken"
| "result_of (Extend bs taken refused) = result_of taken"
| "result_of (Return r) = r"

primrec results :: "serialization \<Rightarrow> (unit, postcard_error) outcome set" where
  "results (Push byte taken refused) = results taken \<union> results refused"
| "results (Extend bs taken refused) = results taken \<union> results refused"
| "results (Return r) = {r}"

definition frame_of :: "bytes \<Rightarrow> bytes" where
  "frame_of body = to_le_bytes32 (of_nat (length body)) @ body"

definition bounded :: "BoundedFrame \<Rightarrow> bool" where
  "bounded self \<longleftrightarrow> LENGTH_PREFIX_LEN \<le> length (bf_bytes self) \<and>
     length (bf_bytes self) \<le> LENGTH_PREFIX_LEN + MAX_MESSAGE_BODY_LEN"

definition fits :: "bytes \<Rightarrow> BoundedFrame \<Rightarrow> bool" where
  "fits bs self \<longleftrightarrow> length (bf_bytes self) + length bs \<le> LENGTH_PREFIX_LEN + MAX_MESSAGE_BODY_LEN"

lemma try_extend_bounded:
  "bounded self \<Longrightarrow> try_extend bs self =
     (if fits bs self then (Ok (), self\<lparr>bf_bytes := bf_bytes self @ bs\<rparr>)
      else (Err SerializeBufferFull, self\<lparr>bf_too_large := True\<rparr>))"
  by (auto simp: try_extend_def bounded_def fits_def Let_def)

lemma bounded_simps [simp]:
  "bounded self \<Longrightarrow> fits bs self \<Longrightarrow> bounded (self\<lparr>bf_bytes := bf_bytes self @ bs\<rparr>)"
  "bounded (self\<lparr>bf_too_large := t\<rparr>) = bounded self"
  by (auto simp: bounded_def fits_def)

lemma fits_append [simp]:
  "fits bs self \<Longrightarrow> fits bs' (self\<lparr>bf_bytes := bf_bytes self @ bs\<rparr>) = fits (bs @ bs') self"
  by (simp add: fits_def add.assoc)

lemma fits_prefix: "fits (bs @ bs') self \<Longrightarrow> fits bs self"
  by (simp add: fits_def)

text \<open>Both kinds of step are the same to the frame; \<open>step_of\<close> is what they do to it.\<close>

lemma serialize_step:
  "bounded self \<Longrightarrow> serialize (Push byte taken refused) self = serialize (Extend [byte] taken refused) self"
  "bounded self \<Longrightarrow> serialize (Extend bs taken refused) self =
     (if fits bs self then serialize taken (self\<lparr>bf_bytes := bf_bytes self @ bs\<rparr>)
      else serialize refused (self\<lparr>bf_too_large := True\<rparr>))"
  by (simp_all add: try_push_def try_extend_bounded)

lemma serialize_refused:
  "bounded self \<Longrightarrow> bf_too_large self \<Longrightarrow> serialize s self = (r, self') \<Longrightarrow> bf_too_large self' \<and> r \<in> results s"
proof (induction s arbitrary: self)
  case (Extend bs taken refused)
  show ?case
    using Extend.prems Extend.IH(1) [of "self\<lparr>bf_bytes := bf_bytes self @ bs\<rparr>"]
      Extend.IH(2) [of "self\<lparr>bf_too_large := True\<rparr>"]
    by (cases "fits bs self") (simp_all add: serialize_step del: serialize.simps)
next
  case (Push byte taken refused)
  show ?case
    using Push.prems Push.IH(1) [of "self\<lparr>bf_bytes := bf_bytes self @ [byte]\<rparr>"]
      Push.IH(2) [of "self\<lparr>bf_too_large := True\<rparr>"]
    by (cases "fits [byte] self") (simp_all add: serialize_step del: serialize.simps)
qed auto

lemma serialize_spec:
  "bounded self \<Longrightarrow> serialize s self = (r, self') \<Longrightarrow>
     if fits (body_of s) self
     then r = result_of s \<and> self' = self\<lparr>bf_bytes := bf_bytes self @ body_of s\<rparr>
     else bf_too_large self' \<and> r \<in> results s"
proof (induction s arbitrary: self)
  case (Extend bs taken refused)
  show ?case
  proof (cases "fits bs self")
    case True
    then show ?thesis
      using Extend.prems Extend.IH(1) [of "self\<lparr>bf_bytes := bf_bytes self @ bs\<rparr>"]
      by (auto simp: serialize_step simp del: serialize.simps split: if_splits)
  next
    case False
    then have "bf_too_large self' \<and> r \<in> results refused"
      using Extend.prems serialize_refused [of "self\<lparr>bf_too_large := True\<rparr>" refused r self']
      by (simp add: serialize_step del: serialize.simps)
    then show ?thesis using False fits_prefix [of bs "body_of taken" self] by auto
  qed
next
  case (Push byte taken refused)
  show ?case
  proof (cases "fits [byte] self")
    case True
    then show ?thesis
      using Push.prems Push.IH(1) [of "self\<lparr>bf_bytes := bf_bytes self @ [byte]\<rparr>"]
      by (auto simp: serialize_step simp del: serialize.simps split: if_splits)
  next
    case False
    then have "bf_too_large self' \<and> r \<in> results refused"
      using Push.prems serialize_refused [of "self\<lparr>bf_too_large := True\<rparr>" refused r self']
      by (simp add: serialize_step del: serialize.simps)
    then show ?thesis using False fits_prefix [of "[byte]" "body_of taken" self] by auto
  qed
qed (auto simp: fits_def bounded_def)

lemma result_of_results: "result_of s \<in> results s"
  by (induction s) auto

definition write_message_spec ::
    "('t \<Rightarrow> serialization) \<Rightarrow> 'h \<Rightarrow> 't \<Rightarrow> 'h env \<Rightarrow> (unit, MessageWriteError) outcome \<times> 'h env" where
  "write_message_spec to_postcard self message e =
     (let body = body_of (to_postcard message) in
      if length body > MAX_MESSAGE_BODY_LEN then (Err WriteTooLarge, e)
      else
        (case result_of (to_postcard message) of
           Err x \<Rightarrow> (Err (Encode x), e)
         | Stop s \<Rightarrow> (Stop s, e)
         | Ok _ \<Rightarrow>
             (case unit_call (WriteAll self (frame_of body)) e of (r, e) \<Rightarrow> (map_err WriteIo r, e))))"

subsection \<open>Specification of the reader\<close>

text \<open>
  A byte stream with the bytes \<open>bs\<close> still to come, replayed on a trace: a read returns the next
  bytes, none only at the end; an exact read returns as many as asked for, or fails with
  \<open>UnexpectedEof\<close> when the stream ends before that. The replay ends at any other answer.
\<close>

fun stream_step :: "'h call \<times> 'h answer \<Rightarrow> bytes \<Rightarrow> bytes option" where
  "stream_step (Read h n, Ready (Bytes bs)) left =
     (if prefix bs left \<and> length bs \<le> n \<and> (bs = [] \<longrightarrow> n = 0 \<or> left = []) then Some (drop (length bs) left)
      else None)"
| "stream_step (ReadExact h n, Ready (Bytes bs)) left =
     (if prefix bs left \<and> length bs = n then Some (drop n left) else None)"
| "stream_step (ReadExact h n, Failed UnexpectedEof) left = (if length left < n then Some [] else None)"
| "stream_step _ left = None"

primrec stream_run :: "('h call \<times> 'h answer) list \<Rightarrow> bytes \<Rightarrow> bytes option" where
  "stream_run [] left = Some left"
| "stream_run (ev # tr) left = (case stream_step ev left of None \<Rightarrow> None | Some left' \<Rightarrow> stream_run tr left')"

lemma stream_run_append:
  "stream_run (tr @ tr') left = (case stream_run tr left of None \<Rightarrow> None | Some left' \<Rightarrow> stream_run tr' left')"
  by (induction tr arbitrary: left) (auto split: option.splits)

text \<open>What reading one message from the bytes of a stream gives, and what it leaves unread.\<close>

definition receive ::
    "(bytes \<Rightarrow> ('t \<times> bytes, postcard_error) outcome) \<Rightarrow> bytes \<Rightarrow> ('t, MessageReadError) outcome \<times> bytes" where
  "receive take_from_bytes left =
     (if left = [] then (Err EndOfStream, [])
      else if length left < LENGTH_PREFIX_LEN then (Err (MessageReadIo UnexpectedEof), [])
      else
        (let body_len = from_le_bytes32 (take LENGTH_PREFIX_LEN left);
             rest = drop LENGTH_PREFIX_LEN left in
         if unat body_len > MAX_MESSAGE_BODY_LEN then (Err (ReadTooLarge body_len), rest)
         else if length rest < unat body_len then (Err (MessageReadIo UnexpectedEof), [])
         else
           ((case take_from_bytes (take (unat body_len) rest) of
               Err x \<Rightarrow> Err (Decode x)
             | Stop s \<Rightarrow> Stop s
             | Ok (message, remainder) \<Rightarrow>
                 if remainder \<noteq> [] then Err (TrailingBytes (length remainder)) else Ok message),
            drop (unat body_len) rest)))"

lemma write_message_cases:
  "if length (body_of (to_postcard message)) > MAX_MESSAGE_BODY_LEN
   then \<exists>r. write_message to_postcard h message e = (r, e) \<and>
     (r = Err WriteTooLarge \<or> (\<exists>s. r = Stop s \<and> Stop s \<in> results (to_postcard message)))
   else write_message to_postcard h message e = write_message_spec to_postcard h message e"
proof -
  let ?F = "\<lparr>bf_bytes = replicate LENGTH_PREFIX_LEN 0, bf_too_large = False\<rparr>"
  let ?s = "to_postcard message"
  obtain r F where run: "serialize ?s ?F = (r, F)" by fastforce
  have b: "bounded ?F" by (simp add: bounded_def)
  have f: "fits (body_of ?s) ?F \<longleftrightarrow> \<not> length (body_of ?s) > MAX_MESSAGE_BODY_LEN" by (auto simp: fits_def)
  note spec = serialize_spec [OF b run]
  show ?thesis
  proof (cases "length (body_of ?s) > MAX_MESSAGE_BODY_LEN")
    case True
    then have "bf_too_large F" "r \<in> results ?s" using spec f by simp_all
    then show ?thesis using True run
      by (cases r) (simp_all add: write_message_def serialize_with_flavor_def finalize_frame_def)
  next
    case False
    then have "r = result_of ?s" "F = ?F\<lparr>bf_bytes := bf_bytes ?F @ body_of ?s\<rparr>" using spec f by simp_all
    then show ?thesis using False run
      by (cases "result_of ?s")
         (auto simp: write_message_def serialize_with_flavor_def finalize_frame_def write_message_spec_def
            frame_of_def Let_def split: prod.splits outcome.splits)
  qed
qed

text \<open>
  A run of the reader agrees with a parser of byte streams: whenever its trace is that of a stream,
  the parser gives the same result on the bytes of the stream and leaves the same bytes.
\<close>

definition agrees :: "'r \<Rightarrow> 'h env \<Rightarrow> 'h env \<Rightarrow> (bytes \<Rightarrow> 'r \<times> bytes) \<Rightarrow> bool" where
  "agrees r e e' f \<longleftrightarrow> (\<exists>evs. trace e' = trace e @ evs \<and>
     (\<forall>left rest. stream_run evs left = Some rest \<longrightarrow> f left = (r, rest)))"

definition after :: "(bytes \<Rightarrow> 'q \<times> bytes) \<Rightarrow> ('q \<Rightarrow> bytes \<Rightarrow> 'r \<times> bytes) \<Rightarrow> bytes \<Rightarrow> 'r \<times> bytes" where
  "after f g left = (case f left of (q, left) \<Rightarrow> g q left)"

definition next_byte :: "bytes \<Rightarrow> (bytes, io_error) outcome \<times> bytes" where
  "next_byte left = (Ok (take 1 left), drop 1 left)"

definition exactly :: "nat \<Rightarrow> bytes \<Rightarrow> (bytes, io_error) outcome \<times> bytes" where
  "exactly n left = (if length left < n then (Err UnexpectedEof, []) else (Ok (take n left), drop n left))"

lemma agrees_pure: "agrees r e e (Pair r)"
  by (simp add: agrees_def)

lemma agrees_bind:
  assumes "agrees q e e1 f" and "agrees r e1 e' (g q)"
  shows "agrees r e e' (after f g)"
proof -
  obtain evs1 evs2 where e: "trace e1 = trace e @ evs1" "trace e' = trace e1 @ evs2"
    and f: "\<And>left rest. stream_run evs1 left = Some rest \<Longrightarrow> f left = (q, rest)"
    and g: "\<And>left rest. stream_run evs2 left = Some rest \<Longrightarrow> g q left = (r, rest)"
    using assms by (auto simp: agrees_def)
  have "after f g left = (r, rest)" if "stream_run (evs1 @ evs2) left = Some rest" for left rest
    using that f g by (auto simp: after_def stream_run_append split: option.splits)
  then show ?thesis using e unfolding agrees_def by (intro exI [of _ "evs1 @ evs2"]) simp
qed

lemma agrees_call:
  assumes "bytes_call c e = (r, e')"
    and "\<And>bs left rest. stream_step (c, Ready (Bytes bs)) left = Some rest \<Longrightarrow> f left = (Ok bs, rest)"
    and "\<And>x left rest. stream_step (c, Failed x) left = Some rest \<Longrightarrow> f left = (Err x, rest)"
    and "\<exists>h n. c = Read h n \<or> c = ReadExact h n"
  shows "agrees r e e' f"
proof (cases r)
  case (Ok bs)
  then show ?thesis using typed_call_Ok [OF assms(1) [unfolded Ok]] assms(2)
    by (auto simp: agrees_def split: option.splits)
next
  case (Err x)
  then show ?thesis using typed_call_Err [OF assms(1) [unfolded Err]] assms(3)
    by (auto simp: agrees_def split: option.splits)
next
  case (Stop s)
  obtain a where a: "trace e' = trace e @ [(c, a)]" "\<forall>r. a = Ready r \<longrightarrow> as_bytes r = None" "\<forall>x. a \<noteq> Failed x"
    using typed_call_Stop [OF assms(1) [unfolded Stop]] by blast
  have "stream_step (c, a) left = None" for left
    using a(2,3) assms(4) by (cases a; cases "case a of Ready r \<Rightarrow> r | _ \<Rightarrow> Unit") auto
  then show ?thesis using a(1) by (auto simp: agrees_def)
qed

lemma stream_step_failed [simp]:
  "stream_step (Read h n, Failed x) left = None"
  "stream_step (ReadExact h n, Failed x) left = (if x = UnexpectedEof \<and> length left < n then Some [] else None)"
  by (cases x; simp)+

lemma agrees_read: "bytes_call (Read h 1) e = (r, e') \<Longrightarrow> agrees r e e' next_byte"
proof (erule agrees_call)
  show "stream_step (Read h 1, Ready (Bytes bs)) left = Some rest \<Longrightarrow> next_byte left = (Ok bs, rest)" for bs left rest
    by (cases bs; cases left) (auto simp: next_byte_def split: if_splits)
qed auto

lemma agrees_read_exact: "bytes_call (ReadExact h n) e = (r, e') \<Longrightarrow> agrees r e e' (exactly n)"
  by (erule agrees_call) (auto simp: exactly_def prefix_def split: if_splits)

text \<open>The reader's stages, as parsers.\<close>

fun body_result ::
    "(bytes \<Rightarrow> ('t \<times> bytes, postcard_error) outcome) \<Rightarrow> (bytes, io_error) outcome \<Rightarrow> ('t, MessageReadError) outcome" where
  "body_result tk (Err x) = Err (MessageReadIo x)"
| "body_result tk (Stop s) = Stop s"
| "body_result tk (Ok body) =
     (case tk body of
        Err x \<Rightarrow> Err (Decode x)
      | Stop s \<Rightarrow> Stop s
      | Ok (message, remainder) \<Rightarrow>
          if remainder \<noteq> [] then Err (TrailingBytes (length remainder)) else Ok message)"

fun body_stage where
  "body_stage tk first (Err x) = Pair (Err (MessageReadIo x))"
| "body_stage tk first (Stop s) = Pair (Stop s)"
| "body_stage tk first (Ok rest) =
     (let n = from_le_bytes32 (first # rest) in
      if n > of_nat MAX_MESSAGE_BODY_LEN then Pair (Err (ReadTooLarge n))
      else after (exactly (unat n)) (\<lambda>q. Pair (body_result tk q)))"

fun prefix_stage where
  "prefix_stage tk (Err x) = Pair (Err (MessageReadIo x))"
| "prefix_stage tk (Stop s) = Pair (Stop s)"
| "prefix_stage tk (Ok []) = Pair (Err EndOfStream)"
| "prefix_stage tk (Ok (first # _)) = after (exactly (LENGTH_PREFIX_LEN - 1)) (body_stage tk first)"

lemma read_message_agrees:
  assumes "read_message tk h e = (r, e')"
  shows "agrees r e e' (after next_byte (prefix_stage tk))"
proof -
  obtain q1 e1 where c1: "bytes_call (Read h 1) e = (q1, e1)" by fastforce
  have "agrees r e1 e' (prefix_stage tk q1)"
  proof (cases "\<exists>b bs. q1 = Ok (b # bs)")
    case True
    then obtain b bs where q1: "q1 = Ok (b # bs)" by blast
    obtain q2 e2 where c2: "bytes_call (ReadExact h (LENGTH_PREFIX_LEN - 1)) e1 = (q2, e2)" by fastforce
    have "agrees r e2 e' (body_stage tk b q2)"
    proof (cases "\<exists>rest. q2 = Ok rest \<and> \<not> from_le_bytes32 (b # rest) > of_nat MAX_MESSAGE_BODY_LEN")
      case True
      then obtain rest where q2: "q2 = Ok rest" "\<not> from_le_bytes32 (b # rest) > of_nat MAX_MESSAGE_BODY_LEN" by blast
      obtain q3 e3 where c3: "bytes_call (ReadExact h (unat (from_le_bytes32 (b # rest)))) e2 = (q3, e3)" by fastforce
      have "r = body_result tk q3 \<and> e' = e3" using assms c1 c2 c3 q1 q2
        by (cases q3) (auto simp: read_message_def split: outcome.splits prod.splits if_splits)
      then have "agrees r e3 e' (Pair (body_result tk q3))" by (simp add: agrees_pure)
      then show ?thesis using agrees_bind [OF agrees_read_exact [OF c3]] q2 by simp
    next
      case False
      then show ?thesis using assms c1 c2 q1
        by (cases q2) (auto simp: read_message_def agrees_pure)
    qed
    then show ?thesis using agrees_bind [OF agrees_read_exact [OF c2]] q1 by simp
  next
    case False
    then show ?thesis using assms c1
      by (cases "(tk, q1)" rule: prefix_stage.cases) (auto simp: read_message_def agrees_pure)
  qed
  then show ?thesis by (rule agrees_bind [OF agrees_read [OF c1]])
qed

lemma body_len_limit: "n > of_nat MAX_MESSAGE_BODY_LEN \<longleftrightarrow> unat (n :: u32) > MAX_MESSAGE_BODY_LEN"
  by (simp add: word_less_nat_alt layout)

lemma receive_stages: "after next_byte (prefix_stage tk) left = receive tk left"
proof (cases left)
  case (Cons b ls)
  have "take 4 (b # ls) = b # take 3 ls" "drop 4 (b # ls) = drop 3 ls" by (simp_all add: eval_nat_numeral)
  then show ?thesis using Cons
    by (auto simp: after_def next_byte_def exactly_def receive_def word_less_nat_alt Let_def layout split: outcome.splits)
qed (simp add: after_def next_byte_def receive_def)

lemma read_message_receives:
  assumes "read_message tk h e = (r, e')"
  obtains evs where "trace e' = trace e @ evs" "\<And>left rest. stream_run evs left = Some rest \<Longrightarrow> receive tk left = (r, rest)"
  using read_message_agrees [OF assms] by (auto simp: agrees_def receive_stages)

lemma receive_frame:
  assumes "length body \<le> MAX_MESSAGE_BODY_LEN" and "tk body = Ok (m, [])"
  shows "receive tk (frame_of body @ left) = (Ok m, left)"
proof -
  have n: "unat (of_nat (length body) :: u32) = length body"
    using assms(1) by (simp add: unat_of_nat layout)
  have "take 4 (frame_of body @ left) = to_le_bytes32 (of_nat (length body))" "drop 4 (frame_of body @ left) = body @ left"
    by (simp_all add: frame_of_def)
  moreover have "to_le_bytes32 n \<noteq> []" for n using le32.length_enc [of n] by fastforce
  ultimately show ?thesis using assms n by (simp add: receive_def layout frame_of_def)
qed

subsection \<open>A conversation\<close>

text \<open>A client of the library: all messages are sent, and \<open>n\<close> reads are made at the other side.\<close>

primrec send_messages ::
    "('t \<Rightarrow> serialization) \<Rightarrow> 'h \<Rightarrow> 't list \<Rightarrow> 'h env \<Rightarrow> (unit, MessageWriteError) outcome \<times> 'h env" where
  "send_messages tp h [] e = (Ok (), e)"
| "send_messages tp h (m # ms) e =
     (case write_message tp h m e of
        (Ok _, e) \<Rightarrow> send_messages tp h ms e
      | (Err x, e) \<Rightarrow> (Err x, e)
      | (Stop s, e) \<Rightarrow> (Stop s, e))"

primrec receive_messages ::
    "(bytes \<Rightarrow> ('t \<times> bytes, postcard_error) outcome) \<Rightarrow> 'h \<Rightarrow> nat \<Rightarrow> 'h env \<Rightarrow>
     ('t, MessageReadError) outcome list \<times> 'h env" where
  "receive_messages tk h 0 e = ([], e)"
| "receive_messages tk h (Suc n) e =
     (let (r, e) = read_message tk h e in
      if is_ok r then (let (rs, e) = receive_messages tk h n e in (r # rs, e)) else ([r], e))"

lemma write_message_Ok:
  assumes "write_message tp h m e = (Ok u, e')"
  shows "length (body_of (tp m)) \<le> MAX_MESSAGE_BODY_LEN \<and>
    trace e' = trace e @ [(WriteAll h (frame_of (body_of (tp m))), Ready Unit)]"
proof (cases "length (body_of (tp m)) > MAX_MESSAGE_BODY_LEN")
  case True
  then show ?thesis using write_message_cases [of tp m h e] assms by auto
next
  case False
  then have "write_message_spec tp h m e = (Ok u, e')" using write_message_cases [of tp m h e] assms by simp
  then show ?thesis using False
    by (auto simp: write_message_spec_def Let_def split: outcome.splits prod.splits dest!: typed_call_Ok)
qed

lemma send_messages_accepted:
  "send_messages tp h ms e = (Ok u, e') \<Longrightarrow>
     list_all (\<lambda>m. length (body_of (tp m)) \<le> MAX_MESSAGE_BODY_LEN) ms \<and>
     accepted h (trace e') = accepted h (trace e) @ concat (map (\<lambda>m. frame_of (body_of (tp m))) ms)"
  by (induction ms arbitrary: e) (auto split: outcome.splits prod.splits dest!: write_message_Ok)

lemma receive_messages_frames:
  assumes "\<And>m. tk (body_of (tp m)) = Ok (m, [])"
    and "list_all (\<lambda>m. length (body_of (tp m)) \<le> MAX_MESSAGE_BODY_LEN) ms"
    and "receive_messages tk h (Suc (length ms)) e = (rs, e')"
  shows "\<exists>evs. trace e' = trace e @ evs \<and>
    (stream_run evs (concat (map (\<lambda>m. frame_of (body_of (tp m))) ms)) \<noteq> None \<longrightarrow> rs = map Ok ms @ [Err EndOfStream])"
  using assms(2,3)
proof (induction ms arbitrary: e rs)
  case Nil
  obtain r where r: "read_message tk h e = (r, e')" "rs = [r]"
    using Nil by (auto simp: Let_def split: prod.splits if_splits)
  obtain evs where "trace e' = trace e @ evs" "\<And>left rest. stream_run evs left = Some rest \<Longrightarrow> receive tk left = (r, rest)"
    by (rule read_message_receives [OF r(1)]) (rule that)
  then show ?case using r(2) by (fastforce simp: receive_def)
next
  case (Cons m ms)
  let ?left = "concat (map (\<lambda>m. frame_of (body_of (tp m))) ms)"
  obtain r e1 where r: "read_message tk h e = (r, e1)" by fastforce
  obtain evs where evs: "trace e1 = trace e @ evs" "\<And>left rest. stream_run evs left = Some rest \<Longrightarrow> receive tk left = (r, rest)"
    by (rule read_message_receives [OF r]) (rule that)
  have first: "r = Ok m \<and> rest = ?left" if "stream_run evs (frame_of (body_of (tp m)) @ ?left) = Some rest" for rest
    using evs(2) [OF that] receive_frame [of "body_of (tp m)" tk m ?left] assms(1) Cons.prems(1) by simp
  show ?case
  proof (cases "is_ok r")
    case True
    then obtain rs' where rs': "receive_messages tk h (Suc (length ms)) e1 = (rs', e')" "rs = r # rs'"
      using Cons.prems(2) r by (auto simp: Let_def split: prod.splits)
    obtain evs' where evs': "trace e' = trace e1 @ evs'"
        "stream_run evs' ?left \<noteq> None \<longrightarrow> rs' = map Ok ms @ [Err EndOfStream]"
      using Cons.IH [OF _ rs'(1)] Cons.prems(1) by auto
    have "stream_run (evs @ evs') (frame_of (body_of (tp m)) @ ?left) \<noteq> None \<longrightarrow> rs = map Ok (m # ms) @ [Err EndOfStream]"
      using first evs'(2) rs'(2) by (auto simp: stream_run_append split: option.splits)
    then show ?thesis using evs(1) evs'(1) by (intro exI [of _ "evs @ evs'"]) simp
  next
    case False
    then have "e' = e1" using Cons.prems(2) r by (auto simp: Let_def split: if_splits)
    then show ?thesis using first False evs(1) by (intro exI [of _ evs]) auto
  qed
qed

subsection \<open>Properties\<close>

text \<open>
  C25. Bounded serialization is equivalent to serializing completely and checking the length
  afterwards, for every message type, also one whose serialization ignores a refusal: a body beyond
  the limit is rejected as too large without any output (or the serialization panics), another
  serialization error is reported without any output, and otherwise the frame of the complete body
  is written with one call.
\<close>

theorem write_message_equals_spec:
  "write_message to_postcard h message e = write_message_spec to_postcard h message e \<or>
   (\<exists>s. length (body_of (to_postcard message)) > MAX_MESSAGE_BODY_LEN \<and> Stop s \<in> results (to_postcard message) \<and>
      write_message to_postcard h message e = (Stop s, e))"
  using write_message_cases [of to_postcard message h e] by (auto simp: write_message_spec_def split: if_splits)

text \<open>
  C36. What reading a message reports of the bytes of a stream: the end only before a prefix,
  truncation at every later point, an excessive length without reading the body, an undecodable
  body or bytes left in it; in all cases it has read exactly the frame, or what there was of it.
\<close>

theorem read_message_reads_stream:
  assumes "read_message take_from_bytes h (start_env answers) = (r, e')" and "stream_run (trace e') left = Some rest"
  shows "(r, rest) = receive take_from_bytes left \<and>
    (r = Err EndOfStream \<longleftrightarrow> left = []) \<and>
    (\<forall>m. r = Ok m \<longrightarrow> (\<exists>body. left = frame_of body @ rest \<and> length body \<le> MAX_MESSAGE_BODY_LEN \<and>
       take_from_bytes body = Ok (m, [])))"
proof -
  obtain evs where evs: "trace e' = trace (start_env answers) @ evs"
      "\<And>left rest. stream_run evs left = Some rest \<Longrightarrow> receive take_from_bytes left = (r, rest)"
    by (rule read_message_receives [OF assms(1)]) (rule that)
  then have r: "receive take_from_bytes left = (r, rest)" using assms(2) by (simp add: start_env_def)
  have "\<exists>body. left = frame_of body @ rest \<and> length body \<le> MAX_MESSAGE_BODY_LEN \<and> take_from_bytes body = Ok (m, [])"
    if "r = Ok m" for m
  proof -
    let ?n = "from_le_bytes32 (take 4 left)"
    have p: "\<not> length left < 4" "unat ?n \<le> MAX_MESSAGE_BODY_LEN" "\<not> length (drop 4 left) < unat ?n"
        "rest = drop (unat ?n) (drop 4 left)" "take_from_bytes (take (unat ?n) (drop 4 left)) = Ok (m, [])"
      using r that by (auto simp: receive_def Let_def layout split: if_splits outcome.splits)
    have "left = take 4 left @ take (unat ?n) (drop 4 left) @ rest"
      unfolding p(4) by (simp only: append_take_drop_id)
    moreover have "to_le_bytes32 ?n = take 4 left" using p(1) by (intro le32.enc_dec) simp
    moreover have "of_nat (length (take (unat ?n) (drop 4 left))) = ?n" using p(3) by simp
    ultimately show ?thesis using p by (intro exI [of _ "take (unat ?n) (drop 4 left)"]) (simp add: frame_of_def)
  qed
  then show ?thesis using r by (auto simp: receive_def Let_def split: if_splits outcome.splits)
qed

text \<open>
  C24. Messages survive the transport: if all messages of a list are sent, then reading from a
  stream that carries what the destination accepted, in chunks of any size, gives these messages in
  order and then the end of the stream. The decoder is assumed to read back what the encoder wrote.
\<close>

theorem messages_round_trip:
  assumes "\<And>m. take_from_bytes (body_of (to_postcard m)) = Ok (m, [])"
    and "send_messages to_postcard w messages (start_env answers) = (Ok (), e1)"
    and "receive_messages take_from_bytes h (Suc (length messages)) (start_env answers') = (got, e2)"
    and "stream_run (trace e2) (accepted w (trace e1)) \<noteq> None"
  shows "got = map Ok messages @ [Err EndOfStream]"
  using send_messages_accepted [OF assms(2)] receive_messages_frames [OF assms(1) _ assms(3)] assms(4)
  by (auto simp: start_env_def)

text \<open>
  Runs with messages that are byte strings, encoded as they are; one is sent in two pushes.
\<close>

definition example_to_postcard :: "bytes \<Rightarrow> serialization" where
  "example_to_postcard bs =
     Extend (take 1 bs) (Extend (drop 1 bs) (Return (Ok ())) (Return (Err SerializeBufferFull)))
       (Return (Err SerializeBufferFull))"

definition example_from_postcard :: "bytes \<Rightarrow> (bytes \<times> bytes, postcard_error) outcome" where
  "example_from_postcard bs = Ok (bs, [])"

definition example_stream_answers :: "nat answer list" where
  "example_stream_answers =
     [Ready (Bytes [2]), Ready (Bytes [0, 0, 0]), Ready (Bytes [7, 8]), Ready (Bytes [0]),
      Ready (Bytes [0, 0, 0]), Ready (Bytes []), Ready (Bytes [])]"

lemma example_prefixes:
  "to_le_bytes32 2 = [2, 0, 0, 0]" "to_le_bytes32 0 = [0, 0, 0, 0]"
  "from_le_bytes32 [2, 0, 0, 0] = 2" "from_le_bytes32 [0, 0, 0, 0] = 0"
  by code_simp+

lemma example_sent:
  "send_messages example_to_postcard (2 :: nat) [[7, 8], []] (start_env [Ready Unit, Ready Unit]) =
   (Ok (), \<lparr>script = [], trace = [(WriteAll 2 [2, 0, 0, 0, 7, 8], Ready Unit), (WriteAll 2 [0, 0, 0, 0], Ready Unit)]\<rparr>)"
  by (simp add: write_message_def serialize_with_flavor_def finalize_frame_def example_to_postcard_def try_extend_def
      layout Let_def typed_call_def start_env_def example_prefixes)

lemma example_received:
  "receive_messages example_from_postcard (3 :: nat) (Suc (length [[7, 8], [] :: bytes])) (start_env example_stream_answers) =
   ([Ok [7, 8], Ok [], Err EndOfStream], \<lparr>script = [], trace =
     [(Read 3 1, Ready (Bytes [2])), (ReadExact 3 3, Ready (Bytes [0, 0, 0])), (ReadExact 3 2, Ready (Bytes [7, 8])),
      (Read 3 1, Ready (Bytes [0])), (ReadExact 3 3, Ready (Bytes [0, 0, 0])), (ReadExact 3 0, Ready (Bytes [])),
      (Read 3 1, Ready (Bytes []))]\<rparr>)"
  by (simp add: read_message_def example_stream_answers_def example_from_postcard_def layout Let_def typed_call_def
      start_env_def example_prefixes)

lemma example_stream:
  "stream_run [(Read (3 :: nat) 1, Ready (Bytes [2])), (ReadExact 3 3, Ready (Bytes [0, 0, 0])), (ReadExact 3 2, Ready (Bytes [7, 8])),
      (Read 3 1, Ready (Bytes [0])), (ReadExact 3 3, Ready (Bytes [0, 0, 0])), (ReadExact 3 0, Ready (Bytes [])),
      (Read 3 1, Ready (Bytes []))]
     (accepted 2 [(WriteAll 2 [2, 0, 0, 0, 7, 8], Ready Unit), (WriteAll (2 :: nat) [0, 0, 0, 0], Ready Unit)]) = Some []"
  by (simp add: accepted_def)

theorem messages_round_trip_witness:
  "\<exists>e1 e2. send_messages example_to_postcard (2 :: nat) [[7, 8], []] (start_env [Ready Unit, Ready Unit]) = (Ok (), e1) \<and>
    receive_messages example_from_postcard (3 :: nat) (Suc (length [[7, 8], [] :: bytes])) (start_env example_stream_answers) =
      (map Ok [[7, 8], []] @ [Err EndOfStream], e2) \<and>
    stream_run (trace e2) (accepted 2 (trace e1)) = Some []"
proof -
  have codec: "example_from_postcard (body_of (example_to_postcard m)) = Ok (m, [])" for m
    by (cases m) (simp_all add: example_from_postcard_def example_to_postcard_def)
  have "stream_run (trace (snd (receive_messages example_from_postcard (3 :: nat) (Suc (length [[7, 8], [] :: bytes]))
        (start_env example_stream_answers))))
      (accepted 2 (trace (snd (send_messages example_to_postcard (2 :: nat) [[7, 8], []] (start_env [Ready Unit, Ready Unit]))))) =
    Some []"
    unfolding example_received example_sent snd_conv env.select_convs by (rule example_stream)
  note left = this [unfolded example_received example_sent snd_conv]
  have "stream_run (trace e2) (accepted 2 (trace e1)) \<noteq> None" if "stream_run (trace e2) (accepted 2 (trace e1)) = Some []"
    for e1 e2 :: "nat env" using that by simp
  from messages_round_trip [OF codec example_sent example_received this [OF left]] left example_sent example_received
  show ?thesis by metis
qed

theorem read_message_reads_stream_witness:
  "\<exists>e'. read_message example_from_postcard (3 :: nat) (start_env (take 3 example_stream_answers)) = (Ok [7, 8], e') \<and>
   stream_run (trace e') [2, 0, 0, 0, 7, 8, 9] = Some [9] \<and>
   (\<exists>body. [2, 0, 0, 0, 7, 8, 9] = frame_of body @ [9] \<and> length body \<le> MAX_MESSAGE_BODY_LEN)"
proof -
  let ?e = "\<lparr>script = [], trace =
     [(Read 3 1, Ready (Bytes [2])), (ReadExact 3 3, Ready (Bytes [0, 0, 0])), (ReadExact 3 2, Ready (Bytes [7, 8]))]\<rparr>"
  have run: "read_message example_from_postcard (3 :: nat) (start_env (take 3 example_stream_answers)) = (Ok [7, 8], ?e)"
    by (simp add: read_message_def example_stream_answers_def example_from_postcard_def layout Let_def typed_call_def
      start_env_def example_prefixes)
  have left: "stream_run (trace ?e) [2, 0, 0, 0, 7, 8, 9] = Some [9]" by simp
  from read_message_reads_stream [OF run left] run left show ?thesis by blast
qed

end
