(* ===== verification/ObjectPool.thy ===== *)
theory ObjectPool
  imports Prelude Runs "HOL-Library.Multiset"
begin

text \<open>
  The library \<^verbatim>\<open>lib/object-pool\<close>: owned objects kept for reuse. The vector of available objects is a
  list whose last element is its top. Objects are values here; what their destructors do is not
  modelled.
\<close>

subsection \<open>The pool\<close>

record 'a ObjectPool =
  available :: "'a list"
  min_available :: nat

definition ObjectPool_new :: "'a ObjectPool" where
  "ObjectPool_new = \<lparr>available = [], min_available = 0\<rparr>"

definition pool_len :: "'a ObjectPool \<Rightarrow> nat" where
  "pool_len self = length (available self)"

definition pool_is_empty :: "'a ObjectPool \<Rightarrow> bool" where
  "pool_is_empty self \<longleftrightarrow> pool_len self = 0"

definition try_take :: "'a ObjectPool \<Rightarrow> 'a option \<times> 'a ObjectPool" where
  "try_take self =
     (let (object, objects) =
        (case available self of [] \<Rightarrow> (None, []) | _ \<Rightarrow> (Some (last (available self)), butlast (available self))) in
      (object, \<lparr>available = objects, min_available = min (min_available self) (length objects)\<rparr>))"

text \<open>
  The fallback is a closure: it may change what it has captured, of type \<open>'s\<close>, and may panic.
\<close>

definition take_or_else ::
    "('s \<Rightarrow> ('a, unit) outcome \<times> 's) \<Rightarrow> 'a ObjectPool \<Rightarrow> 's \<Rightarrow> ('a, unit) outcome \<times> 'a ObjectPool \<times> 's" where
  "take_or_else create self captured =
     (case try_take self of
        (Some object, self) \<Rightarrow> (Ok object, self, captured)
      | (None, self) \<Rightarrow> (case create captured of (r, captured) \<Rightarrow> (r, self, captured)))"

definition put :: "'a \<Rightarrow> 'a ObjectPool \<Rightarrow> 'a ObjectPool" where
  "put object self = self\<lparr>available := available self @ [object]\<rparr>"

text \<open>The panic is the underflow of the subtraction.\<close>

definition reclaim_unused :: "'a ObjectPool \<Rightarrow> (nat, unit) outcome \<times> 'a ObjectPool" where
  "reclaim_unused self =
     (let remove = min_available self in
      if length (available self) < remove then (Stop Panic, self)
      else
        (let retain = length (available self) - remove in
         (Ok remove, \<lparr>available = take retain (available self), min_available = retain\<rparr>)))"

subsection \<open>Runs of an owner\<close>

datatype 'a pool_op = TryTake | TakeOrElse 'a | Put 'a | Reclaim

datatype 'a pool_reply = Taken "'a option" | Done | Reclaimed nat | Panicked

definition pool_step :: "'a pool_op \<Rightarrow> 'a ObjectPool \<Rightarrow> 'a pool_reply \<times> 'a ObjectPool" where
  "pool_step operation self =
     (case operation of
        TryTake \<Rightarrow> (case try_take self of (object, self) \<Rightarrow> (Taken object, self))
      | TakeOrElse fresh \<Rightarrow>
          (case take_or_else (\<lambda>_. (Ok fresh, ())) self () of
             (Ok object, self, _) \<Rightarrow> (Taken (Some object), self)
           | (_, self, _) \<Rightarrow> (Panicked, self))
      | Put object \<Rightarrow> (Done, put object self)
      | Reclaim \<Rightarrow>
          (case reclaim_unused self of
             (Ok n, self) \<Rightarrow> (Reclaimed n, self)
           | (_, self) \<Rightarrow> (Panicked, self)))"

definition pool_run :: "'a pool_op list \<Rightarrow> 'a ObjectPool \<Rightarrow> 'a pool_reply list \<times> 'a ObjectPool" where
  "pool_run operations self = reply_run pool_step operations self"

subsection \<open>Specification\<close>

text \<open>
  A stack of objects, with the number of available objects at every moment since the last
  reclamation. A reclamation discards as many objects as have been available all the time.
\<close>

type_synonym 'a pool_spec = "'a list \<times> nat list"

definition unused :: "nat list \<Rightarrow> nat" where
  "unused counts = Min (set counts)"

fun spec_step :: "'a pool_op \<Rightarrow> 'a pool_spec \<Rightarrow> 'a pool_reply \<times> 'a pool_spec" where
  "spec_step TryTake (stack, counts) =
     (Taken (if stack = [] then None else Some (last stack)),
      (butlast stack, counts @ [length (butlast stack)]))"
| "spec_step (TakeOrElse fresh) (stack, counts) =
     (Taken (Some (if stack = [] then fresh else last stack)),
      (butlast stack, counts @ [length (butlast stack)]))"
| "spec_step (Put object) (stack, counts) = (Done, (stack @ [object], counts @ [Suc (length stack)]))"
| "spec_step Reclaim (stack, counts) =
     (let retained = take (length stack - unused counts) stack in
      (Reclaimed (unused counts), (retained, [length retained])))"

definition spec_run :: "'a pool_op list \<Rightarrow> 'a pool_spec \<Rightarrow> 'a pool_reply list \<times> 'a pool_spec" where
  "spec_run operations s = reply_run spec_step operations s"

text \<open>The abstraction of a specification state, and its invariant: the last count is the current one.\<close>

fun pool_of :: "'a pool_spec \<Rightarrow> 'a ObjectPool" where
  "pool_of (stack, counts) = \<lparr>available = stack, min_available = unused counts\<rparr>"

fun spec_ok :: "'a pool_spec \<Rightarrow> bool" where
  "spec_ok (stack, counts) \<longleftrightarrow> counts \<noteq> [] \<and> last counts = length stack"

lemma unused_snoc: "counts \<noteq> [] \<Longrightarrow> unused (counts @ [n]) = min (unused counts) n"
  by (simp add: unused_def min.commute)

lemma unused_le: "spec_ok (stack, counts) \<Longrightarrow> unused counts \<le> length stack"
  by (metis Min_le finite_set last_in_set spec_ok.simps unused_def)

lemma try_take_eq:
  "try_take self = (if available self = [] then None else Some (last (available self)),
     \<lparr>available = butlast (available self), min_available = min (min_available self) (length (butlast (available self)))\<rparr>)"
  by (auto simp: try_take_def split: list.splits)

lemma unused_single [simp]: "unused [n] = n"
  by (simp add: unused_def)

lemma pool_step_refines:
  assumes "spec_ok s" and "spec_step operation s = (reply, s')"
  shows "pool_step operation (pool_of s) = (reply, pool_of s') \<and> spec_ok s' \<and> reply \<noteq> Panicked"
proof -
  obtain stack counts where s: "s = (stack, counts)" by fastforce
  have counts: "counts \<noteq> []" "last counts = length stack" "unused counts \<le> length stack"
    using assms(1) unused_le [of stack counts] by (simp_all add: s)
  show ?thesis using assms(2) counts
    by (cases operation)
       (auto simp: s pool_step_def try_take_eq take_or_else_def put_def reclaim_unused_def Let_def unused_snoc)
qed

interpretation pool: run_refinement spec_step pool_step pool_of spec_ok "\<lambda>reply. reply \<noteq> Panicked"
  by unfold_locales (rule pool_step_refines)

lemma pool_run_refines:
  "spec_ok s \<Longrightarrow> spec_run operations s = (replies, s') \<Longrightarrow>
     pool_run operations (pool_of s) = (replies, pool_of s') \<and> spec_ok s' \<and> Panicked \<notin> set replies"
  using pool.run_refines [of s operations replies s']
  by (auto simp: pool_run_def spec_run_def list_all_iff)

text \<open>The objects that enter a pool during a run, and those its replies hand out or discard.\<close>

fun entering :: "'a pool_op \<Rightarrow> 'a ObjectPool \<Rightarrow> 'a multiset" where
  "entering (Put object) self = {#object#}"
| "entering (TakeOrElse fresh) self = (if pool_is_empty self then {#fresh#} else {#})"
| "entering _ self = {#}"

primrec entered :: "'a pool_op list \<Rightarrow> 'a ObjectPool \<Rightarrow> 'a multiset" where
  "entered [] self = {#}"
| "entered (operation # operations) self =
     entering operation self + entered operations (snd (pool_step operation self))"

fun handed_out :: "'a pool_reply \<Rightarrow> 'a multiset" where
  "handed_out (Taken (Some object)) = {#object#}"
| "handed_out _ = {#}"

fun discards :: "'a pool_reply \<Rightarrow> nat" where
  "discards (Reclaimed n) = n"
| "discards _ = 0"

lemma mset_butlast: "xs \<noteq> [] \<Longrightarrow> mset (butlast xs) + {#last xs#} = mset xs"
  by (metis append_butlast_last_id mset.simps(1) mset.simps(2) mset_append add_mset_add_single)

lemma pool_step_conserves:
  assumes "pool_step operation self = (reply, self')" and "reply \<noteq> Panicked"
  shows "\<exists>gone. mset (available self) + entering operation self = mset (available self') + handed_out reply + gone \<and>
    size gone = discards reply"
proof (cases operation)
  case Reclaim
  then have "available self' = take (length (available self) - min_available self) (available self)"
      "reply = Reclaimed (min_available self)" "min_available self \<le> length (available self)"
    using assms by (auto simp: pool_step_def reclaim_unused_def Let_def split: if_splits)
  moreover have "mset (available self) = mset (take n (available self)) + mset (drop n (available self))" for n
    by (metis append_take_drop_id mset_append)
  ultimately show ?thesis using Reclaim
    by (intro exI [of _ "mset (drop (length (available self) - min_available self) (available self))"]) simp
qed (use assms mset_butlast [of "available self"] in
      \<open>auto simp: pool_step_def try_take_eq take_or_else_def put_def pool_is_empty_def pool_len_def\<close>)

lemma pool_run_conserves:
  "pool_run operations self = (replies, self') \<Longrightarrow> Panicked \<notin> set replies \<Longrightarrow>
     \<exists>gone. mset (available self) + entered operations self =
         mset (available self') + (\<Sum>reply\<leftarrow>replies. handed_out reply) + gone \<and>
       size gone = sum_list (map discards replies)"
  unfolding pool_run_def
proof (induction operations arbitrary: self replies)
  case (Cons operation operations)
  obtain reply self1 where step: "pool_step operation self = (reply, self1)" by fastforce
  obtain replies1 where run: "reply_run pool_step operations self1 = (replies1, self')" "replies = reply # replies1"
    using Cons.prems(1) step by (auto split: prod.splits)
  have ok: "reply \<noteq> Panicked" "Panicked \<notin> set replies1" using Cons.prems(2) run(2) by auto
  obtain gone1 gone where g: "mset (available self) + entering operation self = mset (available self1) + handed_out reply + gone1"
      "size gone1 = discards reply"
      "mset (available self1) + entered operations self1 =
         mset (available self') + (\<Sum>reply\<leftarrow>replies1. handed_out reply) + gone"
      "size gone = sum_list (map discards replies1)"
    using pool_step_conserves [OF step ok(1)] Cons.IH [OF run(1) ok(2)] by blast
  have "mset (available self) + entered (operation # operations) self =
      (mset (available self) + entering operation self) + entered operations self1"
    by (simp add: step add.assoc)
  also have "\<dots> = (mset (available self1) + entered operations self1) + handed_out reply + gone1"
    unfolding g(1) by (simp add: ac_simps)
  also have "\<dots> = mset (available self') + (\<Sum>reply\<leftarrow>replies. handed_out reply) + (gone1 + gone)"
    unfolding g(3) by (simp add: run(2) ac_simps)
  finally show ?case using g(2,4) run(2) by (intro exI [of _ "gone1 + gone"]) simp
qed simp

subsection \<open>Properties\<close>

text \<open>
  C27. The pool refines a specification that remembers the number of available objects at every
  moment: for every sequence of operations on a new pool the replies are the same, so objects come
  back last in first out and a reclamation discards exactly as many objects as were available all
  the time since the previous one. No operation panics.
\<close>

theorem pool_refines_spec:
  "case spec_run operations ([], [0]) of (replies, s) \<Rightarrow>
     pool_run operations ObjectPool_new = (replies, pool_of s) \<and> Panicked \<notin> set replies"
  using pool_run_refines [of "([], [0])" operations] by (auto simp: ObjectPool_new_def split: prod.splits)

text \<open>
  No object is lost or duplicated: after every sequence of operations on a new pool, the objects
  that entered it are those that are available, those handed out and those discarded, and as many
  were discarded as the reclamations report.
\<close>

theorem pool_conserves_objects:
  "case pool_run operations ObjectPool_new of (replies, self) \<Rightarrow>
     \<exists>gone. entered operations ObjectPool_new =
         mset (available self) + (\<Sum>reply\<leftarrow>replies. handed_out reply) + gone \<and>
       size gone = sum_list (map discards replies)"
proof -
  obtain replies self where run: "pool_run operations (ObjectPool_new :: 'a ObjectPool) = (replies, self)" by fastforce
  have "Panicked \<notin> set replies"
    using pool_run_refines [of "([] :: 'a list, [0])" operations] run
    by (cases "spec_run operations ([] :: 'a list, [0])") (auto simp: ObjectPool_new_def)
  from pool_run_conserves [OF run this] show ?thesis by (simp add: run) (simp add: ObjectPool_new_def)
qed

end
