(* ===== verification/Clustering.thy ===== *)
theory Clustering
  imports StoragePaths
begin

text \<open>
  \<^verbatim>\<open>clustering/configuration\<close> and \<^verbatim>\<open>configuration\<close>: the raw startup inputs and their conversion into a
  validated deployment configuration. A Rust string is the list of its UTF-8 bytes. The parts of the
  standard library it needs, \<^verbatim>\<open>str::trim\<close>, \<^verbatim>\<open>str::split\<close> and the parser of IP addresses, are modelled
  here too.
\<close>

subsection \<open>Strings\<close>

text \<open>The characters with the Unicode property White\_Space, encoded in UTF-8.\<close>

definition WHITE_SPACE :: "string list" where
  "WHITE_SPACE =
     map (\<lambda>n. [char_of n]) [0x09 :: nat, 0x0A, 0x0B, 0x0C, 0x0D, 0x20] @
     [[CHR 0xC2, CHR 0x85], [CHR 0xC2, CHR 0xA0], [CHR 0xE1, CHR 0x9A, CHR 0x80]] @
     map (\<lambda>n. [CHR 0xE2, CHR 0x80, char_of n])
       [0x80 :: nat, 0x81, 0x82, 0x83, 0x84, 0x85, 0x86, 0x87, 0x88, 0x89, 0x8A, 0xA8, 0xA9, 0xAF] @
     [[CHR 0xE2, CHR 0x81, CHR 0x9F], [CHR 0xE3, CHR 0x80, CHR 0x80]]"

function trim_start :: "string \<Rightarrow> string" where
  "trim_start s =
     (case find (\<lambda>w. prefix w s) WHITE_SPACE of None \<Rightarrow> s | Some w \<Rightarrow> trim_start (drop (length w) s))"
  by pat_completeness auto

function trim_end :: "string \<Rightarrow> string" where
  "trim_end s =
     (case find (\<lambda>w. suffix w s) WHITE_SPACE of None \<Rightarrow> s | Some w \<Rightarrow> trim_end (take (length s - length w) s))"
  by pat_completeness auto

lemma white_space_not_empty: "w \<in> set WHITE_SPACE \<Longrightarrow> 0 < length w"
  by (auto simp: WHITE_SPACE_def)

termination trim_start
proof (relation "measure length")
  fix s w
  assume "find (\<lambda>w. prefix w s) WHITE_SPACE = Some w"
  then have "prefix w s" "w \<in> set WHITE_SPACE" by (auto simp: find_Some_iff)
  then show "(drop (length w) s, s) \<in> measure length"
    using white_space_not_empty [of w] prefix_length_le [of w s] by (cases w) simp_all
qed simp

termination trim_end
proof (relation "measure length")
  fix s w
  assume "find (\<lambda>w. suffix w s) WHITE_SPACE = Some w"
  then have "suffix w s" "w \<in> set WHITE_SPACE" by (auto simp: find_Some_iff)
  then show "(take (length s - length w) s, s) \<in> measure length"
    using white_space_not_empty [of w] suffix_length_le [of w s] by (cases w) simp_all
qed simp

declare trim_start.simps [simp del] trim_end.simps [simp del]

definition trim :: "string \<Rightarrow> string" where
  "trim s = trim_end (trim_start s)"

primrec split_dots :: "string \<Rightarrow> string list" where
  "split_dots [] = [[]]"
| "split_dots (c # s) =
     (if c = CHR ''.'' then [] # split_dots s
      else (case split_dots s of [] \<Rightarrow> [[c]] | label # labels \<Rightarrow> (c # label) # labels))"

definition is_ascii_alphanumeric :: "char \<Rightarrow> bool" where
  "is_ascii_alphanumeric c \<longleftrightarrow>
     (let n = of_char c :: nat in 48 \<le> n \<and> n \<le> 57 \<or> 65 \<le> n \<and> n \<le> 90 \<or> 97 \<le> n \<and> n \<le> 122)"

definition ascii_lowercase :: "char \<Rightarrow> char" where
  "ascii_lowercase c = (let n = of_char c :: nat in if 65 \<le> n \<and> n \<le> 90 then char_of (n + 32) else c)"

text \<open>\<^verbatim>\<open>Iterator::position\<close>.\<close>

primrec position :: "('a \<Rightarrow> bool) \<Rightarrow> 'a list \<Rightarrow> nat option" where
  "position p [] = None"
| "position p (x # xs) = (if p x then Some 0 else map_option Suc (position p xs))"

subsection \<open>IP addresses\<close>

text \<open>
  \<^verbatim>\<open>IpAddr::from_str\<close> of the standard library, as a recognizer: every reader returns what it leaves of
  its input. The value of a group matters only for the range of an IPv4 octet.
\<close>

definition hex_value :: "char \<Rightarrow> nat option" where
  "hex_value c =
     (let n = of_char c :: nat in
      if 48 \<le> n \<and> n \<le> 57 then Some (n - 48)
      else if 97 \<le> n \<and> n \<le> 102 then Some (n - 87)
      else if 65 \<le> n \<and> n \<le> 70 then Some (n - 55) else None)"

definition digit_of :: "nat \<Rightarrow> char \<Rightarrow> nat option" where
  "digit_of radix c = (case hex_value c of None \<Rightarrow> None | Some d \<Rightarrow> if d < radix then Some d else None)"

definition read_number :: "nat \<Rightarrow> nat \<Rightarrow> bool \<Rightarrow> nat \<Rightarrow> string \<Rightarrow> string option" where
  "read_number radix max_digits allow_zero_prefix max_value s =
     (let digits = takeWhile (\<lambda>c. digit_of radix c \<noteq> None) s;
          result = foldl (\<lambda>n c. n * radix + the (digit_of radix c)) 0 digits in
      if length digits > max_digits then None
      else if digits = [] then None
      else if \<not> allow_zero_prefix \<and> hd digits = CHR ''0'' \<and> length digits > 1 then None
      else if result > max_value then None
      else Some (drop (length digits) s))"

definition read_given_char :: "char \<Rightarrow> string \<Rightarrow> string option" where
  "read_given_char c s = (case s of [] \<Rightarrow> None | x # xs \<Rightarrow> if x = c then Some xs else None)"

definition read_separator :: "char \<Rightarrow> nat \<Rightarrow> (string \<Rightarrow> string option) \<Rightarrow> string \<Rightarrow> string option" where
  "read_separator sep index inner s =
     (if index > 0 then Option.bind (read_given_char sep s) inner else inner s)"

definition read_octet :: "nat \<Rightarrow> string \<Rightarrow> string option" where
  "read_octet index = read_separator (CHR ''.'') index (read_number 10 3 False 255)"

definition read_ipv4 :: "string \<Rightarrow> string option" where
  "read_ipv4 s =
     Option.bind (Option.bind (Option.bind (read_octet 0 s) (read_octet 1)) (read_octet 2)) (read_octet 3)"

text \<open>The number of groups read, and whether the last two of them are an IPv4 address.\<close>

function read_groups :: "nat \<Rightarrow> nat \<Rightarrow> string \<Rightarrow> (nat \<times> bool) \<times> string" where
  "read_groups limit i s =
     (if limit \<le> i then ((limit, False), s)
      else
        (case (if i < limit - 1 then read_separator (CHR '':'') i read_ipv4 s else None) of
           Some s \<Rightarrow> ((i + 2, True), s)
         | None \<Rightarrow>
             (case read_separator (CHR '':'') i (read_number 16 4 True 65535) s of
                Some s \<Rightarrow> read_groups limit (i + 1) s
              | None \<Rightarrow> ((i, False), s))))"
  by pat_completeness auto
termination
  by (relation "measure (\<lambda>(limit, i, s). limit - i)") auto

declare read_groups.simps [simp del]

definition read_ipv6 :: "string \<Rightarrow> string option" where
  "read_ipv6 s =
     (case read_groups 8 0 s of
        ((head_size, head_ipv4), s) \<Rightarrow>
          if head_size = 8 then Some s
          else if head_ipv4 then None
          else
            (case Option.bind (read_given_char (CHR '':'') s) (read_given_char (CHR '':'')) of
               None \<Rightarrow> None
             | Some s \<Rightarrow> Some (snd (read_groups (8 - (head_size + 1)) 0 s))))"

definition is_ip_addr :: "string \<Rightarrow> bool" where
  "is_ip_addr s =
     ((case read_ipv4 s of Some rest \<Rightarrow> Some rest | None \<Rightarrow> read_ipv6 s) = Some [])"

subsection \<open>Hostnames\<close>

datatype HostnameErrorKind =
    Empty
  | TooLong
  | IpLiteral
  | EmptyLabel nat
  | LabelTooLong nat
  | InvalidCharacter nat
  | InvalidBoundary nat

record HostnameError =
  he_name :: string
  he_kind :: HostnameErrorKind

definition HostnameError_new :: "string \<Rightarrow> HostnameErrorKind \<Rightarrow> HostnameError" where
  "HostnameError_new name kind = \<lparr>he_name = name, he_kind = kind\<rparr>"

record Hostname =
  hn_name :: string

definition MAX_NAME_LENGTH :: nat where
  "MAX_NAME_LENGTH = 253"

definition MAX_LABEL_LENGTH :: nat where
  "MAX_LABEL_LENGTH = 63"

fun check_labels :: "nat \<Rightarrow> nat \<Rightarrow> string list \<Rightarrow> (unit, HostnameErrorKind) outcome" where
  "check_labels label_index label_start [] = Ok ()"
| "check_labels label_index label_start (label # labels) =
     (if label = [] then Err (EmptyLabel label_index)
      else if length label > MAX_LABEL_LENGTH then Err (LabelTooLong label_index)
      else
        (case position (\<lambda>b. \<not> is_ascii_alphanumeric b \<and> b \<noteq> CHR ''-'') label of
           Some offset \<Rightarrow> Err (InvalidCharacter (label_start + offset))
         | None \<Rightarrow>
             if \<not> is_ascii_alphanumeric (hd label) \<or> \<not> is_ascii_alphanumeric (last label)
             then Err (InvalidBoundary label_index)
             else check_labels (label_index + 1) (label_start + (length label + 1)) labels))"

definition Hostname_parse :: "string \<Rightarrow> (Hostname, HostnameError) outcome" where
  "Hostname_parse name =
     (let trimmed = trim name in
      if trimmed = [] then Err (HostnameError_new name Empty)
      else
        (let labels = (case strip_suffix trimmed ''.'' of Some labels \<Rightarrow> labels | None \<Rightarrow> trimmed) in
         if length labels > MAX_NAME_LENGTH then Err (HostnameError_new name TooLong)
         else if is_ip_addr labels then Err (HostnameError_new name IpLiteral)
         else
           (case check_labels 0 0 (split_dots labels) of
              Err kind \<Rightarrow> Err (HostnameError_new name kind)
            | Stop s \<Rightarrow> Stop s
            | Ok _ \<Rightarrow>
                (let name = (if length trimmed = length name then name else trimmed) in
                 Ok \<lparr>hn_name = map ascii_lowercase name\<rparr>))))"

subsection \<open>Nodes and configurations\<close>

datatype NodeName = Master | Replica1 | Replica2

datatype ClusteringConfigurationError =
    InvalidMode string
  | InvalidNodeName string
  | MissingField string
  | UnexpectedField string
  | ConfigurationHostname HostnameError

definition NodeName_parse :: "string \<Rightarrow> (NodeName, ClusteringConfigurationError) outcome" where
  "NodeName_parse value =
     (if trim value = ''master'' then Ok Master
      else if trim value = ''replica-1'' then Ok Replica1
      else if trim value = ''replica-2'' then Ok Replica2
      else Err (InvalidNodeName value))"

fun NodeName_name :: "NodeName \<Rightarrow> string" where
  "NodeName_name Master = ''master''"
| "NodeName_name Replica1 = ''replica-1''"
| "NodeName_name Replica2 = ''replica-2''"

record ClusterMembership =
  my_node_name :: NodeName
  cluster_domain :: Hostname

definition ClusterMembership_new :: "NodeName \<Rightarrow> Hostname \<Rightarrow> ClusterMembership" where
  "ClusterMembership_new node domain = \<lparr>my_node_name = node, cluster_domain = domain\<rparr>"

definition is_master :: "ClusterMembership \<Rightarrow> bool" where
  "is_master self \<longleftrightarrow> my_node_name self = Master"

definition node_hostname :: "ClusterMembership \<Rightarrow> NodeName \<Rightarrow> string" where
  "node_hostname self node = NodeName_name node @ ''.'' @ hn_name (cluster_domain self)"

record RawClusterConfiguration =
  raw_my_node_name :: string
  raw_cluster_domain :: string

record RawClusteringConfiguration =
  raw_mode :: string
  raw_cluster :: "RawClusterConfiguration option"

record RawApplicationConfiguration =
  raw_storage_directory :: path
  raw_clustering :: RawClusteringConfiguration

datatype ClusteringConfiguration = Single | Cluster ClusterMembership

definition ClusteringConfiguration_try_from ::
    "RawClusteringConfiguration \<Rightarrow> (ClusteringConfiguration, ClusteringConfigurationError) outcome" where
  "ClusteringConfiguration_try_from raw =
     (if trim (raw_mode raw) = ''single'' then
        (if raw_cluster raw \<noteq> None then Err (UnexpectedField ''cluster'') else Ok Single)
      else if trim (raw_mode raw) = ''cluster'' then
        (case raw_cluster raw of
           None \<Rightarrow> Err (MissingField ''cluster'')
         | Some cluster \<Rightarrow>
             (case NodeName_parse (raw_my_node_name cluster) of
                Err x \<Rightarrow> Err x
              | Stop s \<Rightarrow> Stop s
              | Ok node \<Rightarrow>
                  (case Hostname_parse (raw_cluster_domain cluster) of
                     Err x \<Rightarrow> Err (ConfigurationHostname x)
                   | Stop s \<Rightarrow> Stop s
                   | Ok domain \<Rightarrow> Ok (Cluster (ClusterMembership_new node domain)))))
      else Err (InvalidMode (raw_mode raw)))"

text \<open>
  \<^verbatim>\<open>main\<close>, with the version of the package and what the command line parser returned as arguments: the
  line it prints, or the error it ends with.
\<close>

definition service_main ::
    "string \<Rightarrow> RawApplicationConfiguration \<Rightarrow> (string, ClusteringConfigurationError) outcome" where
  "service_main version raw =
     (case ClusteringConfiguration_try_from (raw_clustering raw) of
        Ok _ \<Rightarrow> Ok (''Transaction Log v'' @ version)
      | Err x \<Rightarrow> Err x
      | Stop s \<Rightarrow> Stop s)"

text \<open>The identifier of a cluster is a \<^verbatim>\<open>Uuid\<close>, a type of another crate.\<close>

record 'uuid EstablishedClusteringConfiguration =
  cluster_id :: 'uuid
  clustering_configuration :: ClusteringConfiguration

definition EstablishedClusteringConfiguration_new ::
    "'uuid \<Rightarrow> ClusteringConfiguration \<Rightarrow> 'uuid EstablishedClusteringConfiguration" where
  "EstablishedClusteringConfiguration_new cluster configuration =
     \<lparr>cluster_id = cluster, clustering_configuration = configuration\<rparr>"

subsection \<open>Labels\<close>

fun dotted :: "string list \<Rightarrow> string" where
  "dotted [] = []"
| "dotted [label] = label"
| "dotted (label # labels) = label @ CHR ''.'' # dotted labels"

definition hostname_char :: "char \<Rightarrow> bool" where
  "hostname_char c \<longleftrightarrow> is_ascii_alphanumeric c \<or> c = CHR ''-''"

definition valid_label :: "string \<Rightarrow> bool" where
  "valid_label label \<longleftrightarrow> label \<noteq> [] \<and> length label \<le> MAX_LABEL_LENGTH \<and> list_all hostname_char label \<and>
     is_ascii_alphanumeric (hd label) \<and> is_ascii_alphanumeric (last label)"

lemma special_chars [simp]:
  "\<not> is_ascii_alphanumeric (CHR ''.'')" "\<not> is_ascii_alphanumeric (CHR ''-'')" "\<not> is_ascii_alphanumeric (CHR '':'')"
  "\<not> hostname_char (CHR ''.'')" "\<not> hostname_char (CHR '':'')" "hostname_char (CHR ''-'')"
  by (simp_all add: is_ascii_alphanumeric_def hostname_char_def Let_def)

lemma split_dots_not_Nil [simp]: "split_dots s \<noteq> []"
  by (induction s) (auto split: list.splits)

lemma dotted_Cons: "labels \<noteq> [] \<Longrightarrow> dotted (label # labels) = label @ CHR ''.'' # dotted labels"
  by (cases labels) simp_all

lemma dotted_split [simp]: "dotted (split_dots s) = s"
proof (induction s)
  case (Cons c s)
  obtain label labels where "split_dots s = label # labels" by (cases "split_dots s") simp_all
  then show ?case using Cons by (cases labels) simp_all
qed simp

lemma split_no_dot: "CHR ''.'' \<notin> set label \<Longrightarrow> split_dots label = [label]"
  by (induction label) auto

lemma split_dot: "CHR ''.'' \<notin> set label \<Longrightarrow> split_dots (label @ CHR ''.'' # s) = label # split_dots s"
  by (induction label) auto

lemma split_dotted: "labels \<noteq> [] \<Longrightarrow> \<forall>label\<in>set labels. CHR ''.'' \<notin> set label \<Longrightarrow> split_dots (dotted labels) = labels"
  by (induction labels rule: dotted.induct) (simp_all add: split_no_dot split_dot)

lemma split_dots_no_dot: "label \<in> set (split_dots s) \<Longrightarrow> CHR ''.'' \<notin> set label"
proof (induction s arbitrary: label)
  case (Cons c s)
  then show ?case by (cases "split_dots s") (auto split: if_splits)
qed simp

lemma valid_label_no_dot: "valid_label label \<Longrightarrow> CHR ''.'' \<notin> set label"
  unfolding valid_label_def list_all_iff using special_chars(4) by blast

lemma position_eq_None: "position p xs = None \<longleftrightarrow> (\<forall>x\<in>set xs. \<not> p x)"
  by (induction xs) auto

lemma position_eq_Some: "position p xs = Some i \<Longrightarrow> i < length xs \<and> p (xs ! i) \<and> (\<forall>j<i. \<not> p (xs ! j))"
proof (induction xs arbitrary: i)
  case (Cons x xs)
  show ?case
  proof (cases "p x")
    case False
    then obtain k where k: "position p xs = Some k" "i = Suc k" using Cons.prems by auto
    then show ?thesis using Cons.IH [OF k(1)] False by (auto simp: less_Suc_eq_0_disj)
  qed (use Cons.prems in auto)
qed simp

lemma check_labels_Ok: "check_labels i start labels = Ok u \<longleftrightarrow> (\<forall>label\<in>set labels. valid_label label)"
proof (induction labels arbitrary: i start)
  case (Cons label labels)
  have "position (\<lambda>b. \<not> is_ascii_alphanumeric b \<and> b \<noteq> CHR ''-'') label = None \<longleftrightarrow> list_all hostname_char label"
    by (auto simp: position_eq_None list_all_iff hostname_char_def)
  then show ?case using Cons by (auto simp: valid_label_def split: option.splits)
qed simp

lemma check_labels_not_Stop: "check_labels i start labels \<noteq> Stop s"
  by (induction labels arbitrary: i start) (auto split: option.splits)

lemma strip_dot: "strip_suffix s ''.'' = Some labels \<longleftrightarrow> s = labels @ ''.''"
  by (cases s rule: rev_cases) (auto simp: strip_suffix_def)

lemma strip_dot_None: "strip_suffix s ''.'' = None \<longleftrightarrow> (\<forall>labels. s \<noteq> labels @ ''.'')"
  using strip_dot [of s] by (metis not_None_eq option.distinct(1))

subsection \<open>Well-formed hostnames\<close>

definition well_formed_hostname :: "string \<Rightarrow> bool" where
  "well_formed_hostname s \<longleftrightarrow> (\<exists>labels root. s = dotted labels @ root \<and> root \<in> {[], ''.''} \<and> labels \<noteq> [] \<and>
     (\<forall>label\<in>set labels. valid_label label) \<and> length (dotted labels) \<le> MAX_NAME_LENGTH \<and>
     \<not> is_ip_addr (dotted labels))"

text \<open>The name without its root dot.\<close>

definition rootless :: "string \<Rightarrow> string" where
  "rootless s = (case strip_suffix s ''.'' of Some labels \<Rightarrow> labels | None \<Rightarrow> s)"

lemma dotted_last: "labels \<noteq> [] \<Longrightarrow> \<forall>label\<in>set labels. valid_label label \<Longrightarrow> dotted labels \<noteq> [] \<and>
    is_ascii_alphanumeric (hd (dotted labels)) \<and> is_ascii_alphanumeric (last (dotted labels))"
  by (induction labels rule: dotted.induct) (auto simp: valid_label_def)

lemma rootless_dotted:
  assumes "labels \<noteq> []" and "\<forall>label\<in>set labels. valid_label label" and "root \<in> {[], ''.''}"
  shows "rootless (dotted labels @ root) = dotted labels"
proof (cases "root = []")
  case True
  have "dotted labels \<noteq> ls @ ''.''" for ls
  proof
    assume "dotted labels = ls @ ''.''"
    then have "last (dotted labels) = CHR ''.''" by simp
    then show False using dotted_last [OF assms(1,2)] special_chars(1) by metis
  qed
  then show ?thesis using True strip_dot_None [of "dotted labels"] by (simp add: rootless_def)
next
  case False
  then show ?thesis using assms(3) strip_dot [of "dotted labels @ root" "dotted labels"] by (simp add: rootless_def)
qed

lemma well_formed_iff:
  "well_formed_hostname s \<longleftrightarrow> s \<noteq> [] \<and> (\<forall>label\<in>set (split_dots (rootless s)). valid_label label) \<and>
     length (rootless s) \<le> MAX_NAME_LENGTH \<and> \<not> is_ip_addr (rootless s)"
proof
  assume "well_formed_hostname s"
  then obtain labels root where s: "s = dotted labels @ root" "root \<in> {[], ''.''}" "labels \<noteq> []"
      "\<forall>label\<in>set labels. valid_label label" "length (dotted labels) \<le> MAX_NAME_LENGTH" "\<not> is_ip_addr (dotted labels)"
    by (auto simp: well_formed_hostname_def)
  moreover have "split_dots (dotted labels) = labels" using s(3,4) valid_label_no_dot by (intro split_dotted) auto
  ultimately show "s \<noteq> [] \<and> (\<forall>label\<in>set (split_dots (rootless s)). valid_label label) \<and>
     length (rootless s) \<le> MAX_NAME_LENGTH \<and> \<not> is_ip_addr (rootless s)"
    using rootless_dotted [OF s(3,4,2)] dotted_last [OF s(3,4)] by simp
next
  assume r: "s \<noteq> [] \<and> (\<forall>label\<in>set (split_dots (rootless s)). valid_label label) \<and>
     length (rootless s) \<le> MAX_NAME_LENGTH \<and> \<not> is_ip_addr (rootless s)"
  have "\<exists>root. s = rootless s @ root \<and> root \<in> {[], ''.''}"
  proof (cases "strip_suffix s ''.''")
    case (Some labels)
    then have "rootless s = labels" "s = labels @ ''.''" using strip_dot [of s labels] by (simp_all add: rootless_def)
    then show ?thesis by simp
  qed (simp add: rootless_def)
  then obtain root where "s = rootless s @ root" "root \<in> {[], ''.''}" by blast
  then show "well_formed_hostname s" using r unfolding well_formed_hostname_def
    by (intro exI [of _ "split_dots (rootless s)"] exI [of _ root]) simp
qed

subsection \<open>Trimming\<close>

lemma trim_start_suffix: "suffix (trim_start s) s"
proof (induction s rule: trim_start.induct)
  case (1 s)
  show ?case
  proof (cases "find (\<lambda>w. prefix w s) WHITE_SPACE")
    case (Some w)
    then have "suffix (trim_start s) (drop (length w) s)" using 1 by (simp add: trim_start.simps [of s])
    then show ?thesis using suffix_drop suffix_order.trans by blast
  qed (simp add: trim_start.simps [of s])
qed

lemma trim_end_prefix: "prefix (trim_end s) s"
proof (induction s rule: trim_end.induct)
  case (1 s)
  show ?case
  proof (cases "find (\<lambda>w. suffix w s) WHITE_SPACE")
    case (Some w)
    then have "prefix (trim_end s) (take (length s - length w) s)" using 1 by (simp add: trim_end.simps [of s])
    then show ?thesis using take_is_prefix prefix_order.trans by blast
  qed (simp add: trim_end.simps [of s])
qed

lemma same_length_eq:
  "prefix xs ys \<Longrightarrow> length xs = length ys \<Longrightarrow> xs = ys" "suffix xs ys \<Longrightarrow> length xs = length ys \<Longrightarrow> xs = ys"
  by (auto simp: prefix_def suffix_def)

lemma trim_length_eq: "length (trim s) = length s \<Longrightarrow> trim s = s"
  using same_length_eq(1) [OF trim_end_prefix [of "trim_start s"]] same_length_eq(2) [OF trim_start_suffix [of s]]
    prefix_length_le [OF trim_end_prefix [of "trim_start s"]] suffix_length_le [OF trim_start_suffix [of s]]
  by (simp add: trim_def)

text \<open>What stands at the ends of a hostname is no white space.\<close>

lemma white_space_ends:
  "w \<in> set WHITE_SPACE \<Longrightarrow> \<not> is_ascii_alphanumeric (hd w) \<and> \<not> is_ascii_alphanumeric (last w) \<and> last w \<noteq> CHR ''.''"
proof -
  have "list_all (\<lambda>w. \<not> is_ascii_alphanumeric (hd w) \<and> \<not> is_ascii_alphanumeric (last w) \<and> last w \<noteq> CHR ''.'') WHITE_SPACE"
    by code_simp
  then show "w \<in> set WHITE_SPACE \<Longrightarrow> ?thesis" by (simp add: list_all_iff)
qed

lemma trim_id:
  assumes "s \<noteq> []" and "is_ascii_alphanumeric (hd s)" and "is_ascii_alphanumeric (last s) \<or> last s = CHR ''.''"
  shows "trim s = s"
proof -
  have "\<not> prefix w s" if "w \<in> set WHITE_SPACE" for w
    using that white_space_ends [OF that] white_space_not_empty [OF that] assms(2) by (auto simp: prefix_def hd_append split: if_splits)
  then have "trim_start s = s" by (simp add: trim_start.simps [of s] find_None_iff [THEN iffD2])
  moreover have "\<not> suffix w s" if "w \<in> set WHITE_SPACE" for w
    using that white_space_ends [OF that] white_space_not_empty [OF that] assms(3) by (auto simp: suffix_def last_append split: if_splits)
  then have "trim_end s = s" by (simp add: trim_end.simps [of s] find_None_iff [THEN iffD2])
  ultimately show ?thesis by (simp add: trim_def)
qed

subsection \<open>Lowercase\<close>

lemma lowercase_cases:
  obtains "ascii_lowercase c = c"
  | "is_ascii_alphanumeric c" "is_ascii_alphanumeric (ascii_lowercase c)" "digit_of 10 c = None"
    "digit_of 10 (ascii_lowercase c) = None" "ascii_lowercase (ascii_lowercase c) = ascii_lowercase c"
proof (cases "65 \<le> (of_char c :: nat) \<and> (of_char c :: nat) \<le> 90")
  case True
  then have "(of_char (char_of (of_char c + 32 :: nat)) :: nat) = of_char c + 32" by simp
  moreover have "\<not> (of_char c :: nat) - 55 < 10" "\<not> (of_char c :: nat) + 32 - 87 < 10" using True by linarith+
  ultimately show ?thesis using True
    by (intro that(2)) (simp_all add: is_ascii_alphanumeric_def ascii_lowercase_def digit_of_def hex_value_def Let_def)
qed (intro that(1), auto simp: ascii_lowercase_def Let_def)

lemma lowercase_simps [simp]:
  "is_ascii_alphanumeric (ascii_lowercase c) = is_ascii_alphanumeric c"
  "ascii_lowercase (ascii_lowercase c) = ascii_lowercase c"
  "(digit_of 10 (ascii_lowercase c) = None) = (digit_of 10 c = None)"
  "ascii_lowercase c = CHR ''.'' \<longleftrightarrow> c = CHR ''.''"
  "ascii_lowercase c = CHR ''-'' \<longleftrightarrow> c = CHR ''-''"
  by (cases c rule: lowercase_cases; fastforce)+

lemma digit_lowercase: "digit_of 10 c \<noteq> None \<Longrightarrow> ascii_lowercase c = c"
  by (cases c rule: lowercase_cases) auto

abbreviation lower :: "string \<Rightarrow> string" where
  "lower \<equiv> map ascii_lowercase"

lemma valid_label_lower [simp]: "valid_label (lower label) = valid_label label"
  by (cases "label = []") (simp_all add: valid_label_def list_all_iff hostname_char_def hd_map last_map)

lemma split_dots_lower: "split_dots (lower s) = map lower (split_dots s)"
  by (induction s) (auto split: list.splits)

lemma lower_dot: "lower s = ''.'' \<longleftrightarrow> s = ''.''"
  by (cases s) simp_all

lemma rootless_lower: "rootless (lower s) = lower (rootless s)"
proof (cases "\<exists>t. s = t @ ''.''")
  case True
  then obtain t where s: "s = t @ ''.''" by blast
  have "strip_suffix s ''.'' = Some t" "strip_suffix (lower s) ''.'' = Some (lower t)"
    by (simp_all only: strip_dot) (simp_all add: s ascii_lowercase_def Let_def)
  then show ?thesis by (simp add: rootless_def)
next
  case False
  have "lower s \<noteq> t @ ''.''" for t
  proof
    assume "lower s = t @ ''.''"
    then obtain us vs where s: "s = us @ vs" "''.'' = lower vs" unfolding map_eq_append_conv by metis
    have "vs = ''.''" using s(2) [symmetric] by (simp only: lower_dot)
    then show False using False s(1) by auto
  qed
  then have "strip_suffix (lower s) ''.'' = None" "strip_suffix s ''.'' = None"
    using False by (auto simp: strip_dot_None)
  then show ?thesis by (simp add: rootless_def)
qed

lemma read_number_lower:
  "read_number 10 n z m (lower s) = map_option lower (read_number 10 n z m s)"
proof -
  let ?ds = "takeWhile (\<lambda>c. digit_of 10 c \<noteq> None) s"
  have "lower ?ds = ?ds" by (rule map_idI) (auto dest!: set_takeWhileD intro: digit_lowercase)
  then have "takeWhile (\<lambda>c. digit_of 10 c \<noteq> None) (lower s) = ?ds"
    by (simp add: takeWhile_map comp_def del: not_None_eq)
  then show ?thesis by (simp add: read_number_def Let_def drop_map)
qed

lemma read_given_char_lower:
  "c \<in> {CHR ''.'', CHR ''-''} \<Longrightarrow> read_given_char c (lower s) = map_option lower (read_given_char c s)"
  by (auto simp: read_given_char_def split: list.splits)

lemma read_octet_lower: "read_octet i (lower s) = map_option lower (read_octet i s)"
proof (cases "i = 0")
  case False
  then show ?thesis
    by (cases "read_given_char (CHR ''.'') s")
       (simp_all add: read_octet_def read_separator_def read_given_char_lower read_number_lower)
qed (simp add: read_octet_def read_separator_def read_number_lower)

lemma read_ipv4_lower: "read_ipv4 (lower s) = map_option lower (read_ipv4 s)"
proof -
  have "Option.bind (map_option lower o1) (read_octet i) = map_option lower (Option.bind o1 (read_octet i))" for o1 i
    by (cases o1) (simp_all add: read_octet_lower)
  then show ?thesis by (simp add: read_ipv4_def read_octet_lower)
qed

lemma read_number_suffix: "read_number r n z m s = Some t \<Longrightarrow> set t \<subseteq> set s"
  by (auto simp: read_number_def Let_def split: if_splits dest: in_set_dropD)

lemma no_colon:
  assumes "CHR '':'' \<notin> set s"
  shows "read_given_char (CHR '':'') s = None" "read_separator (CHR '':'') (Suc i) inner s = None"
  using assms by (auto simp: read_separator_def read_given_char_def split: list.splits)

lemma read_ipv6_no_colon:
  assumes "CHR '':'' \<notin> set s"
  shows "read_ipv6 s = None"
proof (cases "read_ipv4 s")
  case None
  show ?thesis
  proof (cases "read_number 16 4 True 65535 s")
    case (Some t)
    then have t: "CHR '':'' \<notin> set t" using assms read_number_suffix by blast
    then have "read_groups 8 (Suc 0) t = ((Suc 0, False), t)" by (simp add: read_groups.simps [of 8 "Suc 0" t] no_colon)
    then show ?thesis using None Some t
      by (simp add: read_ipv6_def read_groups.simps [of 8 0 s] read_separator_def no_colon)
  qed (use None assms in \<open>simp add: read_ipv6_def read_groups.simps [of 8 0 s] read_separator_def no_colon\<close>)
qed (simp add: read_ipv6_def read_groups.simps [of 8 0 s] read_separator_def)

lemma is_ip_lower:
  assumes "CHR '':'' \<notin> set s"
  shows "is_ip_addr (lower s) = is_ip_addr s"
proof -
  have "CHR '':'' \<notin> set (lower s)"
  proof
    assume "CHR '':'' \<in> set (lower s)"
    then obtain c where c: "c \<in> set s" "ascii_lowercase c = CHR '':''" by auto
    then have "\<not> is_ascii_alphanumeric c" by (metis lowercase_simps(1) special_chars(3))
    then have "ascii_lowercase c = c" by (cases c rule: lowercase_cases) simp_all
    then show False using c assms by simp
  qed
  then show ?thesis using assms
    by (cases "read_ipv4 s") (simp_all add: is_ip_addr_def read_ipv4_lower read_ipv6_no_colon)
qed

lemma set_dotted: "set (dotted labels) \<subseteq> insert (CHR ''.'') (\<Union>label\<in>set labels. set label)"
  by (induction labels rule: dotted.induct) auto

lemma labels_no_colon:
  assumes "\<forall>label\<in>set (split_dots s). valid_label label"
  shows "CHR '':'' \<notin> set s"
proof
  assume "CHR '':'' \<in> set s"
  then have "CHR '':'' \<in> insert (CHR ''.'') (\<Union>label\<in>set (split_dots s). set label)"
    using set_dotted [of "split_dots s"] by auto
  then obtain label where "label \<in> set (split_dots s)" "CHR '':'' \<in> set label" by auto
  then have "hostname_char (CHR '':'')" using assms unfolding valid_label_def list_all_iff by blast
  then show False by simp
qed

lemma well_formed_lower: "well_formed_hostname s \<Longrightarrow> well_formed_hostname (lower s)"
  using is_ip_lower [OF labels_no_colon, of "rootless s"]
  by (auto simp: well_formed_iff rootless_lower split_dots_lower)

lemma well_formed_ends:
  assumes "well_formed_hostname s"
  shows "s \<noteq> [] \<and> is_ascii_alphanumeric (hd s) \<and> (is_ascii_alphanumeric (last s) \<or> last s = CHR ''.'')"
proof -
  obtain labels root where s: "s = dotted labels @ root" "root \<in> {[], ''.''}" "labels \<noteq> []"
      "\<forall>label\<in>set labels. valid_label label"
    using assms by (auto simp: well_formed_hostname_def)
  then show ?thesis using dotted_last [OF s(3,4)] by auto
qed

subsection \<open>Parsing\<close>

lemma Hostname_parse_eq:
  "Hostname_parse name =
     (if trim name = [] then Err (HostnameError_new name Empty)
      else if length (rootless (trim name)) > MAX_NAME_LENGTH then Err (HostnameError_new name TooLong)
      else if is_ip_addr (rootless (trim name)) then Err (HostnameError_new name IpLiteral)
      else
        (case check_labels 0 0 (split_dots (rootless (trim name))) of
           Err kind \<Rightarrow> Err (HostnameError_new name kind)
         | Stop s \<Rightarrow> Stop s
         | Ok _ \<Rightarrow> Ok \<lparr>hn_name = lower (trim name)\<rparr>))"
  using trim_length_eq [of name] by (auto simp: Hostname_parse_def rootless_def Let_def split: outcome.splits)

lemma Hostname_parse_Ok:
  "Hostname_parse name = Ok h \<longleftrightarrow> well_formed_hostname (trim name) \<and> h = \<lparr>hn_name = lower (trim name)\<rparr>"
  unfolding well_formed_iff check_labels_Ok [symmetric, of _ 0 0 "()"]
  by (auto simp: Hostname_parse_eq split: outcome.splits)

lemma Hostname_parse_canonical:
  assumes "well_formed_hostname s"
  shows "Hostname_parse s = Ok \<lparr>hn_name = lower s\<rparr>"
  using well_formed_ends [OF assms] assms by (simp add: Hostname_parse_Ok trim_id)

lemma NodeName_parse_name [simp]: "NodeName_parse (NodeName_name node) = Ok node"
proof -
  have "trim ''master'' = ''master''" "trim ''replica-1'' = ''replica-1''" "trim ''replica-2'' = ''replica-2''"
    by (rule trim_id; simp add: is_ascii_alphanumeric_def Let_def)+
  then show ?thesis by (cases node) (simp_all add: NodeName_parse_def)
qed

subsection \<open>The first failure\<close>

definition host_byte :: "char \<Rightarrow> bool" where
  "host_byte c \<longleftrightarrow> hostname_char c \<or> c = CHR ''.''"

text \<open>
  What an error kind says of the label it is reported for, whose index and start are given: the
  label passes the checks that come before the one of the kind, and fails that one.
\<close>

definition label_failure :: "HostnameErrorKind \<Rightarrow> nat \<Rightarrow> nat \<Rightarrow> string \<Rightarrow> bool" where
  "label_failure kind label_index label_start label \<longleftrightarrow>
     (case kind of
        EmptyLabel i \<Rightarrow> i = label_index \<and> label = []
      | LabelTooLong i \<Rightarrow> i = label_index \<and> length label > MAX_LABEL_LENGTH
      | InvalidCharacter b \<Rightarrow> length label \<le> MAX_LABEL_LENGTH \<and>
          (\<exists>offset<length label. b = label_start + offset \<and> \<not> hostname_char (label ! offset) \<and>
             (\<forall>j<offset. hostname_char (label ! j)))
      | InvalidBoundary i \<Rightarrow> i = label_index \<and> label \<noteq> [] \<and> length label \<le> MAX_LABEL_LENGTH \<and>
          list_all hostname_char label \<and>
          \<not> (is_ascii_alphanumeric (hd label) \<and> is_ascii_alphanumeric (last label))
      | _ \<Rightarrow> False)"

definition label_start :: "string list \<Rightarrow> nat \<Rightarrow> nat" where
  "label_start labels i = sum_list (map (\<lambda>l. length l + 1) (take i labels))"

text \<open>
  The first failure of a trimmed name, in the documented order: empty input, overall length, IP
  literal, then each label in order, of which all before the failing one are valid.
\<close>

definition first_failure :: "string \<Rightarrow> HostnameErrorKind \<Rightarrow> bool" where
  "first_failure name kind \<longleftrightarrow>
     (let labels = split_dots (rootless name); long = length (rootless name) > MAX_NAME_LENGTH in
      case kind of
        Empty \<Rightarrow> name = []
      | TooLong \<Rightarrow> name \<noteq> [] \<and> long
      | IpLiteral \<Rightarrow> name \<noteq> [] \<and> \<not> long \<and> is_ip_addr (rootless name)
      | _ \<Rightarrow> name \<noteq> [] \<and> \<not> long \<and> \<not> is_ip_addr (rootless name) \<and>
          (\<exists>i<length labels. (\<forall>j<i. valid_label (labels ! j)) \<and>
             label_failure kind i (label_start labels i) (labels ! i)))"

lemma position_Some_iff:
  "position p xs = Some i \<longleftrightarrow> i < length xs \<and> p (xs ! i) \<and> (\<forall>j<i. \<not> p (xs ! j))"
proof
  assume i: "i < length xs \<and> p (xs ! i) \<and> (\<forall>j<i. \<not> p (xs ! j))"
  then have "position p xs \<noteq> None" by (auto simp: position_eq_None)
  then obtain k where "position p xs = Some k" by blast
  with position_eq_Some [OF this] i show "position p xs = Some i" by (metis linorder_neqE_nat)
qed (rule position_eq_Some)

lemma label_failure_not_valid: "label_failure kind i start label \<Longrightarrow> \<not> valid_label label"
  by (auto simp: label_failure_def valid_label_def list_all_length split: HostnameErrorKind.splits)

lemma check_label_Err:
  assumes "\<not> valid_label label"
  shows "check_labels i start (label # labels) = Err kind \<longleftrightarrow> label_failure kind i start label"
proof -
  let ?p = "position (\<lambda>b. \<not> is_ascii_alphanumeric b \<and> b \<noteq> CHR ''-'') label"
  have chars: "?p = None \<longleftrightarrow> list_all hostname_char label"
    by (auto simp: position_eq_None list_all_iff hostname_char_def)
  have at: "?p = Some k \<longleftrightarrow> k < length label \<and> \<not> hostname_char (label ! k) \<and> (\<forall>j<k. hostname_char (label ! j))" for k
    by (auto simp: position_Some_iff hostname_char_def)
  show ?thesis
  proof (cases ?p)
    case None
    then show ?thesis using chars assms
      by (cases kind) (auto simp: label_failure_def valid_label_def list_all_length)
  next
    case (Some k)
    note k = Some [unfolded at]
    have "(\<exists>offset<length label. b = start + offset \<and> \<not> hostname_char (label ! offset) \<and>
        (\<forall>j<offset. hostname_char (label ! j))) \<longleftrightarrow> b = start + k" for b
      using k by (metis linorder_neqE_nat)
    then show ?thesis using Some chars k
      by (cases kind) (auto simp: label_failure_def)
  qed
qed

lemma check_labels_Err:
  "check_labels i start labels = Err kind \<longleftrightarrow>
     (\<exists>k<length labels. (\<forall>j<k. valid_label (labels ! j)) \<and>
        label_failure kind (i + k) (start + label_start labels k) (labels ! k))"
proof (induction labels arbitrary: i start)
  case (Cons label labels)
  show ?case
  proof (cases "valid_label label")
    case True
    then have "check_labels i start (label # labels) = check_labels (i + 1) (start + (length label + 1)) labels"
      using position_eq_None [of _ label] by (auto simp: valid_label_def list_all_iff hostname_char_def split: option.splits dest!: position_eq_Some)
    then show ?thesis using True label_failure_not_valid [of kind i start label]
      by (auto simp: Cons.IH Ex_less_Suc2 All_less_Suc2 label_start_def ac_simps)
  next
    case False
    then show ?thesis by (auto simp: check_label_Err Ex_less_Suc2 All_less_Suc2 label_start_def simp del: check_labels.simps)
  qed
qed simp

lemma dotted_split_at:
  "dotted (before @ label # behind) = concat (map (\<lambda>l. l @ ''.'') before) @ label @
     (if behind = [] then [] else CHR ''.'' # dotted behind)"
proof (induction before)
  case Nil
  show ?case by (cases behind) simp_all
qed (simp add: dotted_Cons)

lemma invalid_character_position:
  assumes "s = before @ label @ behind" and "list_all host_byte before"
    and "length before \<le> b" and "b - length before < length label"
    and "\<not> hostname_char (label ! (b - length before))" and "\<forall>j<b - length before. hostname_char (label ! j)"
    and "CHR ''.'' \<notin> set label"
  shows "b < length s \<and> \<not> host_byte (s ! b) \<and> (\<forall>j<b. host_byte (s ! j))"
proof -
  have "s ! b = label ! (b - length before)" using assms(1,3,4) by (simp add: nth_append)
  moreover have "label ! (b - length before) \<noteq> CHR ''.''" using assms(4,7) nth_mem by metis
  moreover have "host_byte (s ! j)" if "j < b" for j
  proof (cases "j < length before")
    case True
    then show ?thesis using assms(1,2) by (simp add: nth_append list_all_length)
  next
    case False
    then have j: "j - length before < b - length before" "j - length before < length label" using that assms(4) by linarith+
    then have "s ! j = label ! (j - length before)" using assms(1) False by (simp add: nth_append)
    with j(1) have "s ! j = label ! (j - length before)" "j - length before < b - length before" by simp_all
    then show ?thesis using assms(6) by (simp add: host_byte_def)
  qed
  ultimately show ?thesis using assms(1,3,4,5) by (auto simp: host_byte_def)
qed

lemma rootless_prefix: "\<exists>root. s = rootless s @ root"
proof (cases "strip_suffix s ''.''")
  case (Some labels)
  then show ?thesis using strip_dot [of s labels] by (simp add: rootless_def)
qed (simp add: rootless_def)

subsection \<open>Hostnames of nodes\<close>

lemma node_label: "valid_label (NodeName_name node)" "lower (NodeName_name node) = NodeName_name node"
  by (cases node;
      simp add: valid_label_def MAX_LABEL_LENGTH_def hostname_char_def is_ascii_alphanumeric_def ascii_lowercase_def Let_def)+

lemma read_number_no_digit: "digit_of r c = None \<Longrightarrow> read_number r n z m (c # s) = None"
  by (simp add: read_number_def)

lemma node_name_no_ip: "CHR '':'' \<notin> set s \<Longrightarrow> \<not> is_ip_addr (NodeName_name node @ s)"
proof -
  assume s: "CHR '':'' \<notin> set s"
  obtain c t where c: "NodeName_name node = c # t" "c \<in> {CHR ''m'', CHR ''r''}" by (cases node) auto
  have "digit_of 10 (CHR ''m'') = None" "digit_of 10 (CHR ''r'') = None" by code_simp+
  then have "read_ipv4 (NodeName_name node @ s) = None"
    using c by (auto simp: read_ipv4_def read_octet_def read_separator_def read_number_no_digit)
  moreover have "CHR '':'' \<notin> set (NodeName_name node @ s)" using s by (cases node) simp_all
  ultimately show ?thesis by (simp add: is_ip_addr_def read_ipv6_no_colon)
qed

lemma rootless_append: "s \<noteq> [] \<Longrightarrow> rootless (before @ s) = before @ rootless s"
proof (cases "strip_suffix s ''.''")
  case (Some labels)
  then have "s = labels @ ''.''" by (simp only: strip_dot)
  then have "strip_suffix (before @ s) ''.'' = Some (before @ labels)" by (simp only: strip_dot append_assoc)
  then show ?thesis using Some by (simp add: rootless_def)
next
  case None
  assume "s \<noteq> []"
  then have "before @ s \<noteq> labels @ ''.''" for labels
    using None unfolding strip_dot_None by (cases s rule: rev_cases) auto
  then have "strip_suffix (before @ s) ''.'' = None" by (simp only: strip_dot_None) simp
  then show ?thesis using None by (simp add: rootless_def)
qed

lemma node_hostname_parts:
  assumes "well_formed_hostname (hn_name domain)"
  obtains labels root where "NodeName_name node @ ''.'' @ hn_name domain = dotted (NodeName_name node # labels) @ root"
    "root \<in> {[], ''.''}" "\<forall>label\<in>set (NodeName_name node # labels). valid_label label"
    "CHR '':'' \<notin> set (''.'' @ dotted labels)"
proof -
  obtain labels root where l: "hn_name domain = dotted labels @ root" "root \<in> {[], ''.''}" "labels \<noteq> []"
      "\<forall>label\<in>set labels. valid_label label"
    using assms by (auto simp: well_formed_hostname_def)
  have "split_dots (dotted labels) = labels" using l(3,4) valid_label_no_dot by (intro split_dotted) auto
  then have "CHR '':'' \<notin> set (dotted labels)" using labels_no_colon [of "dotted labels"] l(4) by simp
  then show ?thesis using l node_label(1) by (intro that [of labels root]) (simp_all add: dotted_Cons)
qed

subsection \<open>Properties\<close>

text \<open>
  C26. Parsing a hostname is equivalent to a declarative definition: an input is accepted exactly when,
  without the white space around it, it is a sequence of valid labels joined by dots, with or without
  a root dot, of at most 253 bytes without it, that is no IP address; and it is stored in lowercase.
  The stored name is well-formed itself, and parsing it gives the same hostname again.
\<close>

theorem hostname_parse_iff_well_formed:
  "(Hostname_parse name = Ok h \<longleftrightarrow> well_formed_hostname (trim name) \<and> hn_name h = map ascii_lowercase (trim name)) \<and>
   (well_formed_hostname (trim name) \<longrightarrow> well_formed_hostname (map ascii_lowercase (trim name)) \<and>
      Hostname_parse (map ascii_lowercase (trim name)) = Ok \<lparr>hn_name = map ascii_lowercase (trim name)\<rparr>)"
  using Hostname_parse_canonical [OF well_formed_lower, of "trim name"] well_formed_lower [of "trim name"]
  by (auto simp: Hostname_parse_Ok comp_def)

text \<open>
  C37. A hostname is rejected with the original input and exactly its first failure in the documented
  order: empty, too long, an IP literal, then the first label that is not valid, with the first of
  its own checks that fails: empty, too long, a character, the boundaries. The offset of an invalid
  character is its position in the trimmed input, where all bytes before it are valid.
\<close>

theorem hostname_error_is_first_failure:
  "(Hostname_parse name = Err e \<longleftrightarrow> he_name e = name \<and> first_failure (trim name) (he_kind e)) \<and>
   (first_failure (trim name) (InvalidCharacter b) \<longrightarrow>
      b < length (trim name) \<and> \<not> host_byte (trim name ! b) \<and> (\<forall>j<b. host_byte (trim name ! j)))"
proof
  have labels: "(\<exists>i<length (split_dots s). (\<forall>j<i. valid_label (split_dots s ! j)) \<and>
      label_failure kind i (label_start (split_dots s) i) (split_dots s ! i)) \<longleftrightarrow> check_labels 0 0 (split_dots s) = Err kind"
    for s kind by (simp add: check_labels_Err)
  have kinds: "check_labels 0 0 ls \<noteq> Err Empty" "check_labels 0 0 ls \<noteq> Err TooLong" "check_labels 0 0 ls \<noteq> Err IpLiteral" for ls
    by (simp_all add: check_labels_Err label_failure_def)
  show "Hostname_parse name = Err e \<longleftrightarrow> he_name e = name \<and> first_failure (trim name) (he_kind e)"
    unfolding first_failure_def labels Hostname_parse_eq Let_def using kinds [of "split_dots (rootless (trim name))"]
    by (cases e) (auto simp: HostnameError_new_def check_labels_not_Stop split: HostnameErrorKind.splits outcome.splits)
  show "first_failure (trim name) (InvalidCharacter b) \<longrightarrow>
      b < length (trim name) \<and> \<not> host_byte (trim name ! b) \<and> (\<forall>j<b. host_byte (trim name ! j))"
  proof
    let ?labels = "split_dots (rootless (trim name))"
    assume "first_failure (trim name) (InvalidCharacter b)"
    then obtain i offset where i: "i < length ?labels" "\<forall>j<i. valid_label (?labels ! j)" and
        offset: "offset < length (?labels ! i)" "b = label_start ?labels i + offset" "\<not> hostname_char (?labels ! i ! offset)"
          "\<forall>j<offset. hostname_char (?labels ! i ! j)"
      by (auto simp: first_failure_def label_failure_def Let_def)
    have l: "?labels = take i ?labels @ ?labels ! i # drop (Suc i) ?labels" using i(1) by (rule id_take_nth_drop)
    obtain root where "trim name = rootless (trim name) @ root" using rootless_prefix by blast
    then have name: "trim name = concat (map (\<lambda>l. l @ ''.'') (take i ?labels)) @ ?labels ! i @
        ((if drop (Suc i) ?labels = [] then [] else CHR ''.'' # dotted (drop (Suc i) ?labels)) @ root)"
      using dotted_split [of "rootless (trim name)"] dotted_split_at [of "take i ?labels" "?labels ! i" "drop (Suc i) ?labels"]
      unfolding l [symmetric] by (metis append.assoc)
    have len: "length (concat (map (\<lambda>l. l @ ''.'') (take i ?labels))) = label_start ?labels i"
      by (simp add: label_start_def length_concat comp_def)
    have "\<forall>l\<in>set (take i ?labels). valid_label l" using i by (auto simp: in_set_conv_nth)
    then have "list_all host_byte (concat (map (\<lambda>l. l @ ''.'') (take i ?labels)))"
      by (auto simp: list_all_iff valid_label_def host_byte_def)
    moreover have "CHR ''.'' \<notin> set (?labels ! i)" using split_dots_no_dot nth_mem [OF i(1)] .
    ultimately show "b < length (trim name) \<and> \<not> host_byte (trim name ! b) \<and> (\<forall>j<b. host_byte (trim name ! j))"
      using invalid_character_position [OF name, of b] offset len by simp
  qed
qed

text \<open>
  C35. Every accepted configuration is valid: single mode has no cluster settings, and in cluster
  mode the node is the named slot and the domain a well-formed lowercase hostname. It can be written
  back: converting its own names gives the same configuration.
\<close>

theorem configuration_is_valid:
  assumes "ClusteringConfiguration_try_from raw = Ok configuration"
  shows "case configuration of
      Single \<Rightarrow> trim (raw_mode raw) = ''single'' \<and> raw_cluster raw = None
    | Cluster membership \<Rightarrow> trim (raw_mode raw) = ''cluster'' \<and>
        (\<exists>cluster. raw_cluster raw = Some cluster \<and>
           trim (raw_my_node_name cluster) = NodeName_name (my_node_name membership) \<and>
           hn_name (cluster_domain membership) = map ascii_lowercase (trim (raw_cluster_domain cluster))) \<and>
        well_formed_hostname (hn_name (cluster_domain membership)) \<and>
        ClusteringConfiguration_try_from
          \<lparr>raw_mode = ''cluster'', raw_cluster = Some \<lparr>raw_my_node_name = NodeName_name (my_node_name membership),
             raw_cluster_domain = hn_name (cluster_domain membership)\<rparr>\<rparr> = Ok configuration"
proof (cases configuration)
  case Single
  then show ?thesis using assms
    by (auto simp: ClusteringConfiguration_try_from_def split: if_splits option.splits outcome.splits)
next
  case (Cluster membership)
  then obtain cluster node domain where c: "trim (raw_mode raw) = ''cluster''" "raw_cluster raw = Some cluster"
      "NodeName_parse (raw_my_node_name cluster) = Ok node" "Hostname_parse (raw_cluster_domain cluster) = Ok domain"
      "membership = \<lparr>my_node_name = node, cluster_domain = domain\<rparr>"
    using assms by (auto simp: ClusteringConfiguration_try_from_def ClusterMembership_new_def
        split: if_splits option.splits outcome.splits)
  have node: "trim (raw_my_node_name cluster) = NodeName_name node"
    using c(3) by (auto simp: NodeName_parse_def split: if_splits)
  have wf: "well_formed_hostname (trim (raw_cluster_domain cluster))"
      "domain = \<lparr>hn_name = lower (trim (raw_cluster_domain cluster))\<rparr>"
    using c(4) unfolding Hostname_parse_Ok by simp_all
  then have domain: "well_formed_hostname (hn_name domain)" "Hostname_parse (hn_name domain) = Ok domain"
      "hn_name domain = lower (trim (raw_cluster_domain cluster))"
    using well_formed_lower [OF wf(1)] Hostname_parse_canonical [OF well_formed_lower [OF wf(1)]] by (simp_all add: comp_def)
  have mode: "trim ''cluster'' = ''cluster''" by (rule trim_id) (simp_all add: is_ascii_alphanumeric_def Let_def)
  show ?thesis using c node domain mode Cluster
    by (simp add: ClusteringConfiguration_try_from_def ClusterMembership_new_def)
qed

text \<open>
  C38. The hostname of a node in an accepted domain is an accepted hostname, unless it is too long:
  the formatted name is not checked, and with a domain of the maximum length it is rejected.
\<close>

theorem node_hostname_accepted_unless_too_long:
  assumes "Hostname_parse name = Ok domain"
  shows "let s = node_hostname (ClusterMembership_new self domain) node in
    Hostname_parse s =
      (if length (NodeName_name node) + 1 + length (rootless (trim name)) > MAX_NAME_LENGTH
       then Err (HostnameError_new s TooLong) else Ok \<lparr>hn_name = s\<rparr>)"
proof -
  let ?s = "NodeName_name node @ ''.'' @ hn_name domain"
  have domain: "well_formed_hostname (hn_name domain)" "hn_name domain = lower (trim name)"
    using assms well_formed_lower by (simp_all add: Hostname_parse_Ok)
  obtain labels root where s: "?s = dotted (NodeName_name node # labels) @ root" "root \<in> {[], ''.''}"
      "\<forall>label\<in>set (NodeName_name node # labels). valid_label label" "CHR '':'' \<notin> set (''.'' @ dotted labels)"
    by (rule node_hostname_parts [OF domain(1)]) (rule that)
  let ?labels = "NodeName_name node # labels"
  have r: "rootless ?s = dotted ?labels" unfolding s(1) by (rule rootless_dotted [OF _ s(3,2)]) simp
  have ends: "?s \<noteq> []" "is_ascii_alphanumeric (hd ?s)" "is_ascii_alphanumeric (last ?s) \<or> last ?s = CHR ''.''"
    using well_formed_ends [OF domain(1)] by (cases node; simp add: is_ascii_alphanumeric_def Let_def)+
  have lower: "lower ?s = ?s" using domain(2) node_label(2) [of node] by (simp add: comp_def ascii_lowercase_def Let_def)
  have split: "split_dots (dotted ?labels) = ?labels" using s(3) valid_label_no_dot by (intro split_dotted) auto
  have "labels = [] \<or> dotted ?labels = NodeName_name node @ ''.'' @ dotted labels"
    by (cases "labels = []") (simp_all add: dotted_Cons)
  then have ip: "\<not> is_ip_addr (dotted ?labels)"
    using node_name_no_ip [of "''.'' @ dotted labels" node] node_name_no_ip [of "[]" node] s(4) by auto
  have len: "length (rootless ?s) = length (NodeName_name node) + 1 + length (rootless (trim name))"
    using rootless_append [of "hn_name domain" "NodeName_name node @ ''.''"] rootless_lower [of "trim name"]
      well_formed_ends [OF domain(1)] by (simp add: domain(2))
  have "check_labels 0 0 ?labels = Ok ()" using s(3) check_labels_Ok by blast
  then show ?thesis using ends trim_id [OF ends] r split ip lower len
    by (auto simp: Let_def node_hostname_def ClusterMembership_new_def Hostname_parse_eq)
qed

subsection \<open>Runs\<close>

lemma not_ip: "CHR '':'' \<notin> set s \<Longrightarrow> read_ipv4 s = None \<Longrightarrow> \<not> is_ip_addr s"
  by (simp add: is_ip_addr_def read_ipv6_no_colon)

lemma example_trimmed: "trim '' Ab-1.COM. '' = ''Ab-1.COM.''"
proof -
  have "find (\<lambda>w. prefix w '' Ab-1.COM. '') WHITE_SPACE = Some '' ''" "find (\<lambda>w. prefix w ''Ab-1.COM. '') WHITE_SPACE = None"
      "find (\<lambda>w. suffix w ''Ab-1.COM. '') WHITE_SPACE = Some '' ''" "find (\<lambda>w. suffix w ''Ab-1.COM.'') WHITE_SPACE = None"
    by code_simp+
  then show ?thesis
    by (simp add: trim_def trim_start.simps [of "'' Ab-1.COM. ''"] trim_start.simps [of "''Ab-1.COM. ''"]
        trim_end.simps [of "''Ab-1.COM. ''"] trim_end.simps [of "''Ab-1.COM.''"])
qed

lemma example_accepted:
  "Hostname_parse '' Ab-1.COM. '' = Ok \<lparr>hn_name = ''ab-1.com.''\<rparr>" "lower ''Ab-1.COM.'' = ''ab-1.com.''"
proof -
  have lower: "lower ''Ab-1.COM.'' = ''ab-1.com.''" by code_simp
  have parts: "rootless ''Ab-1.COM.'' = ''Ab-1.COM''" "check_labels 0 0 (split_dots ''Ab-1.COM'') = Ok ()"
      "read_ipv4 ''Ab-1.COM'' = None" "length ''Ab-1.COM'' \<le> MAX_NAME_LENGTH"
    by code_simp+
  have "\<not> is_ip_addr ''Ab-1.COM''" by (rule not_ip [OF _ parts(3)]) simp
  then show "Hostname_parse '' Ab-1.COM. '' = Ok \<lparr>hn_name = ''ab-1.com.''\<rparr>" using parts lower
    unfolding Hostname_parse_eq example_trimmed by simp
  show "lower ''Ab-1.COM.'' = ''ab-1.com.''" by (rule lower)
qed

lemma example_rejected:
  "trim ''a.b_c'' = ''a.b_c''" "Hostname_parse ''a.b_c'' = Err \<lparr>he_name = ''a.b_c'', he_kind = InvalidCharacter 3\<rparr>"
proof -
  have ends: "is_ascii_alphanumeric (hd ''a.b_c'')" "is_ascii_alphanumeric (last ''a.b_c'')" by code_simp+
  show trim: "trim ''a.b_c'' = ''a.b_c''" by (rule trim_id) (use ends in simp_all)
  have parts: "rootless ''a.b_c'' = ''a.b_c''" "check_labels 0 0 (split_dots ''a.b_c'') = Err (InvalidCharacter 3)"
      "read_ipv4 ''a.b_c'' = None" "length ''a.b_c'' \<le> MAX_NAME_LENGTH" by code_simp+
  have "\<not> is_ip_addr ''a.b_c''" by (rule not_ip [OF _ parts(3)]) simp
  then show "Hostname_parse ''a.b_c'' = Err \<lparr>he_name = ''a.b_c'', he_kind = InvalidCharacter 3\<rparr>"
    using parts unfolding Hostname_parse_eq trim by (simp add: HostnameError_new_def)
qed

theorem hostname_parse_iff_well_formed_witness:
  "well_formed_hostname ''Ab-1.COM.'' \<and> Hostname_parse ''ab-1.com.'' = Ok \<lparr>hn_name = ''ab-1.com.''\<rparr>"
proof -
  note iff = hostname_parse_iff_well_formed [of "'' Ab-1.COM. ''" "\<lparr>hn_name = ''ab-1.com.''\<rparr>",
      unfolded example_trimmed example_accepted Hostname.select_convs]
  from iff [THEN conjunct1] have "well_formed_hostname ''Ab-1.COM.''" by blast
  with iff show ?thesis by blast
qed

theorem hostname_error_is_first_failure_witness:
  "first_failure ''a.b_c'' (InvalidCharacter 3) \<and> \<not> host_byte (''a.b_c'' ! 3) \<and>
   host_byte (''a.b_c'' ! 0) \<and> host_byte (''a.b_c'' ! 1) \<and> host_byte (''a.b_c'' ! 2)"
proof -
  note parts = hostname_error_is_first_failure [of "''a.b_c''" "\<lparr>he_name = ''a.b_c'', he_kind = InvalidCharacter 3\<rparr>" 3,
      unfolded example_rejected]
  have "first_failure ''a.b_c'' (InvalidCharacter 3)" using parts [THEN conjunct1] by simp
  moreover from this have "\<not> host_byte (''a.b_c'' ! 3) \<and> (\<forall>j<3. host_byte (''a.b_c'' ! j))"
    using parts [THEN conjunct2] by blast
  moreover have "(0::nat) < 3" "(1::nat) < 3" "(2::nat) < 3" by simp_all
  ultimately show ?thesis by blast
qed

definition example_raw :: RawClusteringConfiguration where
  "example_raw = \<lparr>raw_mode = ''cluster'', raw_cluster = Some \<lparr>raw_my_node_name = ''replica-1'', raw_cluster_domain = '' Ab-1.COM. ''\<rparr>\<rparr>"

theorem configuration_is_valid_witness:
  "ClusteringConfiguration_try_from example_raw =
     Ok (Cluster \<lparr>my_node_name = Replica1, cluster_domain = \<lparr>hn_name = ''ab-1.com.''\<rparr>\<rparr>) \<and>
   well_formed_hostname ''ab-1.com.''"
proof -
  have mode: "trim ''cluster'' = ''cluster''" by (rule trim_id) (simp_all add: is_ascii_alphanumeric_def Let_def)
  have run: "ClusteringConfiguration_try_from example_raw =
     Ok (Cluster \<lparr>my_node_name = Replica1, cluster_domain = \<lparr>hn_name = ''ab-1.com.''\<rparr>\<rparr>)"
    using NodeName_parse_name [of Replica1]
    by (simp add: ClusteringConfiguration_try_from_def example_raw_def mode example_accepted(1) ClusterMembership_new_def)
  from configuration_is_valid [OF run] run show ?thesis by simp
qed

text \<open>A domain of 253 bytes, the maximum, whose node hostnames are too long.\<close>

definition example_long_domain :: string where
  "example_long_domain = dotted (replicate 3 (replicate 63 (CHR ''x'')) @ [replicate 61 (CHR ''x'')])"

theorem node_hostname_accepted_unless_too_long_witness:
  "let s = node_hostname (ClusterMembership_new Master \<lparr>hn_name = example_long_domain\<rparr>) Replica1 in
   Hostname_parse example_long_domain = Ok \<lparr>hn_name = example_long_domain\<rparr> \<and>
   Hostname_parse s = Err (HostnameError_new s TooLong)"
proof -
  have parts: "rootless example_long_domain = example_long_domain" "read_ipv4 example_long_domain = None"
      "check_labels 0 0 (split_dots example_long_domain) = Ok ()" "length example_long_domain = 253"
      "CHR '':'' \<notin> set example_long_domain" "lower example_long_domain = example_long_domain"
      "is_ascii_alphanumeric (hd example_long_domain)" "is_ascii_alphanumeric (last example_long_domain)"
    by code_simp+
  then have trim: "trim example_long_domain = example_long_domain" by (intro trim_id) auto
  have run: "Hostname_parse example_long_domain = Ok \<lparr>hn_name = example_long_domain\<rparr>"
    unfolding Hostname_parse_eq trim parts(1,3) using parts(4,6) not_ip [OF parts(5,2)]
    by (auto simp: MAX_NAME_LENGTH_def)
  show ?thesis
    using node_hostname_accepted_unless_too_long [OF run, of Master Replica1] run
    by (simp add: MAX_NAME_LENGTH_def Let_def trim parts(1,4))
qed

end
